(* ===== verification/Prelude.thy ===== *)
theory Prelude
  imports Complex_Main "HOL-Library.Multiset" "HOL-Library.Word" "HOL-Library.AList"
    "HOL-Library.Char_ord" "HOL-Library.List_Lexorder" "HOL-Library.Product_Lexorder"
begin

text \<open>
  The vocabulary every component shares: names for the machine types, the decimal
  rendering of integers that \<open>format!\<close> uses, association lists standing for
  concurrent hash maps (their order stands for the map's iteration order, over which every
  theorem quantifies), bounded histories, and the generic lemmas the component proofs use.
\<close>

type_synonym u8 = "8 word"
type_synonym u64 = "64 word"
type_synonym bytes = "u8 list"
type_synonym millis = nat
type_synonym op_id = nat

named_theorems stage_simps \<open>facts on the execution stages\<close>
named_theorems inv_intros \<open>operations that keep a component's invariant\<close>

section \<open>Decimal numbers\<close>

definition digit_char :: "nat \<Rightarrow> char" where
  "digit_char d = char_of (48 + d)"

fun show_nat :: "nat \<Rightarrow> string" where
  "show_nat n = (if n < 10 then [digit_char n]
                 else show_nat (n div 10) @ [digit_char (n mod 10)])"

declare show_nat.simps [simp del]

definition show_int :: "int \<Rightarrow> string" where
  "show_int i = (if i < 0 then CHR ''-'' # show_nat (nat (- i)) else show_nat (nat i))"

definition digit_val :: "char \<Rightarrow> nat option" where
  "digit_val c = (let k = of_char c :: nat in if 48 \<le> k \<and> k \<le> 57 then Some (k - 48) else None)"

fun read_digits :: "nat \<Rightarrow> string \<Rightarrow> nat option" where
  "read_digits acc [] = Some acc"
| "read_digits acc (c # cs) =
     (case digit_val c of None \<Rightarrow> None | Some d \<Rightarrow> read_digits (10 * acc + d) cs)"

text \<open>
  \<open>str::parse\<close> of an unsigned integer with \<open>w\<close> bits: an optional \<open>+\<close>, then at least
  one decimal digit and nothing else; a value of \<open>2 ^ w\<close> or more is an overflow error.
\<close>

definition parse_unsigned :: "nat \<Rightarrow> string \<Rightarrow> nat option" where
  "parse_unsigned w s =
     (let ds = (case s of c # cs \<Rightarrow> if c = CHR ''+'' then cs else s | [] \<Rightarrow> []) in
      if ds = [] then None
      else case read_digits 0 ds of None \<Rightarrow> None | Some n \<Rightarrow> if n < 2 ^ w then Some n else None)"

text \<open>\<open>str::parse::<i64>\<close>: an optional sign, at least one digit, the value in range.\<close>

definition parse_i64 :: "string \<Rightarrow> int option" where
  "parse_i64 s =
     (case s of
        [] \<Rightarrow> None
      | c # cs \<Rightarrow>
          if c = CHR ''-'' then
            (if cs = [] then None
             else case read_digits 0 cs of None \<Rightarrow> None
                  | Some n \<Rightarrow> if n \<le> 2 ^ 63 then Some (- int n) else None)
          else
            (let ds = (if c = CHR ''+'' then cs else s) in
             if ds = [] then None
             else case read_digits 0 ds of None \<Rightarrow> None
                  | Some n \<Rightarrow> if n < 2 ^ 63 then Some (int n) else None))"

lemma digit_val_digit_char [simp]: "d < 10 \<Longrightarrow> digit_val (digit_char d) = Some d"
  by (simp add: digit_val_def digit_char_def Let_def)

lemma read_digits_append:
  "read_digits acc (xs @ ys) =
     (case read_digits acc xs of None \<Rightarrow> None | Some a \<Rightarrow> read_digits a ys)"
  by (induction xs arbitrary: acc) (auto split: option.splits)

lemma read_show_nat [simp]: "read_digits 0 (show_nat n) = Some n"
proof (induction n rule: show_nat.induct)
  case (1 n)
  show ?case
  proof (cases "n < 10")
    case True
    then show ?thesis by (simp add: show_nat.simps [of n])
  next
    case False
    then have "read_digits 0 (show_nat (n div 10)) = Some (n div 10)"
      using "1.IH" by simp
    with False show ?thesis
      by (simp add: show_nat.simps [of n] read_digits_append)
  qed
qed

lemma digit_char_neq [simp]:
  "d < 10 \<Longrightarrow> digit_char d \<noteq> CHR ''+''" "d < 10 \<Longrightarrow> digit_char d \<noteq> CHR ''-''"
  "d < 10 \<Longrightarrow> digit_char d \<noteq> CHR ''e''" "d < 10 \<Longrightarrow> digit_char d \<noteq> CHR ''/''"
  "d < 10 \<Longrightarrow> CHR ''+'' \<noteq> digit_char d" "d < 10 \<Longrightarrow> CHR ''-'' \<noteq> digit_char d"
  "d < 10 \<Longrightarrow> CHR ''e'' \<noteq> digit_char d" "d < 10 \<Longrightarrow> CHR ''/'' \<noteq> digit_char d"
  by (auto simp: digit_char_def dest!: arg_cong [of _ _ "of_char :: char \<Rightarrow> nat"])

lemma show_nat_not_Nil [simp]: "show_nat n \<noteq> []"
  by (simp add: show_nat.simps [of n])

lemma set_show_nat: "c \<in> set (show_nat n) \<Longrightarrow> \<exists>d < 10. c = digit_char d"
proof (induction n rule: show_nat.induct)
  case (1 n)
  show ?case
  proof (cases "n < 10")
    case True
    with "1.prems" show ?thesis by (auto simp: show_nat.simps [of n])
  next
    case False
    with "1.prems" have "c \<in> set (show_nat (n div 10)) \<or> c = digit_char (n mod 10)"
      by (auto simp: show_nat.simps [of n])
    moreover have "n mod 10 < 10" by simp
    ultimately show ?thesis using "1.IH" [OF False] by blast
  qed
qed

lemma show_nat_inject [simp]: "show_nat a = show_nat b \<longleftrightarrow> a = b"
  by (metis read_show_nat option.inject)

lemma show_nat_Cons:
  obtains d cs where "d < 10" "show_nat n = digit_char d # cs"
    "read_digits 0 (digit_char d # cs) = Some n"
proof -
  obtain c cs where eq: "show_nat n = c # cs" by (cases "show_nat n") auto
  then have "c \<in> set (show_nat n)" by simp
  then obtain d where "d < 10" "c = digit_char d" using set_show_nat by blast
  moreover have "read_digits 0 (c # cs) = Some n"
    using read_show_nat [of n] by (simp only: eq)
  ultimately show thesis using that eq by blast
qed

lemma parse_unsigned_show_nat:
  assumes "n < 2 ^ w" shows "parse_unsigned w (show_nat n) = Some n"
  by (rule show_nat_Cons [of n]) (use assms in \<open>simp add: parse_unsigned_def Let_def\<close>)

lemma parse_i64_show_int: "- (2 ^ 63) \<le> i \<Longrightarrow> i < 2 ^ 63 \<Longrightarrow> parse_i64 (show_int i) = Some i"
proof (cases "i < 0")
  case True
  assume lo: "- (2 ^ 63) \<le> i"
  with True have "nat (- i) \<le> 2 ^ 63" by simp
  with True show ?thesis by (simp add: parse_i64_def show_int_def)
next
  case False
  assume hi: "i < 2 ^ 63"
  with False have "nat i < 2 ^ 63" by (simp add: nat_less_iff)
  then show ?thesis
    by (rule_tac show_nat_Cons [of "nat i"])
      (use False in \<open>simp add: parse_i64_def show_int_def Let_def\<close>)
qed

section \<open>Lists\<close>

text \<open>
  A bounded history: \<open>push\<close> at the back, then drop from the front what exceeds the
  capacity (\<open>Vec::drain(0..excess)\<close>).
\<close>

definition push_capped :: "nat \<Rightarrow> 'a list \<Rightarrow> 'a \<Rightarrow> 'a list" where
  "push_capped cap xs x =
     (let ys = xs @ [x] in if length ys > cap then drop (length ys - cap) ys else ys)"

lemma length_push_capped: "length (push_capped cap xs x) = min cap (Suc (length xs))"
  by (auto simp: push_capped_def Let_def)

lemma last_push_capped: "0 < cap \<Longrightarrow> last (push_capped cap xs x) = x"
  by (auto simp: push_capped_def Let_def)

lemma push_capped_not_Nil: "0 < cap \<Longrightarrow> push_capped cap xs x \<noteq> []"
  by (auto simp: push_capped_def Let_def)

lemma set_push_capped: "set (push_capped cap xs x) \<subseteq> insert x (set xs)"
  by (auto simp: push_capped_def Let_def dest: in_set_dropD)

lemma successively_drop: "successively P xs \<Longrightarrow> successively P (drop n xs)"
proof -
  assume "successively P xs"
  then have "successively P (take n xs @ drop n xs)" by simp
  then show ?thesis by (simp only: successively_append_iff)
qed

lemma successively_push_capped:
  assumes "successively P xs" and "xs \<noteq> [] \<Longrightarrow> P (last xs) x"
  shows "successively P (push_capped cap xs x)"
proof -
  have "successively P (xs @ [x])"
    using assms by (auto simp: successively_append_iff)
  then show ?thesis
    by (simp add: push_capped_def Let_def successively_drop del: drop_append)
qed

lemma sum_list_map_filter_le:
  "sum_list (map f (filter P xs)) \<le> sum_list (map (f :: 'a \<Rightarrow> nat) xs)"
  by (induction xs) auto

lemma filter_neq_absent [simp]: "x \<notin> set xs \<Longrightarrow> filter (\<lambda>e. e \<noteq> x) xs = xs"
  by (auto simp: filter_id_conv)

lemma remdups_snoc: "remdups (xs @ [x]) = filter (\<lambda>e. e \<noteq> x) (remdups xs) @ [x]"
  by (induction xs) auto

lemma sum_list_pos_iff: "0 < sum_list (map f xs) \<longleftrightarrow> (\<exists>x \<in> set xs. 0 < (f x :: nat))"
  by (induction xs) auto

section \<open>Association lists as maps\<close>

lemma map_of_update [simp]: "map_of (AList.update k v al) = (map_of al)(k \<mapsto> v)"
  by (rule update_conv')

lemma map_of_delete [simp]: "map_of (AList.delete k al) = (map_of al)(k := None)"
  by (rule delete_conv')

lemma map_of_Some_iff:
  "distinct (map fst al) \<Longrightarrow> map_of al k = Some v \<longleftrightarrow> (k, v) \<in> set al"
  by (metis map_of_SomeD map_of_is_SomeI)

lemma map_of_filter_key:
  "distinct (map fst al) \<Longrightarrow>
   map_of (filter P al) k =
     (case map_of al k of None \<Rightarrow> None | Some v \<Rightarrow> if P (k, v) then Some v else None)"
  by (induction al) (auto split: option.splits dest: map_of_SomeD simp: image_iff)

lemma distinct_map_fst_filter:
  "distinct (map fst al) \<Longrightarrow> distinct (map fst (filter P al))"
  by (induction al) auto

section \<open>Ordered maps\<close>

text \<open>A \<open>BTreeMap\<close> with numeric keys as its in-order list of entries.\<close>

fun bt_insert :: "nat \<Rightarrow> 'v \<Rightarrow> (nat \<times> 'v) list \<Rightarrow> (nat \<times> 'v) list" where
  "bt_insert k v [] = [(k, v)]"
| "bt_insert k v ((j, w) # xs) =
     (if k < j then (k, v) # (j, w) # xs
      else if k = j then (k, v) # xs
      else (j, w) # bt_insert k v xs)"

definition bt_remove :: "nat \<Rightarrow> (nat \<times> 'v) list \<Rightarrow> (nat \<times> 'v) list" where
  "bt_remove k xs = filter (\<lambda>p. fst p \<noteq> k) xs"

definition bt_contains :: "nat \<Rightarrow> (nat \<times> 'v) list \<Rightarrow> bool" where
  "bt_contains k xs = list_ex (\<lambda>p. fst p = k) xs"

abbreviation bt_sorted :: "(nat \<times> 'v) list \<Rightarrow> bool" where
  "bt_sorted xs \<equiv> sorted_wrt (<) (map fst xs)"

lemma bt_contains_iff: "bt_contains k xs \<longleftrightarrow> k \<in> fst ` set xs"
  by (auto simp: bt_contains_def list_ex_iff image_iff)

lemma set_bt_insert_fresh:
  "k \<notin> fst ` set xs \<Longrightarrow> set (bt_insert k v xs) = insert (k, v) (set xs)"
  by (induction k v xs rule: bt_insert.induct) auto

lemma fst_set_bt_insert: "fst ` set (bt_insert k v xs) = insert k (fst ` set xs)"
  by (induction k v xs rule: bt_insert.induct) auto

lemma bt_sorted_insert [simp]: "bt_sorted xs \<Longrightarrow> bt_sorted (bt_insert k v xs)"
proof (induction k v xs rule: bt_insert.induct)
  case (2 k v j w xs)
  have "set (map fst (bt_insert k v xs)) = insert k (fst ` set xs)"
    using fst_set_bt_insert [of k v xs] by simp
  with 2 show ?case by auto
qed simp

lemma bt_insert_top: "\<forall>j \<in> fst ` set xs. j < k \<Longrightarrow> bt_insert k v xs = xs @ [(k, v)]"
  by (induction k v xs rule: bt_insert.induct) auto

lemma bt_insert_fresh_split:
  assumes "k \<notin> fst ` set xs"
  shows "bt_insert k v xs = takeWhile (\<lambda>p. fst p < k) xs @ (k, v) # dropWhile (\<lambda>p. fst p < k) xs"
  using assms by (induction k v xs rule: bt_insert.induct) auto

lemma bt_sorted_remove [simp]: "bt_sorted xs \<Longrightarrow> bt_sorted (bt_remove k xs)"
  by (induction xs) (auto simp: bt_remove_def)

lemma set_bt_remove [simp]: "set (bt_remove k xs) = {p \<in> set xs. fst p \<noteq> k}"
  by (auto simp: bt_remove_def)

section \<open>Minimum by a key\<close>

text \<open>\<open>Iterator::min_by_key\<close>: the first element whose key is minimal, none on an empty iterator.\<close>

fun min_by_key :: "('a \<Rightarrow> 'k::linorder) \<Rightarrow> 'a list \<Rightarrow> 'a option" where
  "min_by_key f [] = None"
| "min_by_key f (x # xs) =
     (case min_by_key f xs of None \<Rightarrow> Some x | Some y \<Rightarrow> if f y < f x then Some y else Some x)"

lemma min_by_key_None [simp]: "min_by_key f xs = None \<longleftrightarrow> xs = []"
  by (cases xs) (auto split: option.splits)

lemma min_by_key_Some:
  "min_by_key f xs = Some x \<Longrightarrow> x \<in> set xs \<and> (\<forall>y \<in> set xs. f x \<le> f y)"
  by (induction xs arbitrary: x) (auto split: option.splits if_splits)

lemma min_by_key_perm:
  assumes "set xs = set ys" and "inj_on f (set xs)"
  shows "min_by_key f xs = min_by_key f ys"
proof (cases "min_by_key f xs")
  case None
  then show ?thesis using assms(1) by (metis min_by_key_None set_empty)
next
  case (Some x)
  then obtain y where y: "min_by_key f ys = Some y"
    using assms(1) by (cases "min_by_key f ys") auto
  have "f x = f y"
    using min_by_key_Some [OF Some] min_by_key_Some [OF y] assms(1) by (auto intro: antisym)
  moreover have "x \<in> set xs" "y \<in> set xs"
    using min_by_key_Some [OF Some] min_by_key_Some [OF y] assms(1) by auto
  ultimately have "x = y" using assms(2) by (simp add: inj_on_eq_iff)
  then show ?thesis using Some y by simp
qed

text \<open>Visiting the entries of an association list with a function on the values.\<close>

definition alist_modify :: "'k \<Rightarrow> ('v \<Rightarrow> 'v) \<Rightarrow> ('k \<times> 'v) list \<Rightarrow> ('k \<times> 'v) list" where
  "alist_modify k f al = map (\<lambda>(j, v). (j, if j = k then f v else v)) al"

lemma map_fst_alist_modify [simp]: "map fst (alist_modify k f al) = map fst al"
  by (auto simp: alist_modify_def)

lemma map_of_alist_modify [simp]:
  "map_of (alist_modify k f al) j = (if j = k then map_option f (map_of al j) else map_of al j)"
  by (induction al) (auto simp: alist_modify_def)

lemma set_alist_modify:
  "(j, v) \<in> set (alist_modify k f al) \<longleftrightarrow>
     (if j = k then \<exists>u. (k, u) \<in> set al \<and> v = f u else (j, v) \<in> set al)"
  by (auto simp: alist_modify_def image_iff split: if_splits) force+

section \<open>Association lists of lists\<close>

definition entries_mset :: "('v \<Rightarrow> 'a list) \<Rightarrow> ('k \<times> 'v) list \<Rightarrow> 'a multiset" where
  "entries_mset f al = mset (concat (map (\<lambda>(_, v). f v) al))"

lemma entries_mset_simps [simp]:
  "entries_mset f [] = {#}" "entries_mset f ((k, v) # al) = mset (f v) + entries_mset f al"
  by (simp_all add: entries_mset_def)

lemma delete_absent: "k \<notin> fst ` set al \<Longrightarrow> AList.delete k al = al"
  by (induction al) auto

lemma entries_mset_update:
  "distinct (map fst al) \<Longrightarrow>
   entries_mset f (AList.update k v al) = entries_mset f (AList.delete k al) + mset (f v)"
proof (induction al)
  case (Cons p al)
  then show ?case by (cases p) (auto simp: delete_absent)
qed simp

lemma entries_mset_delete:
  "distinct (map fst al) \<Longrightarrow> map_of al k = Some v \<Longrightarrow>
   entries_mset f al = entries_mset f (AList.delete k al) + mset (f v)"
proof (induction al)
  case (Cons p al)
  then show ?case by (cases p) (auto simp: delete_absent split: if_splits)
qed simp

lemma set_update_cases:
  "(j, w) \<in> set (AList.update k v al) \<Longrightarrow> distinct (map fst al) \<Longrightarrow> (j = k \<and> w = v) \<or> (j \<noteq> k \<and> (j, w) \<in> set al)"
  by (metis distinct_update fun_upd_apply map_of_Some_iff map_of_update option.inject)

lemma distinct_map_update:
  "distinct (map fst al) \<Longrightarrow> distinct (map g al) \<Longrightarrow> \<forall>p \<in> set al. fst p \<noteq> k \<longrightarrow> g p \<noteq> g (k, v) \<Longrightarrow>
   distinct (map g (AList.update k v al))"
proof (induction al)
  case (Cons p al)
  have "set (AList.update k v al) \<subseteq> insert (k, v) (set al)"
    using Cons.prems(1) by (auto dest: set_update_cases)
  with Cons show ?case by (cases p) (auto simp: image_iff)
qed simp

lemma map_of_map_values:
  "map_of (map (\<lambda>(k, qu). (k, f qu)) al) k = map_option f (map_of al k)"
  by (induction al) auto

definition count_entries :: "('v \<Rightarrow> bool) \<Rightarrow> ('k \<times> 'v) list \<Rightarrow> nat" where
  "count_entries P al = length (filter (\<lambda>(_, v). P v) al)"

lemma count_entries_delete:
  "distinct (map fst al) \<Longrightarrow> map_of al k = Some v \<Longrightarrow>
   count_entries P al = count_entries P (AList.delete k al) + of_bool (P v)"
  by (induction al) (auto simp: count_entries_def delete_absent)

lemma count_entries_update:
  "map_of al k = None \<Longrightarrow> count_entries P (AList.update k v al) = count_entries P al + of_bool (P v)"
  by (induction al) (auto simp: count_entries_def split: if_splits)

lemma delete_alist_modify [simp]: "AList.delete k (alist_modify k f al) = AList.delete k al"
  by (induction al) (auto simp: alist_modify_def)

lemma count_entries_modify:
  "distinct (map fst al) \<Longrightarrow> map_of al k = Some v \<Longrightarrow>
   count_entries P (alist_modify k f al) = count_entries P (AList.delete k al) + of_bool (P (f v))"
  using count_entries_delete [of "alist_modify k f al" k "f v" P] by simp

lemma map_alist_modify:
  "(\<And>v. g (k, f v) = g (k, v)) \<Longrightarrow> map g (alist_modify k f al) = map g al"
  by (auto simp: alist_modify_def)

lemma update_fresh: "map_of al k = None \<Longrightarrow> AList.update k v al = al @ [(k, v)]"
  by (induction al) (auto split: if_splits)

lemma mset_delete_entry:
  "distinct (map fst al) \<Longrightarrow> (k, v) \<in> set al \<Longrightarrow> mset al = add_mset (k, v) (mset (AList.delete k al))"
proof (induction al)
  case (Cons p al)
  show ?case
  proof (cases "fst p = k")
    case True
    with Cons.prems have "p = (k, v)" "k \<notin> fst ` set al"
      using eq_key_imp_eq_value [of "p # al" k v "snd p"] by (auto simp: image_iff)
    then show ?thesis by (simp add: delete_absent)
  next
    case False
    with Cons show ?thesis by auto
  qed
qed simp

end
