(* ===== verification/Digest.thy ===== *)
theory Digest
  imports Prelude
begin

text \<open>
  \<open>types.rs\<close>: digests, the crate error type and the lock-free timestamp. A SHA-256 is a
  list of 32 bytes. Two packages the file calls are parameters: \<open>hex_encode\<close> stands for
  \<open>hex::encode\<close> and \<open>sha256\<close> for \<open>sha2::Sha256::digest\<close>; \<open>lower_hex_codec\<close> and
  \<open>sha256_width\<close> state the documented behaviour the code relies on.
\<close>

unbundle bit_operations_syntax

datatype rbe_error =
    InvalidDigest string
  | InvalidStateTransition string string
  | Io string

record digest_info =
  hash :: bytes
  dsize :: int

section \<open>Timestamps\<close>

text \<open>
  An \<open>AtomicInstant\<close> is the number of milliseconds since the process-wide origin; the
  current time is the argument \<open>now\<close>. Subtraction on \<open>nat\<close> saturates at zero like
  \<open>saturating_sub\<close>.
\<close>

definition elapsed_millis :: "millis \<Rightarrow> millis \<Rightarrow> millis" where
  "elapsed_millis now stored = now - stored"

section \<open>Parsing and printing\<close>

text \<open>A byte rendered \<open>as char\<close>: a code point below 256, in UTF-8.\<close>

definition latin1 :: "char \<Rightarrow> string" where
  "latin1 c = (let k = of_char c :: nat in
     if k < 128 then [c] else [char_of (192 + k div 64), char_of (128 + k mod 64)])"

definition hex_value :: "char \<Rightarrow> u8 option" where
  "hex_value c =
     (let k = of_char c :: nat in
      if 48 \<le> k \<and> k \<le> 57 then Some (of_nat (k - 48))
      else if 97 \<le> k \<and> k \<le> 102 then Some (of_nat (k - 97 + 10))
      else if 65 \<le> k \<and> k \<le> 70 then Some (of_nat (k - 65 + 10))
      else None)"

definition nibble :: "string \<Rightarrow> nat \<Rightarrow> rbe_error + u8" where
  "nibble s position =
     (case hex_value (s ! position) of
        Some v \<Rightarrow> Inr v
      | None \<Rightarrow> Inl (InvalidDigest (''invalid hex character '' @ [CHR 0x27]
          @ latin1 (s ! position) @ [CHR 0x27] @ '' at position '' @ show_nat position)))"

fun parse_pairs :: "string \<Rightarrow> nat list \<Rightarrow> rbe_error + bytes" where
  "parse_pairs s [] = Inr []"
| "parse_pairs s (i # is) =
     (case nibble s (i * 2) of
        Inl e \<Rightarrow> Inl e
      | Inr hi \<Rightarrow>
          (case nibble s (i * 2 + 1) of
             Inl e \<Rightarrow> Inl e
           | Inr lo \<Rightarrow>
               (case parse_pairs s is of
                  Inl e \<Rightarrow> Inl e
                | Inr bs \<Rightarrow> Inr ((push_bit 4 hi OR lo) # bs))))"

definition parse_sha256 :: "string \<Rightarrow> rbe_error + bytes" where
  "parse_sha256 s =
     (if length s \<noteq> 64
      then Inl (InvalidDigest (''expected 64 hex characters, got '' @ show_nat (length s)))
      else parse_pairs s [0..<32])"

definition digest_new :: "string \<Rightarrow> int \<Rightarrow> rbe_error + digest_info" where
  "digest_new hash_str sz =
     (case parse_sha256 hash_str of
        Inl e \<Rightarrow> Inl e
      | Inr h \<Rightarrow> Inr \<lparr>hash = h, dsize = sz\<rparr>)"

text \<open>\<open>data.len() as i64\<close>: the length of a slice is at most \<open>isize::MAX\<close>, so the cast is exact.\<close>

definition from_bytes :: "(bytes \<Rightarrow> bytes) \<Rightarrow> bytes \<Rightarrow> digest_info" where
  "from_bytes sha256 data = \<lparr>hash = sha256 data, dsize = int (length data)\<rparr>"

definition hash_to_string :: "(bytes \<Rightarrow> string) \<Rightarrow> digest_info \<Rightarrow> string" where
  "hash_to_string hex_encode d = hex_encode (hash d)"

definition digest_debug :: "(bytes \<Rightarrow> string) \<Rightarrow> digest_info \<Rightarrow> string" where
  "digest_debug hex_encode d = ''DigestInfo('' @ take 16 (hash_to_string hex_encode d) @ ''...)''"

definition digest_display :: "(bytes \<Rightarrow> string) \<Rightarrow> digest_info \<Rightarrow> string" where
  "digest_display hex_encode d = hash_to_string hex_encode d @ ''-'' @ show_int (dsize d)"

section \<open>What the packages promise\<close>

definition hex_char :: "u8 \<Rightarrow> char" where
  "hex_char n = (if n < 10 then char_of (48 + unat n) else char_of (87 + unat n))"

definition byte_hex :: "u8 \<Rightarrow> string" where
  "byte_hex b = [hex_char (drop_bit 4 b), hex_char (b AND 15)]"

definition lower_hex :: "bytes \<Rightarrow> string" where
  "lower_hex bs = concat (map byte_hex bs)"

text \<open>\<open>hex::encode\<close> renders each byte as two lower-case hex digits, high half first.\<close>

definition lower_hex_codec :: "(bytes \<Rightarrow> string) \<Rightarrow> bool" where
  "lower_hex_codec hex_encode \<longleftrightarrow> (\<forall>bs. hex_encode bs = lower_hex bs)"

text \<open>A SHA-256 has 32 bytes.\<close>

definition sha256_width :: "(bytes \<Rightarrow> bytes) \<Rightarrow> bool" where
  "sha256_width sha256 \<longleftrightarrow> (\<forall>data. length (sha256 data) = 32)"

definition digest_wf :: "digest_info \<Rightarrow> bool" where
  "digest_wf d \<longleftrightarrow> length (hash d) = 32 \<and> - (2 ^ 63) \<le> dsize d \<and> dsize d < 2 ^ 63"

definition is_hex_char :: "char \<Rightarrow> bool" where
  "is_hex_char c = (let k = of_char c :: nat in
     48 \<le> k \<and> k \<le> 57 \<or> 97 \<le> k \<and> k \<le> 102 \<or> 65 \<le> k \<and> k \<le> 70)"

definition ascii_lower :: "char \<Rightarrow> char" where
  "ascii_lower c = (let k = of_char c :: nat in if 65 \<le> k \<and> k \<le> 90 then char_of (k + 32) else c)"

section \<open>The text form of a digest\<close>

lemma hex_value_hex_char: "unat n < 16 \<Longrightarrow> hex_value (hex_char n) = Some n"
  by (cases "unat n < 10")
    (auto simp: hex_char_def hex_value_def Let_def word_less_nat_alt)

lemma is_hex_char_iff: "is_hex_char c \<longleftrightarrow> hex_value c \<noteq> None"
  by (simp add: is_hex_char_def hex_value_def Let_def)

lemma unat_of_small: "k < 256 \<Longrightarrow> unat (of_nat k :: u8) = k"
  by (simp add: unat_of_nat)

lemma hex_value_SomeD:
  assumes "hex_value c = Some v"
  shows "unat v < 16 \<and> hex_char v = ascii_lower c"
proof -
  let ?k = "of_char c :: nat"
  have same: "char_of ?k = c" by simp
  have ten: "v < 10 \<longleftrightarrow> unat v < 10" by (simp add: word_less_nat_alt)
  have small: "?k - m < 256" for m by (rule less_imp_diff_less) simp
  from assms consider (dec) "48 \<le> ?k \<and> ?k \<le> 57 \<and> v = of_nat (?k - 48)"
    | (low) "97 \<le> ?k \<and> ?k \<le> 102 \<and> v = of_nat (?k - 87)"
    | (up) "65 \<le> ?k \<and> ?k \<le> 70 \<and> v = of_nat (?k - 55)"
    by (auto simp: hex_value_def Let_def split: if_splits)
  then show ?thesis
  proof cases
    case dec
    then have "unat v = ?k - 48" "48 \<le> ?k" "?k \<le> 57" by (simp_all only: unat_of_small [OF small])
    with same show ?thesis
      by (auto simp add: hex_char_def ascii_lower_def Let_def ten)
  next
    case low
    then have "unat v = ?k - 87" "97 \<le> ?k" "?k \<le> 102" by (simp_all only: unat_of_small [OF small])
    with same show ?thesis
      by (auto simp add: hex_char_def ascii_lower_def Let_def ten)
  next
    case up
    then have "unat v = ?k - 55" "65 \<le> ?k" "?k \<le> 70" by (simp_all only: unat_of_small [OF small])
    then show ?thesis
      by (auto simp add: hex_char_def ascii_lower_def Let_def ten add.commute)
  qed
qed

lemma and_15: "(b :: u8) AND 15 = take_bit 4 b"
  by (simp add: take_bit_eq_mask mask_eq_exp_minus_1)

lemma nibbles_join: "push_bit 4 (drop_bit 4 b) OR (b AND 15) = (b :: u8)"
  unfolding and_15 by (rule bit_eqI) (auto simp: bit_simps)

lemma high_nibble_less: "unat (drop_bit 4 (b :: u8)) < 16"
proof -
  have "unat b < 16 * 16" using unsigned_less [of b, where 'a = nat] by simp
  then show ?thesis by (simp add: drop_bit_eq_div unat_div less_mult_imp_div_less)
qed

lemma low_nibble_less: "unat (b AND 15 :: u8) < 16"
  unfolding and_15 by (simp add: take_bit_eq_mod unat_mod)

lemma less_16_iff: "unat (n :: u8) < 16 \<longleftrightarrow> take_bit 4 n = n"
  by (simp add: word_unat_eq_iff unsigned_take_bit_eq take_bit_nat_eq_self_iff)

lemma nibbles_recover:
  assumes "unat (hi :: u8) < 16" "unat (lo :: u8) < 16"
  shows "drop_bit 4 (push_bit 4 hi OR lo) = hi \<and> (push_bit 4 hi OR lo) AND 15 = lo"
proof -
  from assms have h: "take_bit 4 hi = hi" "take_bit 4 lo = lo" by (simp_all add: less_16_iff)
  then have "4 \<le> n \<Longrightarrow> \<not> bit hi n" "4 \<le> n \<Longrightarrow> \<not> bit lo n" for n by (metis bit_take_bit_iff not_le)+
  then have out: "\<not> bit hi (4 + n)" "\<not> bit lo (4 + n)" for n by simp_all
  have "drop_bit 4 (push_bit 4 hi OR lo) = hi"
    by (rule bit_eqI, rename_tac n, case_tac "n < 4") (simp_all add: bit_simps out, metis le_add_diff_inverse not_le out(1))
  moreover have "take_bit 4 (push_bit 4 hi OR lo) = lo"
    by (rule bit_eqI, rename_tac n, case_tac "n < 4") (simp_all add: bit_simps, metis le_add_diff_inverse not_le out(2))
  ultimately show ?thesis unfolding and_15 by simp
qed
lemma nibbles_split:
  "unat hi < 16 \<Longrightarrow> unat lo < 16 \<Longrightarrow> byte_hex (push_bit 4 hi OR lo) = [hex_char hi, hex_char lo]"
  by (simp only: byte_hex_def nibbles_recover simp_thms)

lemma lower_hex_simps [simp]:
  "lower_hex [] = []" "lower_hex (b # bs) = byte_hex b @ lower_hex bs"
  by (simp_all add: lower_hex_def)

lemma length_byte_hex [simp]: "length (byte_hex b) = 2"
  by (simp add: byte_hex_def)

lemma length_lower_hex [simp]: "length (lower_hex bs) = 2 * length bs"
  by (induction bs) auto

lemma lower_hex_nth:
  "i < length bs \<Longrightarrow> lower_hex bs ! (i * 2) = hex_char (drop_bit 4 (bs ! i))
     \<and> lower_hex bs ! (i * 2 + 1) = hex_char ((bs ! i) AND 15)"
proof (induction bs arbitrary: i)
  case (Cons b bs)
  then show ?case by (cases i) (auto simp: byte_hex_def)
qed simp

lemma parse_pairs_Inr_iff:
  "parse_pairs s is = Inr bs \<longleftrightarrow>
     (\<forall>i \<in> set is. hex_value (s ! (i * 2)) \<noteq> None \<and> hex_value (s ! (i * 2 + 1)) \<noteq> None) \<and>
     bs = map (\<lambda>i. push_bit 4 (the (hex_value (s ! (i * 2)))) OR the (hex_value (s ! (i * 2 + 1)))) is"
proof (induction "is" arbitrary: bs)
  case (Cons i "is")
  then show ?case
    by (cases "hex_value (s ! (i * 2))"; cases "hex_value (s ! (i * 2 + 1))"; cases "parse_pairs s is")
      (simp_all add: nibble_def, metis+)
qed auto

lemma parse_pairs_lower_hex: "parse_pairs (lower_hex bs) [0..<length bs] = Inr bs"
  using lower_hex_nth [of _ bs] high_nibble_less low_nibble_less
  by (auto simp: parse_pairs_Inr_iff hex_value_hex_char nibbles_join intro!: nth_equalityI)

lemma parse_lower_hex: "length bs = 32 \<Longrightarrow> parse_sha256 (lower_hex bs) = Inr bs"
  using parse_pairs_lower_hex [of bs] by (simp add: parse_sha256_def del: upt_rec_numeral)

lemma even_odd_index:
  "(\<forall>j < 2 * n. P j) \<longleftrightarrow> (\<forall>i < n. P (i * 2) \<and> P (i * 2 + (1 :: nat)))"
proof -
  have "P j" if ok: "\<forall>i < n. P (i * 2) \<and> P (i * 2 + 1)" and j: "j < 2 * n" for j
  proof -
    from j have "j div 2 < n" by linarith
    moreover have "j = j div 2 * 2 \<or> j = j div 2 * 2 + 1" by presburger
    ultimately show "P j" using ok by metis
  qed
  moreover have "P (i * 2) \<and> P (i * 2 + 1)" if "\<forall>j < 2 * n. P j" "i < n" for i
    using that(1) [rule_format, of "i * 2"] that(1) [rule_format, of "i * 2 + 1"] that(2)
    by simp
  ultimately show ?thesis by blast
qed

lemma parse_pairs_all:
  "length s = 2 * n \<Longrightarrow> (\<exists>h. parse_pairs s [0..<n] = Inr h) \<longleftrightarrow> list_all is_hex_char s"
  using even_odd_index [of n "\<lambda>j. hex_value (s ! j) \<noteq> None"]
  by (auto simp: parse_pairs_Inr_iff list_all_length is_hex_char_iff)

lemma parse_sha256_Inr_iff:
  "(\<exists>h. parse_sha256 s = Inr h) \<longleftrightarrow> length s = 64 \<and> list_all is_hex_char s"
  using parse_pairs_all [of s 32] by (auto simp: parse_sha256_def simp del: upt_rec_numeral)

lemma parse_pairs_print:
  assumes "parse_pairs s [0..<n] = Inr h" and "i < n"
  shows "lower_hex h ! (i * 2) = ascii_lower (s ! (i * 2))
      \<and> lower_hex h ! (i * 2 + 1) = ascii_lower (s ! (i * 2 + 1))"
proof -
  from assms(1) have h: "length h = n"
    "\<forall>i < n. h ! i = push_bit 4 (the (hex_value (s ! (i * 2)))) OR the (hex_value (s ! (i * 2 + 1)))"
    and ok: "\<forall>i < n. hex_value (s ! (i * 2)) \<noteq> None \<and> hex_value (s ! (i * 2 + 1)) \<noteq> None"
    by (auto simp: parse_pairs_Inr_iff)
  from ok assms(2) obtain hi lo where v: "hex_value (s ! (i * 2)) = Some hi"
    "hex_value (s ! (i * 2 + 1)) = Some lo" by fastforce
  with h assms(2) have "h ! i = push_bit 4 hi OR lo" by simp
  then show ?thesis
    using hex_value_SomeD [OF v(1)] hex_value_SomeD [OF v(2)]
      nibbles_split [of hi lo] lower_hex_nth [of i h] h(1) assms(2)
    by (simp add: byte_hex_def)
qed

lemma parse_sha256_print:
  assumes "parse_sha256 s = Inr h"
  shows "length h = 32 \<and> lower_hex h = map ascii_lower s"
proof -
  from assms have len: "length s = 64" and p: "parse_pairs s [0..<32] = Inr h"
    by (auto simp: parse_sha256_def simp del: upt_rec_numeral split: if_splits)
  then have h: "length h = 32"
    by (simp add: parse_pairs_Inr_iff del: upt_rec_numeral)
  have "\<forall>j < 2 * 32. lower_hex h ! j = ascii_lower (s ! j)"
    using parse_pairs_print [OF p] by (simp only: even_odd_index) blast
  then show ?thesis using len h by (auto intro!: nth_equalityI)
qed

text \<open>
  The text form of a digest round-trips. Printing a well-formed digest and parsing the
  result gives the digest back, whatever its hash and size.
\<close>

theorem digest_text_roundtrip:
  assumes "lower_hex_codec hex_encode" and "digest_wf d"
  shows "digest_new (hash_to_string hex_encode d) (dsize d) = Inr d"
  using assms by (simp add: digest_new_def hash_to_string_def lower_hex_codec_def digest_wf_def
      parse_lower_hex)

theorem digest_text_roundtrip_witness:
  "digest_new (hash_to_string lower_hex \<lparr>hash = replicate 32 171, dsize = 7\<rparr>) 7
     = Inr \<lparr>hash = replicate 32 171, dsize = 7\<rparr>"
  using digest_text_roundtrip [of lower_hex "\<lparr>hash = replicate 32 171, dsize = 7\<rparr>"]
  by (simp add: lower_hex_codec_def digest_wf_def)

text \<open>
  Parsing accepts exactly the strings of 64 hex characters of either case.
\<close>

theorem digest_parse_accepts:
  "(\<exists>d. digest_new s n = Inr d) \<longleftrightarrow> length s = 64 \<and> list_all is_hex_char s"
  using parse_sha256_Inr_iff [of s] by (auto simp: digest_new_def split: sum.splits)

end
