(* ===== verification/Execution_State.thy ===== *)
theory Execution_State
  imports Digest "HOL-Library.Sublist" "HOL-Library.Multiset"
begin

text \<open>
  \<open>execution/state_machine.rs\<close>: the stages of an operation, its state machine and the
  registry of machines. A method of a machine takes the machine and, where it reads the clock,
  the current time, and returns the changed machine. \<open>transition_to\<close> gives up the lock of the
  stage before it raises the terminal flag, refreshes the heartbeat and appends to the history:
  \<open>commit_stage\<close>, \<open>raise_terminal\<close>, \<open>heartbeat\<close> and \<open>record_stage\<close> are its steps, between which other
  calls may run, and the function \<open>transition_to\<close> is a call without such interleaving.
  An \<open>Arc\<close> of a machine is its operation id: \<open>heap\<close> holds the machines by address and
  \<open>machines\<close> lists the addresses the registry holds, so a machine the registry dropped is
  still there for the other holders of its \<open>Arc\<close>.
\<close>

section \<open>Stages\<close>

datatype execution_stage =
  Unknown | CacheCheck | Queued | Assigned | Downloading | Executing | Uploading | Completed | Failed

fun as_str :: "execution_stage \<Rightarrow> string" where
  "as_str Unknown = ''Unknown''"
| "as_str CacheCheck = ''CacheCheck''"
| "as_str Queued = ''Queued''"
| "as_str Assigned = ''Assigned''"
| "as_str Downloading = ''Downloading''"
| "as_str Executing = ''Executing''"
| "as_str Uploading = ''Uploading''"
| "as_str Completed = ''Completed''"
| "as_str Failed = ''Failed''"

fun can_transition_to :: "execution_stage \<Rightarrow> execution_stage \<Rightarrow> bool" where
  "can_transition_to Unknown next = (next \<in> {CacheCheck, Failed})"
| "can_transition_to CacheCheck next = (next \<in> {Queued, Completed, Failed})"
| "can_transition_to Queued next = (next \<in> {Assigned, Failed})"
| "can_transition_to Assigned next = (next \<in> {Queued, Downloading, Completed, Failed})"
| "can_transition_to Downloading next = (next \<in> {Queued, Executing, Completed, Failed})"
| "can_transition_to Executing next = (next \<in> {Queued, Uploading, Completed, Failed})"
| "can_transition_to Uploading next = (next \<in> {Queued, Completed, Failed})"
| "can_transition_to Completed next = False"
| "can_transition_to Failed next = False"

fun to_reapi_stage :: "execution_stage \<Rightarrow> int" where
  "to_reapi_stage Unknown = 0"
| "to_reapi_stage CacheCheck = 1"
| "to_reapi_stage Queued = 2"
| "to_reapi_stage Assigned = 3"
| "to_reapi_stage Downloading = 3"
| "to_reapi_stage Executing = 3"
| "to_reapi_stage Uploading = 3"
| "to_reapi_stage Completed = 4"
| "to_reapi_stage Failed = 4"

fun to_reapi_stage_name :: "execution_stage \<Rightarrow> string" where
  "to_reapi_stage_name Unknown = ''UNKNOWN''"
| "to_reapi_stage_name CacheCheck = ''CACHE_CHECK''"
| "to_reapi_stage_name Queued = ''QUEUED''"
| "to_reapi_stage_name Assigned = ''EXECUTING''"
| "to_reapi_stage_name Downloading = ''EXECUTING''"
| "to_reapi_stage_name Executing = ''EXECUTING''"
| "to_reapi_stage_name Uploading = ''EXECUTING''"
| "to_reapi_stage_name Completed = ''COMPLETED''"
| "to_reapi_stage_name Failed = ''COMPLETED''"

definition terminal_stage :: "execution_stage \<Rightarrow> bool" where
  "terminal_stage st = (st = Completed \<or> st = Failed)"

section \<open>The state machine of an operation\<close>

definition MAX_HISTORY_LEN :: nat where
  "MAX_HISTORY_LEN = 100"

record machine =
  operation_id :: op_id
  action_digest :: digest_info
  sm_state :: execution_stage
  last_heartbeat :: millis
  started_at :: millis
  transition_history :: "(execution_stage \<times> millis) list"
  terminal :: bool
  watchers :: nat
  unwatched_since :: millis

definition display_operation_id :: "op_id \<Rightarrow> string" where
  "display_operation_id n = ''op-'' @ show_nat n"

definition machine_new :: "millis \<Rightarrow> op_id \<Rightarrow> digest_info \<Rightarrow> machine" where
  "machine_new now op d =
     \<lparr>operation_id = op, action_digest = d, sm_state = CacheCheck, last_heartbeat = now,
      started_at = now, transition_history = [(CacheCheck, now)], terminal = False,
      watchers = 0, unwatched_since = now\<rparr>"

definition heartbeat :: "millis \<Rightarrow> machine \<Rightarrow> machine" where
  "heartbeat now m = m\<lparr>last_heartbeat := now\<rparr>"

definition commit_stage :: "execution_stage \<Rightarrow> machine \<Rightarrow> rbe_error + machine" where
  "commit_stage new_state m =
     (if \<not> can_transition_to (sm_state m) new_state
      then Inl (InvalidStateTransition (as_str (sm_state m)) (as_str new_state))
      else Inr (m\<lparr>sm_state := new_state\<rparr>))"

definition raise_terminal :: "execution_stage \<Rightarrow> machine \<Rightarrow> machine" where
  "raise_terminal new_state m = (if terminal_stage new_state then m\<lparr>terminal := True\<rparr> else m)"

definition record_stage :: "millis \<Rightarrow> execution_stage \<Rightarrow> machine \<Rightarrow> machine" where
  "record_stage now new_state m =
     m\<lparr>transition_history := push_capped MAX_HISTORY_LEN (transition_history m) (new_state, now)\<rparr>"

definition transition_to :: "millis \<Rightarrow> execution_stage \<Rightarrow> machine \<Rightarrow> rbe_error + machine" where
  "transition_to now new_state m =
     (case commit_stage new_state m of
        Inl e \<Rightarrow> Inl e
      | Inr m1 \<Rightarrow> Inr (record_stage now new_state (heartbeat now (raise_terminal new_state m1))))"

text \<open>\<open>watchers\<close> is an \<open>AtomicUsize\<close>: both operations wrap at \<open>2 ^ 64\<close>.\<close>

definition watch :: "machine \<Rightarrow> machine" where
  "watch m = m\<lparr>watchers := (watchers m + 1) mod 2 ^ 64\<rparr>"

definition drop_watch :: "millis \<Rightarrow> machine \<Rightarrow> machine" where
  "drop_watch now m =
     (let old = watchers m;
          m1 = m\<lparr>watchers := (if old = 0 then 2 ^ 64 - 1 else old - 1)\<rparr>
      in if old = 1 then m1\<lparr>unwatched_since := now\<rparr> else m1)"

definition unwatched_for :: "millis \<Rightarrow> millis \<Rightarrow> machine \<Rightarrow> bool" where
  "unwatched_for now grace m =
     (watchers m = 0 \<and> elapsed_millis now (unwatched_since m) > grace)"

definition is_terminal :: "machine \<Rightarrow> bool" where
  "is_terminal m = terminal_stage (sm_state m)"

definition machine_elapsed :: "millis \<Rightarrow> machine \<Rightarrow> millis" where
  "machine_elapsed now m = now - started_at m"

text \<open>\<open>let _ = machine.transition_to(..)\<close>: a refused transition leaves the machine alone.\<close>

definition attempt :: "millis \<Rightarrow> execution_stage \<Rightarrow> machine \<Rightarrow> machine" where
  "attempt now st m = (case transition_to now st m of Inl e \<Rightarrow> m | Inr m' \<Rightarrow> m')"

section \<open>The registry of machines\<close>

record machine_manager =
  machines :: "op_id list"
  heap :: "op_id \<Rightarrow> machine"

definition create_machine_with_id ::
  "millis \<Rightarrow> op_id \<Rightarrow> digest_info \<Rightarrow> machine_manager \<Rightarrow> machine_manager" where
  "create_machine_with_id now op d mgr =
     mgr\<lparr>heap := (heap mgr)(op := machine_new now op d),
         machines := (if op \<in> set (machines mgr) then machines mgr else machines mgr @ [op])\<rparr>"

definition get_machine :: "op_id \<Rightarrow> machine_manager \<Rightarrow> op_id option" where
  "get_machine op mgr = (if op \<in> set (machines mgr) then Some op else None)"

definition remove_machine :: "op_id \<Rightarrow> machine_manager \<Rightarrow> machine_manager" where
  "remove_machine op mgr = mgr\<lparr>machines := filter (\<lambda>x. x \<noteq> op) (machines mgr)\<rparr>"

fun cleanup_candidates :: "op_id list \<Rightarrow> machine_manager \<Rightarrow> nat \<Rightarrow> nat \<times> machine_manager" where
  "cleanup_candidates [] mgr removed = (removed, mgr)"
| "cleanup_candidates (op # ops) mgr removed =
     (if is_terminal (heap mgr op) then cleanup_candidates ops (remove_machine op mgr) (removed + 1)
      else cleanup_candidates ops mgr removed)"

definition cleanup_finished_machines ::
  "millis \<Rightarrow> millis \<Rightarrow> machine_manager \<Rightarrow> nat \<times> machine_manager" where
  "cleanup_finished_machines now retention_millis mgr =
     (let candidates = filter (\<lambda>op. elapsed_millis now (last_heartbeat (heap mgr op)) \<ge> retention_millis)
                         (machines mgr)
      in cleanup_candidates candidates mgr 0)"

definition active_operations :: "machine_manager \<Rightarrow> op_id list" where
  "active_operations mgr = machines mgr"

section \<open>Stages: what a lifecycle promises\<close>

text \<open>
  A lifecycle is a relation of allowed moves with final stages that nothing leaves.
\<close>

locale lifecycle =
  fixes allowed :: "'st \<Rightarrow> 'st \<Rightarrow> bool"
    and final :: "'st \<Rightarrow> bool"
  assumes final_stuck: "final s \<Longrightarrow> \<not> allowed s t"
begin

lemma final_absorbing: "allowed\<^sup>*\<^sup>* s t \<Longrightarrow> final s \<Longrightarrow> t = s"
  by (induction rule: converse_rtranclp_induct) (auto dest: final_stuck)

lemma final_only_last:
  assumes "successively allowed xs" "i < length xs" "final (xs ! i)"
  shows "i = length xs - 1"
proof (rule ccontr)
  assume "i \<noteq> length xs - 1"
  with assms(2) have "Suc i < length xs" by simp
  with assms(1) have "allowed (xs ! i) (xs ! Suc i)"
    by (simp add: successively_conv_nth)
  with final_stuck [OF assms(3)] show False by simp
qed

end

lemma terminal_stage_stuck [stage_simps]: "terminal_stage s \<Longrightarrow> \<not> can_transition_to s t"
  by (auto simp: terminal_stage_def)

interpretation stage: lifecycle can_transition_to terminal_stage
  by unfold_locales (rule terminal_stage_stuck)

lemma terminal_stage_iff_stuck: "terminal_stage s \<longleftrightarrow> (\<forall>t. \<not> can_transition_to s t)"
  by (cases s) (auto simp: terminal_stage_def)

lemma may_always_fail: "\<not> terminal_stage s \<Longrightarrow> can_transition_to s Failed"
  by (cases s) (auto simp: terminal_stage_def)

section \<open>Machines\<close>

lemma transition_to_eq:
  "transition_to now new_state m =
     (if \<not> can_transition_to (sm_state m) new_state
      then Inl (InvalidStateTransition (as_str (sm_state m)) (as_str new_state))
      else Inr (m\<lparr>sm_state := new_state,
                  terminal := (if terminal_stage new_state then True else terminal m),
                  last_heartbeat := now,
                  transition_history :=
                    push_capped MAX_HISTORY_LEN (transition_history m) (new_state, now)\<rparr>))"
  by (simp add: transition_to_def commit_stage_def raise_terminal_def heartbeat_def record_stage_def)

lemma transition_to_Inr_iff:
  "(\<exists>m'. transition_to now st m = Inr m') \<longleftrightarrow> can_transition_to (sm_state m) st"
  by (simp add: transition_to_eq)

lemma attempt_terminal: "is_terminal m \<Longrightarrow> attempt now st m = m"
  by (simp add: attempt_def transition_to_eq is_terminal_def terminal_stage_stuck)

lemma is_terminal_methods [simp]:
  "is_terminal (heartbeat now m) = is_terminal m" "is_terminal (watch m) = is_terminal m"
  "is_terminal (drop_watch now m) = is_terminal m"
  by (simp_all add: is_terminal_def heartbeat_def watch_def drop_watch_def Let_def)

text \<open>Where a call of \<open>transition_to\<close> that has changed the stage stands.\<close>

datatype call_point = AtSignal execution_stage | AtBeat execution_stage | AtRecord execution_stage

fun call_stage :: "call_point \<Rightarrow> execution_stage" where
  "call_stage (AtSignal st) = st" | "call_stage (AtBeat st) = st" | "call_stage (AtRecord st) = st"

text \<open>
  The runs of a machine: its calls interleave at every step, and the clock does not go back. A run
  comes with the calls under way, the stages taken so far, and whether each call that changed the
  stage did so after the one before it had ended. A refused call changes nothing.
\<close>

inductive machine_run ::
  "millis \<Rightarrow> machine \<Rightarrow> call_point list \<Rightarrow> execution_stage list \<Rightarrow> bool \<Rightarrow> bool" where
  run_start: "machine_run now (machine_new now op d) [] [CacheCheck] True"
| run_commit: "machine_run t m cs p serial \<Longrightarrow> t \<le> now \<Longrightarrow> commit_stage st m = Inr m' \<Longrightarrow>
    machine_run now m' (cs @ [AtSignal st]) (p @ [st]) (serial \<and> cs = [])"
| run_signal: "machine_run t m (xs @ AtSignal st # ys) p serial \<Longrightarrow> t \<le> now \<Longrightarrow>
    machine_run now (raise_terminal st m) (xs @ AtBeat st # ys) p serial"
| run_beat: "machine_run t m (xs @ AtBeat st # ys) p serial \<Longrightarrow> t \<le> now \<Longrightarrow>
    machine_run now (heartbeat now m) (xs @ AtRecord st # ys) p serial"
| run_record: "machine_run t m (xs @ AtRecord st # ys) p serial \<Longrightarrow> t \<le> now \<Longrightarrow>
    machine_run now (record_stage now st m) (xs @ ys) p serial"
| run_heartbeat: "machine_run t m cs p serial \<Longrightarrow> t \<le> now \<Longrightarrow> machine_run now (heartbeat now m) cs p serial"
| run_watch: "machine_run t m cs p serial \<Longrightarrow> machine_run t (watch m) cs p serial"
| run_unwatch: "machine_run t m cs p serial \<Longrightarrow> t \<le> now \<Longrightarrow> machine_run now (drop_watch now m) cs p serial"

lemma run_transition:
  assumes "machine_run t m [] p serial" "t \<le> now" "transition_to now st m = Inr m'"
  shows "machine_run now m' [] (p @ [st]) serial"
proof -
  obtain m1 where m1: "commit_stage st m = Inr m1"
    and m': "m' = record_stage now st (heartbeat now (raise_terminal st m1))"
    using assms(3) by (auto simp: transition_to_def split: sum.splits)
  have "machine_run now m1 ([] @ AtSignal st # []) (p @ [st]) serial"
    using run_commit [OF assms(1,2) m1] by simp
  from run_record [OF run_beat [OF run_signal [OF this order.refl] order.refl] order.refl]
  show ?thesis by (simp add: m')
qed

text \<open>What the stages taken, the history and the stages \<open>ss\<close> still to be recorded have in common.\<close>

definition run_hist ::
  "millis \<Rightarrow> execution_stage \<Rightarrow> (execution_stage \<times> millis) list \<Rightarrow> execution_stage list \<Rightarrow>
   execution_stage list \<Rightarrow> bool \<Rightarrow> bool" where
  "run_hist t st h ss p serial \<longleftrightarrow>
     p \<noteq> [] \<and> hd p = CacheCheck \<and> successively can_transition_to p \<and> last p = st \<and>
     h \<noteq> [] \<and> length h \<le> MAX_HISTORY_LEN \<and> sorted (map snd h) \<and> (\<forall>x \<in> set h. snd x \<le> t) \<and>
     mset (map fst h) + mset ss \<subseteq># mset p \<and>
     (length p \<le> MAX_HISTORY_LEN \<longrightarrow> mset (map fst h) + mset ss = mset p) \<and>
     (serial \<longrightarrow> length ss \<le> 1 \<and> suffix (map fst h @ ss) p)"

definition run_flags :: "machine \<Rightarrow> call_point list \<Rightarrow> bool" where
  "run_flags m cs \<longleftrightarrow>
     (terminal m \<longrightarrow> is_terminal m) \<and> (\<forall>c \<in> set cs. terminal_stage (call_stage c) \<longrightarrow> is_terminal m) \<and>
     (is_terminal m \<longrightarrow> terminal m \<or> (\<exists>st. AtSignal st \<in> set cs \<and> terminal_stage st))"

definition run_inv :: "millis \<Rightarrow> machine \<Rightarrow> call_point list \<Rightarrow> execution_stage list \<Rightarrow> bool \<Rightarrow> bool" where
  "run_inv t m cs p serial \<longleftrightarrow>
     run_hist t (sm_state m) (transition_history m) (map call_stage cs) p serial \<and> run_flags m cs"

lemma run_hist_later: "run_hist t st h ss p serial \<Longrightarrow> t \<le> now \<Longrightarrow> run_hist now st h ss p serial"
  unfolding run_hist_def using order.trans by blast

lemma push_capped_drop: "\<exists>k. push_capped cap xs x = drop k (xs @ [x]) \<and> (Suc (length xs) \<le> cap \<longrightarrow> k = 0)"
  by (intro exI [of _ "Suc (length xs) - cap"]) (auto simp: push_capped_def Let_def simp del: drop_append)

lemma run_hist_commit:
  assumes h: "run_hist t st h ss p serial" and st: "can_transition_to st st'" and now: "t \<le> now"
  shows "run_hist now st' h (ss @ [st']) (p @ [st']) (serial \<and> ss = [])"
proof -
  have "successively can_transition_to (p @ [st'])"
    using h st by (auto simp: run_hist_def successively_append_iff)
  moreover have "suffix (map fst h @ [st']) (p @ [st'])" if "serial" "ss = []"
    using h that by (simp add: run_hist_def)
  ultimately show ?thesis using h now unfolding run_hist_def by auto
qed

lemma run_inv_commit:
  assumes inv: "run_inv t m cs p serial" and now: "t \<le> now" and c: "commit_stage st m = Inr m'"
  shows "run_inv now m' (cs @ [AtSignal st]) (p @ [st]) (serial \<and> cs = [])"
proof -
  have st: "can_transition_to (sm_state m) st" and m': "m' = m\<lparr>sm_state := st\<rparr>"
    using c by (auto simp: commit_stage_def split: if_splits)
  have nt: "\<not> is_terminal m" using st terminal_stage_stuck by (auto simp: is_terminal_def)
  have "run_hist now st (transition_history m) (map call_stage (cs @ [AtSignal st])) (p @ [st]) (serial \<and> cs = [])"
    using run_hist_commit [OF conjunct1 [OF inv [unfolded run_inv_def]] st now] by simp
  moreover have "run_flags m' (cs @ [AtSignal st])"
    using inv nt by (auto simp: run_inv_def run_flags_def m' is_terminal_def)
  ultimately show ?thesis by (simp add: run_inv_def m')
qed

lemma mset_drop_le: "mset (drop k ys) \<subseteq># mset ys"
proof -
  have "mset ys = mset (take k ys) + mset (drop k ys)" by (metis append_take_drop_id mset_append)
  then show ?thesis by simp
qed

lemma run_hist_record:
  assumes h: "run_hist t st0 h (xs @ st # ys) p serial" and now: "t \<le> now"
  shows "run_hist now st0 (push_capped MAX_HISTORY_LEN h (st, now)) (xs @ ys) p serial"
proof -
  let ?h = "h @ [(st, now)]" and ?g = "push_capped MAX_HISTORY_LEN h (st, now)"
  obtain k where k: "?g = drop k ?h" "Suc (length h) \<le> MAX_HISTORY_LEN \<longrightarrow> k = 0"
    using push_capped_drop [of MAX_HISTORY_LEN h "(st, now)"] by (elim exE conjE)
  have srt: "sorted (map snd ?h)" "\<forall>x \<in> set ?h. snd x \<le> now"
    using h now by (auto simp: run_hist_def sorted_append)
  have ms: "mset (map fst h) + mset (xs @ st # ys) = mset (map fst ?h) + mset (xs @ ys)" by simp
  have "mset (map fst ?g) + mset (xs @ ys) \<subseteq># mset (map fst ?h) + mset (xs @ ys)"
    unfolding k(1) drop_map [symmetric] by (rule subset_mset.add_right_mono [OF mset_drop_le])
  moreover have "mset (map fst ?h) + mset (xs @ ys) \<subseteq># mset p"
    unfolding ms [symmetric] using h by (simp only: run_hist_def)
  ultimately have sub: "mset (map fst ?g) + mset (xs @ ys) \<subseteq># mset p" by (rule subset_mset.order_trans)
  have eq: "mset (map fst ?g) + mset (xs @ ys) = mset p" if "length p \<le> MAX_HISTORY_LEN"
  proof -
    have p: "mset (map fst ?h) + mset (xs @ ys) = mset p"
      unfolding ms [symmetric] using h that by (simp only: run_hist_def)
    have "size (mset p) = length h + 1 + length (xs @ ys)" unfolding p [symmetric] by simp
    then have "k = 0" using k(2) that by simp
    then show ?thesis using p k(1) by simp
  qed
  have suf: "length (xs @ ys) \<le> 1 \<and> suffix (map fst ?g @ xs @ ys) p" if "serial"
  proof -
    have e: "xs = []" "ys = []" "suffix (map fst ?h) p"
      using h that by (auto simp: run_hist_def Suc_le_eq)
    have "suffix (map fst ?g) (map fst ?h)" unfolding k(1) drop_map [symmetric] by (rule suffix_drop)
    from suffix_order.trans [OF this e(3)] show ?thesis by (simp add: e(1,2))
  qed
  have "?g \<noteq> []" "length ?g \<le> MAX_HISTORY_LEN"
    by (simp_all add: push_capped_not_Nil length_push_capped MAX_HISTORY_LEN_def)
  moreover have "sorted (map snd ?g)"
    unfolding k(1) drop_map [symmetric] by (rule sorted_wrt_drop [OF srt(1)])
  moreover have "\<forall>x \<in> set ?g. snd x \<le> now"
    unfolding k(1) using srt(2) set_drop_subset [of k ?h] by fast
  ultimately show ?thesis using h sub eq suf unfolding run_hist_def by blast
qed

lemma run_inv_record:
  assumes "run_inv t m (xs @ AtRecord st # ys) p serial" and "t \<le> now"
  shows "run_inv now (record_stage now st m) (xs @ ys) p serial"
  using assms run_hist_record [of t "sm_state m" "transition_history m" "map call_stage xs" st "map call_stage ys" p serial now]
  by (auto simp: run_inv_def run_flags_def record_stage_def is_terminal_def)

lemma run_inv_signal:
  assumes "run_inv t m (xs @ AtSignal st # ys) p serial" "t \<le> now"
  shows "run_inv now (raise_terminal st m) (xs @ AtBeat st # ys) p serial"
  using assms by (auto simp: run_inv_def run_flags_def raise_terminal_def is_terminal_def intro: run_hist_later)

lemma run_inv_beat:
  assumes "run_inv t m (xs @ AtBeat st # ys) p serial" "t \<le> now"
  shows "run_inv now (heartbeat now m) (xs @ AtRecord st # ys) p serial"
  using assms by (auto simp: run_inv_def run_flags_def heartbeat_def is_terminal_def intro: run_hist_later)

lemma run_inv_quiet:
  assumes "run_inv t m cs p serial" "t \<le> now"
  shows "run_inv now (heartbeat now m) cs p serial" "run_inv t (watch m) cs p serial"
    "run_inv now (drop_watch now m) cs p serial"
  using assms by (auto simp: run_inv_def run_flags_def heartbeat_def watch_def drop_watch_def is_terminal_def Let_def
      intro: run_hist_later)

lemma machine_run_inv: "machine_run t m cs p serial \<Longrightarrow> run_inv t m cs p serial"
proof (induction rule: machine_run.induct)
  case (run_start now op d)
  show ?case by (simp add: run_inv_def run_hist_def run_flags_def machine_new_def MAX_HISTORY_LEN_def is_terminal_def terminal_stage_def)
qed (auto intro: run_inv_commit run_inv_record run_inv_signal run_inv_beat run_inv_quiet)



text \<open>
  A finished operation stays finished. Once a machine is terminal, every further attempted
  transition, in any number and order, leaves the whole machine as it is.
\<close>

theorem terminal_is_final: "is_terminal m \<Longrightarrow> fold (\<lambda>(now, st). attempt now st) xs m = m"
  by (induction xs) (auto simp: attempt_terminal)

theorem terminal_is_final_witness:
  "fold (\<lambda>(now, st). attempt now st) [(3, Queued), (4, Completed)]
     (attempt 2 Failed (machine_new 1 1 \<lparr>hash = [], dsize = 0\<rparr>))
   = attempt 2 Failed (machine_new 1 1 \<lparr>hash = [], dsize = 0\<rparr>)"
  by (rule terminal_is_final)
    (simp add: is_terminal_def terminal_stage_def attempt_def transition_to_eq machine_new_def)

text \<open>
  Clients see the stage go backwards in one case only: an operation handed to a worker
  returns to the queue. Every other allowed transition keeps or raises the REAPI stage, a
  terminal stage is exactly REAPI stage 4, and only a terminal stage admits no transition.
\<close>

theorem reapi_stage_progress:
  "(can_transition_to s t \<longrightarrow>
      to_reapi_stage s \<le> to_reapi_stage t \<or> to_reapi_stage s = 3 \<and> t = Queued) \<and>
   (terminal_stage s \<longleftrightarrow> to_reapi_stage s = 4) \<and>
   (terminal_stage s \<longleftrightarrow> (\<forall>u. \<not> can_transition_to s u))"
  unfolding terminal_stage_iff_stuck [symmetric]
  by (cases s; cases t) (simp_all add: terminal_stage_def)

theorem reapi_stage_progress_witness:
  "to_reapi_stage Uploading \<le> to_reapi_stage Queued \<or> to_reapi_stage Uploading = 3 \<and> Queued = Queued"
  using reapi_stage_progress [of Uploading Queued] by simp

section \<open>The registry\<close>

lemma cleanup_candidates_spec:
  "cleanup_candidates ops mgr n = (k, mgr') \<Longrightarrow> distinct ops \<Longrightarrow>
     heap mgr' = heap mgr \<and>
     machines mgr' = filter (\<lambda>op. \<not> (op \<in> set ops \<and> is_terminal (heap mgr op))) (machines mgr) \<and>
     k = n + length (filter (\<lambda>op. is_terminal (heap mgr op)) ops)"
proof (induction ops arbitrary: mgr n)
  case (Cons op ops)
  show ?case
  proof (cases "is_terminal (heap mgr op)")
    case True
    then show ?thesis
      using Cons.IH [of "remove_machine op mgr" "n + 1"] Cons.prems
      by (auto simp: remove_machine_def intro: filter_cong)
  next
    case False
    then show ?thesis using Cons by (auto intro!: filter_cong)
  qed
qed simp

text \<open>
  Retiring finished machines drops exactly the registered machines that are in a terminal
  stage and were idle for the retention time, reports how many it dropped, and never touches a
  machine whose operation is still in progress, however old.
\<close>

theorem cleanup_finished_exact:
  assumes "distinct (machines mgr)" and "cleanup_finished_machines now retention mgr = (k, mgr')"
  shows "set (machines mgr') = {op \<in> set (machines mgr). \<not> (is_terminal (heap mgr op)
           \<and> retention \<le> now - last_heartbeat (heap mgr op))} \<and>
         k + length (machines mgr') = length (machines mgr) \<and> heap mgr' = heap mgr"
proof -
  let ?old = "\<lambda>op. retention \<le> elapsed_millis now (last_heartbeat (heap mgr op))"
  let ?dead = "\<lambda>op. is_terminal (heap mgr op)"
  have spec: "heap mgr' = heap mgr" "k = length (filter ?dead (filter ?old (machines mgr)))"
    "machines mgr' = filter (\<lambda>op. \<not> (op \<in> set (filter ?old (machines mgr)) \<and> ?dead op)) (machines mgr)"
    using cleanup_candidates_spec [OF assms(2) [unfolded cleanup_finished_machines_def Let_def]] assms(1)
    by simp_all
  have "length (filter (\<lambda>op. op \<in> set (filter ?old (machines mgr)) \<and> ?dead op) (machines mgr)) = k"
    by (simp add: spec(2)) (metis (mono_tags, lifting) filter_cong)
  with spec show ?thesis
    using sum_length_filter_compl [of "\<lambda>op. op \<in> set (filter ?old (machines mgr)) \<and> ?dead op" "machines mgr"]
    by (auto simp: elapsed_millis_def)
qed


theorem cleanup_finished_exact_witness:
  "let mgr = \<lparr>machines = [1, 2], heap = (\<lambda>op. machine_new 1 op \<lparr>hash = [], dsize = 0\<rparr>)\<rparr>;
       r = cleanup_finished_machines 100 5 mgr
   in fst r + length (machines (snd r)) = 2"
proof -
  let ?m = "\<lparr>machines = [1, 2], heap = (\<lambda>op. machine_new 1 op \<lparr>hash = [], dsize = 0\<rparr>)\<rparr>"
  have "distinct (machines ?m)" by simp
  from cleanup_finished_exact [OF this prod.collapse [symmetric], of 100 5] show ?thesis by simp
qed

end
