(* ===== verification/Worker_Registry.thy ===== *)
theory Worker_Registry
  imports Digest
begin

text \<open>
  \<open>worker/k8s.rs\<close>: what the server knows about its workers, the requirements an action puts
  on them, and the messages exchanged with a worker. The registry's \<open>DashMap\<close> is an association
  list; \<open>capacity_permit\<close> is the stored permit of its \<open>Notify\<close>. A worker's stream is the
  number \<open>assignment_tx\<close>; whether a channel takes a message is an argument \<open>try_send\<close>. The
  text of a refused platform property is the constructor of \<open>platform_error\<close> that holds its parts.
\<close>

section \<open>Messages\<close>

datatype network_policy = WorkerDefault | Off | On

datatype platform_error =
    UnsupportedNetwork string
  | UnsupportedIsa string
  | UnsupportedProperty string "string list"
  | UnsupportedPriority string

record work_assignment =
  wa_execution_id :: string
  wa_action_digest :: "string option"
  wa_input_root_digest :: "string option"
  wa_command :: "string list"
  wa_timeout :: millis
  wa_output_files :: "string list"
  wa_output_directories :: "string list"
  wa_working_directory :: "string option"
  wa_environment_variables :: "(string \<times> string) list"
  wa_network :: network_policy

record output_file =
  of_path :: string
  of_digest :: string
  of_size_bytes :: int
  of_is_executable :: bool

record output_directory =
  od_path :: string
  od_digest :: string
  od_size_bytes :: int

record output_symlink =
  os_path :: string
  os_target :: string

record phase_timestamps =
  worker_start_ms :: int
  input_fetch_start_ms :: int
  input_fetch_completed_ms :: int
  execution_start_ms :: int
  execution_completed_ms :: int
  output_upload_start_ms :: int
  output_upload_completed_ms :: int
  worker_completed_ms :: int

record input_group =
  ig_name :: string
  ig_files :: nat
  ig_bytes :: nat

record input_stats =
  is_files :: nat
  is_bytes :: nat
  is_groups :: "input_group list"

record execution_result =
  er_execution_id :: string
  er_exit_code :: int
  er_stdout :: bytes
  er_stderr :: bytes
  er_stdout_digest :: "digest_info option"
  er_stderr_digest :: "digest_info option"
  er_output_files :: "output_file list"
  er_output_directories :: "output_directory list"
  er_output_symlinks :: "output_symlink list"
  er_execution_duration :: millis
  er_error :: "string option"
  er_timed_out :: bool
  er_worker_id :: string
  er_timestamps :: phase_timestamps
  er_input_stats :: "input_stats option"

section \<open>Platform properties\<close>

definition network_parse :: "string \<Rightarrow> platform_error + network_policy" where
  "network_parse v =
     (if v = ''off'' then Inr Off else if v = ''on'' then Inr On else Inl (UnsupportedNetwork v))"

fun network_loop :: "network_policy \<Rightarrow> (string \<times> string) list \<Rightarrow> platform_error + network_policy" where
  "network_loop policy [] = Inr policy"
| "network_loop policy ((n, v) # ps) =
     (if n = ''Network'' then
        (case network_parse v of Inl e \<Rightarrow> Inl e | Inr p \<Rightarrow> network_loop p ps)
      else network_loop policy ps)"

definition network_from_platform :: "(string \<times> string) list \<Rightarrow> platform_error + network_policy" where
  "network_from_platform ps = network_loop WorkerDefault ps"

record worker_requirements =
  req_worker_type :: "string option"
  req_labels :: "string list"

definition ISA_ARCH_LABELS :: "(string \<times> string) list" where
  "ISA_ARCH_LABELS = [(''arm-a64'', ''arm64''), (''x86-64'', ''amd64'')]"

text \<open>
  One round of the loop of \<open>from_platform_with\<close>: the label a property requires, \<open>Inr None\<close>
  for \<open>continue\<close>, an error for the early return.
\<close>

definition property_label ::
  "string list \<Rightarrow> string \<times> string \<Rightarrow> platform_error + string option" where
  "property_label extra p =
     (case p of (n, v) \<Rightarrow>
        if n = ''OSFamily'' then Inr (Some (''os='' @ v))
        else if n = ''ISA'' then
          (case find (\<lambda>(isa, _). isa = v) ISA_ARCH_LABELS of
             Some (_, arch) \<Rightarrow> Inr (Some (''arch='' @ arch))
           | None \<Rightarrow> Inl (UnsupportedIsa v))
        else if n = ''Pool'' then Inr (Some (''pool='' @ v))
        else if n = ''Priority'' then Inr None
        else if n = ''Network'' then
          (case network_parse v of Inl e \<Rightarrow> Inl e | Inr _ \<Rightarrow> Inr None)
        else if n \<in> set extra then Inr (Some (n @ ''='' @ v))
        else Inl (UnsupportedProperty n
               ([''OSFamily'', ''ISA'', ''Pool'', ''Priority'', ''Network''] @ extra)))"

fun platform_loop ::
  "string list \<Rightarrow> string list \<Rightarrow> (string \<times> string) list \<Rightarrow> platform_error + string list" where
  "platform_loop extra labels [] = Inr labels"
| "platform_loop extra labels (p # ps) =
     (case property_label extra p of
        Inl e \<Rightarrow> Inl e
      | Inr None \<Rightarrow> platform_loop extra labels ps
      | Inr (Some label) \<Rightarrow>
          platform_loop extra (if label \<in> set labels then labels else labels @ [label]) ps)"

definition from_platform_with ::
  "(string \<times> string) list \<Rightarrow> string list \<Rightarrow> platform_error + worker_requirements" where
  "from_platform_with ps extra =
     (case platform_loop extra [] ps of
        Inl e \<Rightarrow> Inl e
      | Inr labels \<Rightarrow> Inr \<lparr>req_worker_type = None, req_labels = labels\<rparr>)"

definition from_platform :: "(string \<times> string) list \<Rightarrow> platform_error + worker_requirements" where
  "from_platform ps = from_platform_with ps []"

section \<open>Workers\<close>

datatype worker_state = Idle | Busy | Unhealthy | Draining

record worker_info =
  worker_id :: string
  worker_type :: string
  labels :: "string list"
  wstate :: worker_state
  capacity :: nat
  running :: "string list"
  worker_heartbeat :: millis
  assignment_tx :: nat

definition accepts_work :: "worker_info \<Rightarrow> bool" where
  "accepts_work w = (wstate w \<noteq> Unhealthy \<and> wstate w \<noteq> Draining)"

definition has_free_slot :: "worker_info \<Rightarrow> bool" where
  "has_free_slot w = (accepts_work w \<and> length (running w) < max (capacity w) 1)"

definition refresh_state :: "worker_info \<Rightarrow> worker_info" where
  "refresh_state w =
     (if accepts_work w then w\<lparr>wstate := (if running w = [] then Idle else Busy)\<rparr> else w)"

definition req_matches :: "worker_requirements \<Rightarrow> worker_info \<Rightarrow> bool" where
  "req_matches r w =
     ((case req_worker_type r of None \<Rightarrow> True | Some t \<Rightarrow> worker_type w = t) \<and>
      list_all (\<lambda>l. l \<in> set (labels w)) (req_labels r))"

section \<open>The registry\<close>

record registry =
  workers :: "(string \<times> worker_info) list"
  capacity_permit :: bool

definition registry_new :: registry where
  "registry_new = \<lparr>workers = [], capacity_permit = False\<rparr>"

definition register :: "worker_info \<Rightarrow> registry \<Rightarrow> registry" where
  "register info r = r\<lparr>workers := AList.update (worker_id info) info (workers r), capacity_permit := True\<rparr>"

definition silent_workers :: "millis \<Rightarrow> millis \<Rightarrow> registry \<Rightarrow> string list" where
  "silent_workers now timeout r =
     map (\<lambda>(_, w). worker_id w) (filter (\<lambda>(_, w). now - worker_heartbeat w > timeout) (workers r))"

definition unregister :: "string \<Rightarrow> registry \<Rightarrow> registry" where
  "unregister wid r = r\<lparr>workers := AList.delete wid (workers r)\<rparr>"

record worker_view =
  v_worker_id :: string
  v_worker_type :: string
  v_labels :: "string list"
  v_state :: string
  v_current_execution :: "string option"
  v_running :: nat
  v_capacity :: nat
  v_heartbeat_age_secs :: nat

fun state_name :: "worker_state \<Rightarrow> string" where
  "state_name Idle = ''idle''"
| "state_name Busy = ''busy''"
| "state_name Unhealthy = ''unhealthy''"
| "state_name Draining = ''draining''"

definition worker_view_of :: "millis \<Rightarrow> worker_info \<Rightarrow> worker_view" where
  "worker_view_of now w =
     \<lparr>v_worker_id = worker_id w, v_worker_type = worker_type w, v_labels = labels w,
      v_state = state_name (wstate w),
      v_current_execution = (case running w of [] \<Rightarrow> None | e # _ \<Rightarrow> Some e),
      v_running = length (running w), v_capacity = capacity w,
      v_heartbeat_age_secs = (now - worker_heartbeat w) div 1000\<rparr>"

definition snapshot :: "millis \<Rightarrow> registry \<Rightarrow> worker_view list" where
  "snapshot now r = sort_key v_worker_id (map (\<lambda>(_, w). worker_view_of now w) (workers r))"

definition select_worker :: "worker_requirements \<Rightarrow> registry \<Rightarrow> (string \<times> nat) option" where
  "select_worker reqs r =
     map_option (\<lambda>(_, w). (worker_id w, assignment_tx w))
       (min_by_key (\<lambda>(_, w). (length (running w), worker_heartbeat w))
          (filter (\<lambda>(_, w). has_free_slot w \<and> req_matches reqs w) (workers r)))"

definition reserve :: "millis \<Rightarrow> string \<Rightarrow> string \<Rightarrow> registry \<Rightarrow> registry" where
  "reserve now wid eid r =
     r\<lparr>workers := alist_modify wid
         (\<lambda>w. refresh_state (w\<lparr>running := running w @ [eid], worker_heartbeat := now\<rparr>)) (workers r)\<rparr>"

definition release :: "millis \<Rightarrow> string \<Rightarrow> string \<Rightarrow> registry \<Rightarrow> registry" where
  "release now wid eid r =
     r\<lparr>workers := alist_modify wid
         (\<lambda>w. refresh_state (w\<lparr>running := filter (\<lambda>i. i \<noteq> eid) (running w), worker_heartbeat := now\<rparr>))
         (workers r),
       capacity_permit := True\<rparr>"

definition mark_unhealthy :: "string \<Rightarrow> registry \<Rightarrow> registry" where
  "mark_unhealthy wid r = r\<lparr>workers := alist_modify wid (\<lambda>w. w\<lparr>wstate := Unhealthy\<rparr>) (workers r)\<rparr>"

definition mark_draining :: "millis \<Rightarrow> string \<Rightarrow> registry \<Rightarrow> registry" where
  "mark_draining now wid r =
     r\<lparr>workers := alist_modify wid (\<lambda>w. w\<lparr>worker_heartbeat := now, wstate := Draining\<rparr>) (workers r)\<rparr>"

definition worker_beat :: "millis \<Rightarrow> bool \<Rightarrow> worker_info \<Rightarrow> worker_info" where
  "worker_beat now healthy w =
     (let w1 = w\<lparr>worker_heartbeat := now\<rparr>
      in if wstate w1 \<noteq> Draining
         then refresh_state (w1\<lparr>wstate := (if healthy then Idle else Unhealthy)\<rparr>)
         else w1)"

definition registry_heartbeat :: "millis \<Rightarrow> string \<Rightarrow> bool \<Rightarrow> registry \<Rightarrow> bool \<times> registry" where
  "registry_heartbeat now wid healthy r =
     (if map_of (workers r) wid = None then (False, r)
      else (True, r\<lparr>workers := alist_modify wid (worker_beat now healthy) (workers r),
                    capacity_permit := True\<rparr>))"

definition registry_contains :: "string \<Rightarrow> registry \<Rightarrow> bool" where
  "registry_contains wid r = (map_of (workers r) wid \<noteq> None)"

definition send_assignment_to_worker ::
  "(nat \<Rightarrow> work_assignment \<Rightarrow> string + unit) \<Rightarrow> string \<Rightarrow> work_assignment \<Rightarrow> registry \<Rightarrow> string + unit" where
  "send_assignment_to_worker try_send wid a r =
     (case map_of (workers r) wid of
        Some w \<Rightarrow> (case try_send (assignment_tx w) a of
                     Inl e \<Rightarrow> Inl (''Failed to send assignment: '' @ e)
                   | Inr u \<Rightarrow> Inr u)
      | None \<Rightarrow> Inl (''Worker '' @ wid @ '' not found''))"

definition list_workers :: "registry \<Rightarrow> worker_info list" where
  "list_workers r = map snd (workers r)"

record fleet_load =
  l_workers :: nat
  l_slots :: nat
  l_free_slots :: nat
  l_running :: nat

definition load_step :: "worker_info \<Rightarrow> fleet_load \<Rightarrow> fleet_load" where
  "load_step w l =
     (let l1 = l\<lparr>l_running := l_running l + length (running w)\<rparr>
      in if accepts_work w
         then l1\<lparr>l_workers := l_workers l1 + 1, l_slots := l_slots l1 + capacity w,
                 l_free_slots := l_free_slots l1 + (capacity w - length (running w))\<rparr>
         else l1)"

definition load :: "registry \<Rightarrow> fleet_load" where
  "load r = fold load_step (map snd (workers r))
     \<lparr>l_workers = 0, l_slots = 0, l_free_slots = 0, l_running = 0\<rparr>"

record worker_stats =
  total :: nat
  idle :: nat
  busy :: nat
  unhealthy :: nat
  draining :: nat

definition stats_count :: "worker_state \<Rightarrow> registry \<Rightarrow> nat" where
  "stats_count st r = length (filter (\<lambda>(_, w). wstate w = st) (workers r))"

definition worker_stats_of :: "registry \<Rightarrow> worker_stats" where
  "worker_stats_of r =
     (let i = stats_count Idle r; b = stats_count Busy r;
          u = stats_count Unhealthy r; d = stats_count Draining r
      in \<lparr>total = i + b + u + d, idle = i, busy = b, unhealthy = u, draining = d\<rparr>)"

definition queue_depth :: "worker_stats \<Rightarrow> nat" where
  "queue_depth s = busy s - idle s"

section \<open>Which platforms are accepted\<close>

definition supported_property :: "string list \<Rightarrow> string \<times> string \<Rightarrow> bool" where
  "supported_property extra p =
     (case p of (n, v) \<Rightarrow>
        n \<in> {''OSFamily'', ''Pool'', ''Priority''} \<or>
        n = ''ISA'' \<and> v \<in> {''arm-a64'', ''x86-64''} \<or>
        n = ''Network'' \<and> v \<in> {''on'', ''off''} \<or>
        n \<notin> {''ISA'', ''Network''} \<and> n \<in> set extra)"

lemma property_label_supported:
  "(\<exists>l. property_label extra p = Inr l) \<longleftrightarrow> supported_property extra p"
  by (cases p) (auto simp: property_label_def supported_property_def ISA_ARCH_LABELS_def network_parse_def)

lemma platform_loop_spec:
  "platform_loop extra ls ps = Inr ls' \<Longrightarrow>
     list_all (supported_property extra) ps \<and>
     set ls' = set ls \<union> {l. \<exists>p \<in> set ps. property_label extra p = Inr (Some l)} \<and>
     (distinct ls \<longrightarrow> distinct ls')"
proof (induction ps arbitrary: ls)
  case (Cons p ps)
  from Cons.prems obtain l where l: "property_label extra p = Inr l"
    by (auto split: sum.splits)
  then have sup: "supported_property extra p" using property_label_supported by blast
  show ?case
  proof (cases l)
    case None
    then show ?thesis using Cons.IH [of ls] Cons.prems l sup by auto
  next
    case (Some k)
    then have "platform_loop extra (if k \<in> set ls then ls else ls @ [k]) ps = Inr ls'"
      using Cons.prems l by simp
    from Cons.IH [OF this] show ?thesis using Some l sup by (auto split: if_splits)
  qed
qed simp

lemma platform_loop_total:
  "list_all (supported_property extra) ps \<Longrightarrow> \<exists>ls'. platform_loop extra ls ps = Inr ls'"
proof (induction ps arbitrary: ls)
  case (Cons p ps)
  then obtain l where "property_label extra p = Inr l"
    using property_label_supported [of extra p] by auto
  with Cons show ?case by (cases l) auto
qed simp

section \<open>Invariants\<close>

definition worker_wf :: "worker_info \<Rightarrow> bool" where
  "worker_wf w \<longleftrightarrow> (wstate w = Idle \<longrightarrow> running w = []) \<and> (wstate w = Busy \<longrightarrow> running w \<noteq> [])"

definition registry_inv :: "registry \<Rightarrow> bool" where
  "registry_inv r \<longleftrightarrow> distinct (map fst (workers r)) \<and>
     (\<forall>k w. map_of (workers r) k = Some w \<longrightarrow> worker_id w = k \<and> worker_wf w)"

definition slots_ok :: "registry \<Rightarrow> bool" where
  "slots_ok r \<longleftrightarrow> (\<forall>k w. map_of (workers r) k = Some w \<longrightarrow> length (running w) \<le> max (capacity w) 1)"

lemma worker_wf_refresh: "worker_wf w \<or> accepts_work w \<Longrightarrow> worker_wf (refresh_state w)"
  by (cases "wstate w") (auto simp: worker_wf_def refresh_state_def accepts_work_def)

lemma refresh_state_fields [simp]:
  "worker_id (refresh_state w) = worker_id w" "running (refresh_state w) = running w"
  "capacity (refresh_state w) = capacity w" "worker_heartbeat (refresh_state w) = worker_heartbeat w"
  "accepts_work (refresh_state w) = accepts_work w" "labels (refresh_state w) = labels w"
  by (auto simp: refresh_state_def accepts_work_def)

lemma refresh_state_not_accepting: "\<not> accepts_work w \<Longrightarrow> refresh_state w = w"
  by (simp add: refresh_state_def)

lemma worker_wf_running:
  "worker_wf w \<Longrightarrow> worker_wf (refresh_state (w\<lparr>running := rs, worker_heartbeat := now\<rparr>))"
  by (cases "accepts_work w") (auto simp: worker_wf_def refresh_state_def accepts_work_def)

lemma worker_wf_beat: "worker_wf w \<Longrightarrow> worker_wf (worker_beat now healthy w)"
  by (auto simp: worker_beat_def Let_def worker_wf_def refresh_state_def accepts_work_def)

lemma worker_beat_fields [simp]:
  "worker_id (worker_beat now healthy w) = worker_id w" "running (worker_beat now healthy w) = running w"
  "capacity (worker_beat now healthy w) = capacity w"
  by (simp_all add: worker_beat_def Let_def)

lemma registry_permit [simp]:
  "registry_inv (r\<lparr>capacity_permit := b\<rparr>) = registry_inv r"
  by (simp add: registry_inv_def)

lemma registry_inv_modify:
  assumes "registry_inv r"
    and "\<And>w. worker_wf w \<Longrightarrow> worker_wf (f w) \<and> worker_id (f w) = worker_id w"
  shows "registry_inv (r\<lparr>workers := alist_modify k f (workers r)\<rparr>)"
  using assms by (auto simp: registry_inv_def split: if_splits)

lemma registry_inv_ops [inv_intros]:
  assumes "registry_inv r"
  shows "registry_inv (reserve now wid eid r)" "registry_inv (release now wid eid r)"
    "registry_inv (mark_unhealthy wid r)" "registry_inv (mark_draining now wid r)"
    "registry_inv (snd (registry_heartbeat now wid healthy r))" "registry_inv (unregister wid r)"
  unfolding reserve_def release_def mark_unhealthy_def mark_draining_def registry_heartbeat_def
  using assms by (simp_all add: registry_inv_modify worker_wf_running worker_wf_beat)
    (auto simp: registry_inv_def unregister_def distinct_delete worker_wf_def split: if_splits)

lemma registry_inv_register [inv_intros]:
  "registry_inv r \<Longrightarrow> worker_wf info \<Longrightarrow> registry_inv (register info r)"
  by (auto simp: registry_inv_def register_def distinct_update)

lemma slots_permit [simp]: "slots_ok (r\<lparr>capacity_permit := b\<rparr>) = slots_ok r"
  by (simp add: slots_ok_def)

lemma slots_ok_modify:
  assumes "slots_ok r"
    and "\<And>w. map_of (workers r) k = Some w \<Longrightarrow> length (running w) \<le> max (capacity w) 1 \<Longrightarrow>
              length (running (f w)) \<le> max (capacity (f w)) 1"
  shows "slots_ok (r\<lparr>workers := alist_modify k f (workers r)\<rparr>)"
  using assms by (auto simp: slots_ok_def split: if_splits)

lemma slots_ok_ops [inv_intros]:
  assumes "slots_ok r"
  shows "slots_ok (release now wid eid r)" "slots_ok (mark_unhealthy wid r)"
    "slots_ok (mark_draining now wid r)" "slots_ok (snd (registry_heartbeat now wid healthy r))"
    "slots_ok (unregister wid r)"
  unfolding release_def mark_unhealthy_def mark_draining_def registry_heartbeat_def
  using assms by (simp_all add: slots_ok_modify order_trans [OF length_filter_le])
    (auto simp: slots_ok_def unregister_def)

section \<open>Selection\<close>

lemma select_worker_Some:
  assumes inv: "registry_inv r" and sel: "select_worker reqs r = Some (wid, tx)"
  obtains w where "map_of (workers r) wid = Some w" "has_free_slot w" "req_matches reqs w"
    "assignment_tx w = tx"
    "\<And>k v. map_of (workers r) k = Some v \<Longrightarrow> has_free_slot v \<Longrightarrow> req_matches reqs v \<Longrightarrow>
       (length (running w), worker_heartbeat w) \<le> (length (running v), worker_heartbeat v)"
proof -
  let ?c = "filter (\<lambda>(_, w). has_free_slot w \<and> req_matches reqs w) (workers r)"
  let ?f = "\<lambda>(_ :: string, w). (length (running w), worker_heartbeat w)"
  from sel obtain k w where m: "min_by_key ?f ?c = Some (k, w)" "worker_id w = wid" "assignment_tx w = tx"
    by (auto simp: select_worker_def)
  note min = min_by_key_Some [OF m(1)]
  have dist: "distinct (map fst (workers r))" using inv by (simp add: registry_inv_def)
  have kw: "map_of (workers r) k = Some w" using min dist by (auto simp: map_of_Some_iff)
  then have "k = wid" using inv m(2) by (auto simp: registry_inv_def)
  show thesis
  proof (rule that [of w])
    fix j v assume "map_of (workers r) j = Some v" "has_free_slot v" "req_matches reqs v"
    then have "(j, v) \<in> set ?c" using dist by (simp add: map_of_Some_iff)
    then show "(length (running w), worker_heartbeat w) \<le> (length (running v), worker_heartbeat v)"
      using min by fastforce
  qed (use kw \<open>k = wid\<close> min m in auto)
qed

lemma select_worker_None:
  "select_worker reqs r = None \<longleftrightarrow>
     (\<forall>(k, w) \<in> set (workers r). \<not> (has_free_slot w \<and> req_matches reqs w))"
  by (auto simp: select_worker_def filter_empty_conv split_beta)

lemma slots_ok_assign [inv_intros]:
  assumes "registry_inv r" "slots_ok r" "select_worker reqs r = Some (wid, tx)"
  shows "slots_ok (reserve now wid eid r)"
proof -
  obtain w where w: "map_of (workers r) wid = Some w" "has_free_slot w"
    by (rule select_worker_Some [OF assms(1,3)])
  show ?thesis
    unfolding reserve_def
    by (rule slots_ok_modify [OF assms(2)]) (use w in \<open>auto simp: has_free_slot_def\<close>)
qed

section \<open>Runs of the registry\<close>

datatype registry_op =
    OpRegister worker_info
  | OpUnregister string
  | OpReserve millis string string
  | OpRelease millis string string
  | OpUnhealthy string
  | OpDrain millis string
  | OpBeat millis string bool

fun registry_step :: "registry_op \<Rightarrow> registry \<Rightarrow> registry" where
  "registry_step (OpRegister w) r = register w r"
| "registry_step (OpUnregister k) r = unregister k r"
| "registry_step (OpReserve now k e) r = reserve now k e r"
| "registry_step (OpRelease now k e) r = release now k e r"
| "registry_step (OpUnhealthy k) r = mark_unhealthy k r"
| "registry_step (OpDrain now k) r = mark_draining now k r"
| "registry_step (OpBeat now k healthy) r = snd (registry_heartbeat now k healthy r)"

text \<open>What the server does with its registry: it reserves a slot only on a worker it just selected.\<close>

inductive registry_reachable :: "registry \<Rightarrow> bool" where
  registry_start: "registry_reachable registry_new"
| registry_join: "registry_reachable r \<Longrightarrow> running w = [] \<Longrightarrow> wstate w = Idle \<Longrightarrow>
    registry_reachable (register w r)"
| registry_assign: "registry_reachable r \<Longrightarrow> select_worker reqs r = Some (wid, tx) \<Longrightarrow>
    registry_reachable (reserve now wid eid r)"
| registry_other: "registry_reachable r \<Longrightarrow>
    op \<in> {OpUnregister k, OpRelease now k e, OpUnhealthy k, OpDrain now k, OpBeat now k healthy} \<Longrightarrow>
    registry_reachable (registry_step op r)"

text \<open>
  C38: while slots are only taken on selected workers, no worker runs more than its capacity,
  workers are filed under their own id, and a worker that takes work is \<open>Busy\<close> exactly while it
  runs something.
\<close>

theorem registry_reachable_inv: "registry_reachable r \<Longrightarrow> registry_inv r \<and> slots_ok r"
proof (induction rule: registry_reachable.induct)
  case (registry_join r w)
  then show ?case
    by (auto simp: inv_intros worker_wf_def) (auto simp: slots_ok_def register_def)
next
  case (registry_assign r reqs wid tx now eid)
  then show ?case using slots_ok_assign registry_inv_ops(1) by blast
next
  case (registry_other r op k now e healthy)
  then show ?case by (auto simp: registry_inv_ops slots_ok_ops)
qed (simp add: registry_new_def registry_inv_def slots_ok_def)

theorem registry_reachable_inv_witness:
  "let w = \<lparr>worker_id = ''w'', worker_type = ''default'', labels = [], wstate = Idle, capacity = 2,
            running = [], worker_heartbeat = 0, assignment_tx = 0\<rparr>
   in slots_ok (register w registry_new)"
  using registry_reachable_inv [OF registry_join [OF registry_start]] by (simp add: Let_def)

text \<open>
  C37: an assignment goes to the best worker. The selected worker is registered, takes work, has
  a free slot and every required label, and among all such workers runs the fewest executions,
  the longest unheard of among equals; nothing is selected only when there is no such worker.
\<close>

theorem select_worker_best:
  assumes "registry_inv r"
  shows "(select_worker reqs r = None \<longleftrightarrow>
            (\<forall>k w. map_of (workers r) k = Some w \<longrightarrow> \<not> (has_free_slot w \<and> req_matches reqs w))) \<and>
         (\<forall>wid tx. select_worker reqs r = Some (wid, tx) \<longrightarrow>
            (\<exists>w. map_of (workers r) wid = Some w \<and> has_free_slot w \<and> req_matches reqs w \<and>
               assignment_tx w = tx \<and>
               (\<forall>k v. map_of (workers r) k = Some v \<and> has_free_slot v \<and> req_matches reqs v \<longrightarrow>
                  length (running w) < length (running v) \<or>
                  length (running w) = length (running v) \<and> worker_heartbeat w \<le> worker_heartbeat v)))"
proof (intro conjI allI impI)
  have "distinct (map fst (workers r))" using assms by (simp add: registry_inv_def)
  then show "select_worker reqs r = None \<longleftrightarrow>
      (\<forall>k w. map_of (workers r) k = Some w \<longrightarrow> \<not> (has_free_slot w \<and> req_matches reqs w))"
    by (auto simp: select_worker_None map_of_Some_iff)
next
  fix wid tx assume sel: "select_worker reqs r = Some (wid, tx)"
  obtain w where w: "map_of (workers r) wid = Some w" "has_free_slot w" "req_matches reqs w"
    "assignment_tx w = tx"
    and best: "\<And>k v. map_of (workers r) k = Some v \<Longrightarrow> has_free_slot v \<Longrightarrow> req_matches reqs v \<Longrightarrow>
       (length (running w), worker_heartbeat w) \<le> (length (running v), worker_heartbeat v)"
    by (rule select_worker_Some [OF assms sel]) blast
  have "length (running w) < length (running v) \<or>
      length (running w) = length (running v) \<and> worker_heartbeat w \<le> worker_heartbeat v"
    if "map_of (workers r) k = Some v" "has_free_slot v" "req_matches reqs v" for k v
    using best [OF that] by (auto simp: less_eq_prod_simp)
  with w show "\<exists>w. map_of (workers r) wid = Some w \<and> has_free_slot w \<and> req_matches reqs w \<and>
      assignment_tx w = tx \<and> (\<forall>k v. map_of (workers r) k = Some v \<and> has_free_slot v \<and> req_matches reqs v \<longrightarrow>
        length (running w) < length (running v) \<or>
        length (running w) = length (running v) \<and> worker_heartbeat w \<le> worker_heartbeat v)"
    by blast
qed

theorem select_worker_best_witness:
  "let w = \<lparr>worker_id = ''w'', worker_type = ''default'', labels = [], wstate = Idle, capacity = 2,
            running = [], worker_heartbeat = 0, assignment_tx = 7\<rparr>;
       r = register w registry_new
   in select_worker \<lparr>req_worker_type = None, req_labels = []\<rparr> r \<noteq> None"
proof -
  let ?w = "\<lparr>worker_id = ''w'', worker_type = ''default'', labels = [], wstate = Idle, capacity = 2,
            running = [], worker_heartbeat = 0, assignment_tx = 7\<rparr>"
  let ?q = "\<lparr>req_worker_type = None, req_labels = []\<rparr>"
  have "registry_inv (register ?w registry_new)"
    by (simp add: registry_inv_def register_def registry_new_def worker_wf_def)
  from select_worker_best [OF this, of ?q, THEN conjunct1]
  have "select_worker ?q (register ?w registry_new) \<noteq> None"
    by (simp add: register_def registry_new_def has_free_slot_def accepts_work_def req_matches_def)
  then show ?thesis by (simp add: Let_def)
qed

definition keeps_draining :: "string \<Rightarrow> registry_op \<Rightarrow> bool" where
  "keeps_draining wid op = (case op of OpRegister w \<Rightarrow> worker_id w \<noteq> wid | OpUnhealthy k \<Rightarrow> k \<noteq> wid | _ \<Rightarrow> True)"

definition not_serving :: "string \<Rightarrow> registry \<Rightarrow> bool" where
  "not_serving wid r \<longleftrightarrow> (\<forall>w. map_of (workers r) wid = Some w \<longrightarrow> wstate w = Draining)"

lemma not_serving_permit [simp]: "not_serving wid (r\<lparr>capacity_permit := b\<rparr>) = not_serving wid r"
  by (simp add: not_serving_def)

lemma not_serving_modify:
  "not_serving wid r \<Longrightarrow> (\<And>w. k = wid \<Longrightarrow> wstate w = Draining \<Longrightarrow> wstate (f w) = Draining) \<Longrightarrow>
   not_serving wid (r\<lparr>workers := alist_modify k f (workers r)\<rparr>)"
  by (auto simp: not_serving_def split: if_splits)

lemma not_serving_step:
  assumes "not_serving wid r" "keeps_draining wid op"
  shows "not_serving wid (registry_step op r)"
proof (cases op)
  case (OpRegister w)
  then show ?thesis using assms by (auto simp: keeps_draining_def not_serving_def register_def)
next
  case (OpUnregister k)
  then show ?thesis using assms by (auto simp: not_serving_def unregister_def)
qed (use assms in \<open>simp_all add: reserve_def release_def mark_unhealthy_def mark_draining_def
    registry_heartbeat_def not_serving_modify keeps_draining_def refresh_state_def accepts_work_def
    worker_beat_def Let_def\<close>)

lemma not_serving_not_selected:
  "registry_inv r \<Longrightarrow> not_serving wid r \<Longrightarrow> select_worker reqs r \<noteq> Some (wid, tx)"
  by (auto simp: not_serving_def has_free_slot_def accepts_work_def elim!: select_worker_Some)

lemma not_serving_steps:
  "not_serving wid r \<Longrightarrow> list_all (keeps_draining wid) ops \<Longrightarrow> not_serving wid (fold registry_step ops r)"
  by (induction ops arbitrary: r) (auto simp: not_serving_step)


definition op_wf :: "registry_op \<Rightarrow> bool" where
  "op_wf op = (case op of OpRegister w \<Rightarrow> worker_wf w | _ \<Rightarrow> True)"

lemma registry_inv_steps:
  "registry_inv r \<Longrightarrow> list_all op_wf ops \<Longrightarrow> registry_inv (fold registry_step ops r)"
proof (induction ops arbitrary: r)
  case (Cons op ops)
  then have "registry_inv (registry_step op r)"
    by (cases op) (simp_all add: op_wf_def registry_inv_ops registry_inv_register)
  with Cons show ?case by simp
qed simp

text \<open>
  A draining worker gets no new work. Whatever the registry does afterwards, as long as the
  worker does not register again and is not marked unhealthy, it stays draining (or leaves) and
  is never selected.
\<close>

theorem draining_gets_no_work:
  assumes "registry_inv r" "list_all op_wf ops" "list_all (keeps_draining wid) ops"
  shows "let r' = fold registry_step ops (mark_draining now wid r)
         in not_serving wid r' \<and> select_worker reqs r' \<noteq> Some (wid, tx)"
proof -
  have "not_serving wid (mark_draining now wid r)"
    by (auto simp: not_serving_def mark_draining_def)
  moreover have "registry_inv (fold registry_step ops (mark_draining now wid r))"
    using assms by (intro registry_inv_steps registry_inv_ops)
  ultimately show ?thesis
    using not_serving_steps [OF _ assms(3)] not_serving_not_selected by (simp add: Let_def)
qed

theorem draining_gets_no_work_witness:
  "select_worker \<lparr>req_worker_type = None, req_labels = []\<rparr>
     (fold registry_step [OpBeat 9 ''w'' True]
       (mark_draining 5 ''w'' (register \<lparr>worker_id = ''w'', worker_type = ''t'', labels = [], wstate = Idle,
          capacity = 1, running = [], worker_heartbeat = 0, assignment_tx = 7\<rparr> registry_new)))
   \<noteq> Some (''w'', 7)"
proof -
  let ?r = "register \<lparr>worker_id = ''w'', worker_type = ''t'', labels = [], wstate = Idle,
          capacity = 1, running = [], worker_heartbeat = 0, assignment_tx = 7\<rparr> registry_new"
  have "registry_inv ?r" by (simp add: registry_inv_def register_def registry_new_def worker_wf_def)
  from draining_gets_no_work [OF this, of "[OpBeat 9 ''w'' True]" "''w''"] show ?thesis
    by (simp add: Let_def op_wf_def keeps_draining_def)
qed

text \<open>
  Draining is not final, although its documentation says that only a new registration
  undoes it. Marking a draining worker unhealthy (an assignment that could not be delivered)
  and then hearing one healthy heartbeat from it makes it idle: it takes work again.
\<close>

theorem draining_undone_by_heartbeat:
  assumes "map_of (workers r) wid = Some w"
  shows "\<exists>w'. map_of (workers (snd (registry_heartbeat later wid True
              (mark_unhealthy wid (mark_draining now wid r))))) wid = Some w' \<and>
           accepts_work w' \<and> running w' = running w"
  using assms
  by (simp add: registry_heartbeat_def mark_unhealthy_def mark_draining_def worker_beat_def Let_def)
    (simp add: accepts_work_def)

theorem draining_undone_by_heartbeat_witness:
  "\<exists>w'. map_of (workers (snd (registry_heartbeat 9 ''w'' True (mark_unhealthy ''w'' (mark_draining 5 ''w''
      (register \<lparr>worker_id = ''w'', worker_type = ''t'', labels = [], wstate = Idle,
          capacity = 1, running = [], worker_heartbeat = 0, assignment_tx = 7\<rparr> registry_new)))))) ''w'' = Some w'
     \<and> accepts_work w' \<and> running w' = []"
  using draining_undone_by_heartbeat [of "register \<lparr>worker_id = ''w'', worker_type = ''t'', labels = [],
      wstate = Idle, capacity = 1, running = [], worker_heartbeat = 0, assignment_tx = 7\<rparr> registry_new" "''w''"
      "\<lparr>worker_id = ''w'', worker_type = ''t'', labels = [],
      wstate = Idle, capacity = 1, running = [], worker_heartbeat = 0, assignment_tx = 7\<rparr>" 9 5]
  by (simp add: register_def registry_new_def)

section \<open>The fleet at a glance\<close>

lemma load_fold:
  "fold load_step ws l =
     \<lparr>l_workers = l_workers l + length (filter accepts_work ws),
      l_slots = l_slots l + sum_list (map capacity (filter accepts_work ws)),
      l_free_slots = l_free_slots l + sum_list (map (\<lambda>w. capacity w - length (running w)) (filter accepts_work ws)),
      l_running = l_running l + sum_list (map (length \<circ> running) ws)\<rparr>"
  by (induction ws arbitrary: l) (simp_all add: load_step_def Let_def)

text \<open>
  The reported load agrees with the selection. With every capacity at least one, a free
  slot is reported exactly when an action without requirements would be placed, and no more
  slots are free than exist.
\<close>

theorem load_free_iff_selectable:
  assumes "list_all (\<lambda>(_, w). 1 \<le> capacity w) (workers r)"
  shows "(0 < l_free_slots (load r) \<longleftrightarrow>
            select_worker \<lparr>req_worker_type = None, req_labels = []\<rparr> r \<noteq> None) \<and>
         l_free_slots (load r) \<le> l_slots (load r)"
proof -
  let ?ws = "filter accepts_work (map snd (workers r))"
  have "0 < l_free_slots (load r) \<longleftrightarrow> (\<exists>w \<in> set ?ws. length (running w) < capacity w)"
    by (auto simp: load_def load_fold sum_list_pos_iff)
  moreover have "has_free_slot (snd p) \<longleftrightarrow> accepts_work (snd p) \<and> length (running (snd p)) < capacity (snd p)"
    if "p \<in> set (workers r)" for p
    using assms that by (auto simp: has_free_slot_def list_all_iff max_def)
  then have "select_worker \<lparr>req_worker_type = None, req_labels = []\<rparr> r \<noteq> None \<longleftrightarrow>
      (\<exists>w \<in> set ?ws. length (running w) < capacity w)"
    by (auto simp: select_worker_None req_matches_def split_beta)
  moreover have "sum_list (map (\<lambda>w. capacity w - length (running w)) ?ws) \<le> sum_list (map capacity ?ws)"
    by (rule sum_list_mono) simp
  ultimately show ?thesis by (simp add: load_def load_fold)
qed

theorem load_free_iff_selectable_witness:
  "0 < l_free_slots (load (register \<lparr>worker_id = ''w'', worker_type = ''t'', labels = [], wstate = Idle,
      capacity = 1, running = [], worker_heartbeat = 0, assignment_tx = 7\<rparr> registry_new)) \<longleftrightarrow>
   select_worker \<lparr>req_worker_type = None, req_labels = []\<rparr>
     (register \<lparr>worker_id = ''w'', worker_type = ''t'', labels = [], wstate = Idle,
      capacity = 1, running = [], worker_heartbeat = 0, assignment_tx = 7\<rparr> registry_new) \<noteq> None"
  by (rule load_free_iff_selectable [THEN conjunct1]) (simp add: register_def registry_new_def)

lemma stats_total: "total (worker_stats_of r) = length (workers r)"
proof -
  have "length xs = length (filter (\<lambda>(_, w). wstate w = Idle) xs) + length (filter (\<lambda>(_, w). wstate w = Busy) xs)
     + length (filter (\<lambda>(_, w). wstate w = Unhealthy) xs) + length (filter (\<lambda>(_, w). wstate w = Draining) xs)"
    for xs :: "(string \<times> worker_info) list"
  proof (induction xs)
    case (Cons x xs)
    obtain k w where "x = (k, w)" by (cases x)
    with Cons show ?case by (cases "wstate w") simp_all
  qed simp
  from this [of "workers r"] show ?thesis by (simp add: worker_stats_of_def stats_count_def Let_def)
qed

text \<open>
  An action is refused exactly when some platform property is not supported, and a worker
  then matches an accepted action exactly when it has the label of every property.
\<close>

theorem platform_requirements:
  "(case from_platform_with ps extra of
      Inl e \<Rightarrow> \<not> list_all (supported_property extra) ps
    | Inr reqs \<Rightarrow> list_all (supported_property extra) ps \<and> distinct (req_labels reqs) \<and>
        (req_matches reqs w \<longleftrightarrow>
           (\<forall>p l. p \<in> set ps \<and> property_label extra p = Inr (Some l) \<longrightarrow> l \<in> set (labels w))))"
proof (cases "platform_loop extra [] ps")
  case (Inl e)
  then have "\<not> list_all (supported_property extra) ps"
    using platform_loop_total [of extra ps "[]"] by auto
  with Inl show ?thesis by (simp add: from_platform_with_def)
next
  case (Inr ls)
  with platform_loop_spec [OF Inr] show ?thesis
    by (auto simp: from_platform_with_def req_matches_def list_all_iff)
qed

theorem platform_requirements_witness:
  "\<exists>reqs. from_platform_with [(''OSFamily'', ''linux'')] [] = Inr reqs"
  using platform_requirements [where ps = "[(''OSFamily'', ''linux'')]" and extra = "[]"]
  by (cases "from_platform_with [(''OSFamily'', ''linux'')] []") (simp_all add: supported_property_def)

end
