(* ===== verification/Fair_Queue.thy ===== *)
theory Fair_Queue
  imports Execution_State Worker_Registry
begin

text \<open>
  \<open>execution/scheduler.rs\<close>, first half: an executable action and the queue that shares the
  workers fairly between invocations. A queue item holds the address of its state machine. The
  \<open>HashMap\<close> of invocations is an association list whose order is the map's iteration order.
  The score is the argument \<open>score\<close>, a function of the running count and the priority into a
  linear order: \<open>f64\<close> under \<open>total_cmp\<close> is one, and \<open>fair_score\<close> is its exact value.
\<close>

section \<open>Actions\<close>

record request_metadata =
  tool_invocation_id :: string
  target_id :: string
  action_mnemonic :: string

datatype queue_priority = Critical | Medium

definition priority_from_platform :: "(string \<times> string) list \<Rightarrow> platform_error + queue_priority" where
  "priority_from_platform ps =
     (case find (\<lambda>(n, _). n = ''Priority'') ps of
        None \<Rightarrow> Inr Medium
      | Some (_, v) \<Rightarrow> if v = ''critical'' then Inr Critical else Inl (UnsupportedPriority v))"

record executable_action =
  ea_operation_id :: op_id
  ea_action_digest :: digest_info
  ea_command :: "string list"
  ea_timeout :: millis
  ea_priority :: queue_priority
  ea_output_files :: "string list"
  ea_output_directories :: "string list"
  ea_working_directory :: "string option"
  ea_input_root_digest :: "digest_info option"
  ea_environment_variables :: "(string \<times> string) list"
  ea_do_not_cache :: bool
  ea_requirements :: worker_requirements
  ea_network :: network_policy
  ea_worker_losses :: nat
  ea_execution_priority :: int
  ea_metadata :: "request_metadata option"

record queue_item =
  action :: executable_action
  enqueued_at :: millis
  state_machine :: op_id

definition invocation_of :: "executable_action \<Rightarrow> string" where
  "invocation_of a = (case ea_metadata a of None \<Rightarrow> [] | Some m \<Rightarrow> tool_invocation_id m)"

section \<open>The fair queue\<close>

record invocation_queue =
  items :: "queue_item list"
  since :: nat

record fair_queue =
  invocations :: "(string \<times> invocation_queue) list"
  fq_len :: nat
  next_since :: nat

definition fq_new :: fair_queue where
  "fq_new = \<lparr>invocations = [], fq_len = 0, next_since = 0\<rparr>"

definition fq_push :: "queue_item \<Rightarrow> bool \<Rightarrow> fair_queue \<Rightarrow> fair_queue" where
  "fq_push item front q =
     (let key = invocation_of (action item);
          s = next_since q;
          queue = (case map_of (invocations q) key of
                     Some qu \<Rightarrow> qu | None \<Rightarrow> \<lparr>items = [], since = s\<rparr>);
          empty = (items queue = []);
          queue1 = (if empty then queue\<lparr>since := s\<rparr> else queue);
          queue2 = (if front then queue1\<lparr>items := item # items queue1\<rparr>
                    else queue1\<lparr>items := items queue1 @ [item]\<rparr>)
      in q\<lparr>invocations := AList.update key queue2 (invocations q),
           next_since := (if empty then s + 1 else s),
           fq_len := fq_len q + 1\<rparr>)"

definition head_priority :: "invocation_queue \<Rightarrow> int" where
  "head_priority qu = (case items qu of [] \<Rightarrow> 0 | i # _ \<Rightarrow> ea_execution_priority (action i))"

definition running_of :: "(string \<rightharpoonup> nat) \<Rightarrow> string \<Rightarrow> nat" where
  "running_of run key = (case run key of None \<Rightarrow> 0 | Some n \<Rightarrow> n)"

definition PRIORITY_DOUBLING :: real where
  "PRIORITY_DOUBLING = 100"

definition fair_score :: "nat \<Rightarrow> int \<Rightarrow> real" where
  "fair_score n priority = (real n + 1) * 2 powr (real_of_int priority / PRIORITY_DOUBLING)"

definition fq_rank :: "(nat \<Rightarrow> int \<Rightarrow> 'f::linorder) \<Rightarrow> (string \<rightharpoonup> nat) \<Rightarrow> string \<times> invocation_queue \<Rightarrow> 'f \<times> nat" where
  "fq_rank score run p = (case p of (k, qu) \<Rightarrow> (score (running_of run k) (head_priority qu), since qu))"

definition fq_pop ::
  "(nat \<Rightarrow> int \<Rightarrow> 'f::linorder) \<Rightarrow> (string \<rightharpoonup> nat) \<Rightarrow> fair_queue \<Rightarrow> queue_item option \<times> fair_queue" where
  "fq_pop score run q =
     (case min_by_key (fq_rank score run) (invocations q) of
        None \<Rightarrow> (None, q)
      | Some (key, qu) \<Rightarrow>
          (case items qu of
             [] \<Rightarrow> (None, q)
           | item # rest \<Rightarrow>
               (Some item,
                q\<lparr>invocations := (if rest = [] then AList.delete key (invocations q)
                                  else AList.update key (qu\<lparr>items := rest\<rparr>) (invocations q)),
                  fq_len := fq_len q - 1\<rparr>)))"

definition fq_is_empty :: "fair_queue \<Rightarrow> bool" where
  "fq_is_empty q = (fq_len q = 0)"

definition drain_where :: "(queue_item \<Rightarrow> bool) \<Rightarrow> fair_queue \<Rightarrow> queue_item list \<times> fair_queue" where
  "drain_where remove q =
     (let removed = concat (map (\<lambda>(_, qu). filter remove (items qu)) (invocations q));
          kept = filter (\<lambda>(_, qu). items qu \<noteq> [])
                   (map (\<lambda>(k, qu). (k, qu\<lparr>items := filter (\<lambda>i. \<not> remove i) (items qu)\<rparr>)) (invocations q))
      in (removed, q\<lparr>invocations := kept, fq_len := fq_len q - length removed\<rparr>))"

section \<open>Invariant and abstraction\<close>

text \<open>
  \<open>queued q k\<close> is the waiting line of invocation \<open>k\<close>; \<open>contents\<close> counts all waiting items.
\<close>

definition queued :: "fair_queue \<Rightarrow> string \<Rightarrow> queue_item list" where
  "queued q k = (case map_of (invocations q) k of None \<Rightarrow> [] | Some qu \<Rightarrow> items qu)"

definition contents :: "fair_queue \<Rightarrow> queue_item multiset" where
  "contents q = mset (concat (map (\<lambda>(_, qu). items qu) (invocations q)))"

definition fq_inv :: "fair_queue \<Rightarrow> bool" where
  "fq_inv q \<longleftrightarrow>
     distinct (map fst (invocations q)) \<and> distinct (map (\<lambda>(_, qu). since qu) (invocations q)) \<and>
     (\<forall>(k, qu) \<in> set (invocations q). items qu \<noteq> [] \<and> since qu < next_since q \<and>
        (\<forall>i \<in> set (items qu). invocation_of (action i) = k)) \<and>
     fq_len q = size (contents q)"

lemma contents_eq: "contents q = entries_mset items (invocations q)"
  by (simp add: contents_def entries_mset_def)

section \<open>Operations keep the invariant\<close>

lemma fq_invI:
  assumes "distinct (map fst (invocations q))" "distinct (map (\<lambda>(_, qu). since qu) (invocations q))"
    "\<And>k qu. (k, qu) \<in> set (invocations q) \<Longrightarrow> items qu \<noteq> [] \<and> since qu < next_since q \<and>
        (\<forall>i \<in> set (items qu). invocation_of (action i) = k)"
    "fq_len q = size (contents q)"
  shows "fq_inv q"
  using assms unfolding fq_inv_def by blast

lemma fq_inv_parts:
  assumes "fq_inv q"
  shows fq_inv_keys: "distinct (map fst (invocations q))"
    and fq_inv_since: "distinct (map (\<lambda>(_, qu). since qu) (invocations q))"
    and fq_inv_entry: "(k, qu) \<in> set (invocations q) \<Longrightarrow> items qu \<noteq> [] \<and> since qu < next_since q \<and>
        (\<forall>i \<in> set (items qu). invocation_of (action i) = k)"
    and fq_inv_len: "fq_len q = size (contents q)"
  using assms unfolding fq_inv_def by blast+

lemma fq_inv_lookup:
  assumes "fq_inv q" "map_of (invocations q) k = Some qu"
  shows "items qu \<noteq> []" "since qu < next_since q" "\<forall>i \<in> set (items qu). invocation_of (action i) = k"
  using fq_inv_entry [OF assms(1) map_of_SomeD [OF assms(2)]] by auto

lemma fq_inv_new [inv_intros]: "fq_inv fq_new"
  by (simp add: fq_inv_def fq_new_def contents_def)

lemma fq_push_inv [inv_intros]:
  assumes "fq_inv q" shows "fq_inv (fq_push item front q)"
proof (cases "map_of (invocations q) (invocation_of (action item))")
  case None
  let ?k = "invocation_of (action item)"
  have push: "invocations (fq_push item front q) = AList.update ?k \<lparr>items = [item], since = next_since q\<rparr> (invocations q)"
    "next_since (fq_push item front q) = next_since q + 1" "fq_len (fq_push item front q) = fq_len q + 1"
    by (simp_all add: fq_push_def None Let_def)
  show ?thesis
  proof (rule fq_invI)
    show "distinct (map (\<lambda>(_, qu). since qu) (invocations (fq_push item front q)))"
      unfolding push using fq_inv_keys [OF assms] fq_inv_since [OF assms]
      by (rule distinct_map_update) (auto dest: fq_inv_entry [OF assms])
    show "fq_len (fq_push item front q) = size (contents (fq_push item front q))"
      using fq_inv_len [OF assms] fq_inv_keys [OF assms] None
      by (simp add: push contents_eq entries_mset_update delete_absent map_of_eq_None_iff)
  qed (auto simp: push fq_inv_keys [OF assms] distinct_update dest!: set_update_cases
        dest: fq_inv_entry [OF assms])
next
  case (Some qu)
  let ?k = "invocation_of (action item)"
  let ?qu = "qu\<lparr>items := (if front then item # items qu else items qu @ [item])\<rparr>"
  note qu = fq_inv_lookup [OF assms Some]
  have push: "invocations (fq_push item front q) = AList.update ?k ?qu (invocations q)"
    "next_since (fq_push item front q) = next_since q" "fq_len (fq_push item front q) = fq_len q + 1"
    using qu(1) by (simp_all add: fq_push_def Some Let_def)
  have "inj_on (\<lambda>(_, qu). since qu) (set (invocations q))"
    using fq_inv_since [OF assms] by (simp add: distinct_map)
  then have other: "since v \<noteq> since qu" if "(j, v) \<in> set (invocations q)" "j \<noteq> ?k" for j v
    using that map_of_SomeD [OF Some] by (auto simp: inj_on_def)
  show ?thesis
  proof (rule fq_invI)
    show "distinct (map (\<lambda>(_, qu). since qu) (invocations (fq_push item front q)))"
      unfolding push using fq_inv_keys [OF assms] fq_inv_since [OF assms]
      by (rule distinct_map_update) (use other in auto)
    show "fq_len (fq_push item front q) = size (contents (fq_push item front q))"
      using fq_inv_len [OF assms] fq_inv_keys [OF assms] Some
      by (simp add: push contents_eq entries_mset_update entries_mset_delete)
  qed (use qu in \<open>auto simp: push fq_inv_keys [OF assms] distinct_update dest!: set_update_cases
        dest: fq_inv_entry [OF assms] split: if_splits\<close>)
qed


lemma fq_pop_empty: "fq_inv q \<Longrightarrow> contents q = {#} \<Longrightarrow> invocations q = []"
  by (cases "invocations q") (auto simp: contents_eq dest: fq_inv_entry)

lemma fq_pop_step:
  assumes inv: "fq_inv q" and ne: "invocations q \<noteq> []"
  obtains k qu item rest where
    "min_by_key (fq_rank score run) (invocations q) = Some (k, qu)" "map_of (invocations q) k = Some qu"
    "items qu = item # rest" "invocation_of (action item) = k"
    "fq_pop score run q = (Some item, q\<lparr>invocations :=
       (if rest = [] then AList.delete k (invocations q)
        else AList.update k (qu\<lparr>items := rest\<rparr>) (invocations q)), fq_len := fq_len q - 1\<rparr>)"
proof -
  obtain k qu where m: "min_by_key (fq_rank score run) (invocations q) = Some (k, qu)"
    using ne by (cases "min_by_key (fq_rank score run) (invocations q)") auto
  then have at: "map_of (invocations q) k = Some qu"
    using min_by_key_Some [OF m] fq_inv_keys [OF inv] by (simp add: map_of_Some_iff)
  obtain item rest where it: "items qu = item # rest"
    using fq_inv_lookup(1) [OF inv at] by (cases "items qu") auto
  have "invocation_of (action item) = k" using fq_inv_lookup(3) [OF inv at] it by simp
  with m at it show thesis using that by (simp add: fq_pop_def)
qed

lemma fq_pop_spec:
  assumes inv: "fq_inv q" and pop: "fq_pop score run q = (Some item, q')"
  shows "fq_inv q' \<and> contents q = add_mset item (contents q') \<and>
     queued q (invocation_of (action item)) = item # queued q' (invocation_of (action item)) \<and>
     (\<forall>k. k \<noteq> invocation_of (action item) \<longrightarrow> queued q' k = queued q k)"
proof -
  have "invocations q \<noteq> []" using pop by (auto simp: fq_pop_def)
  from fq_pop_step [OF inv this, of score run] obtain k qu rest where
    at: "map_of (invocations q) k = Some qu" and it: "items qu = item # rest"
    and k: "invocation_of (action item) = k"
    and q': "q' = q\<lparr>invocations := (if rest = [] then AList.delete k (invocations q)
        else AList.update k (qu\<lparr>items := rest\<rparr>) (invocations q)), fq_len := fq_len q - 1\<rparr>"
    using pop by (metis Pair_inject option.inject)
  note keys = fq_inv_keys [OF inv]
  have con: "contents q = add_mset item (contents q')"
    using entries_mset_delete [OF keys at, of items] it keys
    by (simp add: q' contents_eq entries_mset_update)
  have "distinct (map (\<lambda>(_, qu). since qu) (AList.update k (qu\<lparr>items := rest\<rparr>) (invocations q)))"
  proof (rule distinct_map_update [OF keys fq_inv_since [OF inv]])
    have "inj_on (\<lambda>(_, qu). since qu) (set (invocations q))"
      using fq_inv_since [OF inv] by (simp add: distinct_map)
    then show "\<forall>p \<in> set (invocations q). fst p \<noteq> k \<longrightarrow>
        (case p of (_, qu) \<Rightarrow> since qu) \<noteq> (case (k, qu\<lparr>items := rest\<rparr>) of (_, qu) \<Rightarrow> since qu)"
      using map_of_SomeD [OF at] by (fastforce simp: inj_on_def)
  qed
  moreover have "distinct (map (\<lambda>(_, qu). since qu) (AList.delete k (invocations q)))"
    using fq_inv_since [OF inv] by (simp add: AList.delete_eq distinct_map_filter)
  ultimately have since: "distinct (map (\<lambda>(_, qu). since qu) (invocations q'))"
    by (simp add: q')
  have "fq_inv q'"
  proof (rule fq_invI [OF _ since])
    show "distinct (map fst (invocations q'))"
      using keys by (simp add: q' distinct_update distinct_delete)
    show "fq_len q' = size (contents q')"
      using fq_inv_len [OF inv] con by (simp add: q')
    fix j v assume "(j, v) \<in> set (invocations q')"
    then have "j = k \<and> v = qu\<lparr>items := rest\<rparr> \<and> rest \<noteq> [] \<or> (j, v) \<in> set (invocations q)"
      using set_update_cases [OF _ keys, of j v k "qu\<lparr>items := rest\<rparr>"]
      by (auto simp: q' AList.delete_eq split: if_splits)
    then show "items v \<noteq> [] \<and> since v < next_since q' \<and> (\<forall>i \<in> set (items v). invocation_of (action i) = j)"
      using fq_inv_lookup [OF inv at] it fq_inv_entry [OF inv, of j v] by (auto simp: q')
  qed
  moreover have "queued q k = item # queued q' k" "\<forall>j. j \<noteq> k \<longrightarrow> queued q' j = queued q j"
    using at it by (simp_all add: queued_def q')
  ultimately show ?thesis using con k by simp
qed

lemma fq_pop_None:
  "fq_inv q \<Longrightarrow> fq_pop score run q = (None, q') \<Longrightarrow> q' = q \<and> contents q = {#}"
  by (cases "invocations q = []")
    (auto simp: fq_pop_def contents_eq elim!: fq_pop_step [of q score run])


lemma contents_push: "fq_inv q \<Longrightarrow> contents (fq_push item front q) = add_mset item (contents q)"
  by (cases "map_of (invocations q) (invocation_of (action item))")
    (simp_all add: fq_push_def Let_def contents_eq entries_mset_update entries_mset_delete fq_inv_keys
      delete_absent [OF map_of_eq_None_iff [THEN iffD1]])

lemma queued_push:
  "queued (fq_push item front q) =
     (queued q)(invocation_of (action item) :=
        (if front then item # queued q (invocation_of (action item))
         else queued q (invocation_of (action item)) @ [item]))"
  by (auto simp: queued_def fq_push_def Let_def fun_eq_iff split: option.splits)

lemma queued_key: "fq_inv q \<Longrightarrow> i \<in> set (queued q k) \<Longrightarrow> invocation_of (action i) = k"
  by (cases "map_of (invocations q) k") (auto simp: queued_def dest: fq_inv_lookup(3))

lemma queued_drain:
  assumes "fq_inv q"
  shows "queued (snd (drain_where P q)) k = filter (\<lambda>i. \<not> P i) (queued q k)"
proof -
  let ?al = "map (\<lambda>(k, qu). (k, qu\<lparr>items := filter (\<lambda>i. \<not> P i) (items qu)\<rparr>)) (invocations q)"
  have "map fst ?al = map fst (invocations q)" by auto
  then have "distinct (map fst ?al)" using fq_inv_keys [OF assms] by (simp only:)
  then show ?thesis
    by (auto simp: queued_def drain_where_def Let_def map_of_filter_key map_of_map_values split: option.splits)
qed

lemma contents_drain:
  "mset (fst (drain_where P q)) = filter_mset P (contents q)"
  "contents (snd (drain_where P q)) = filter_mset (\<lambda>i. \<not> P i) (contents q)"
proof -
  have "mset (concat (map (\<lambda>(_, qu). filter P (items qu)) al)) = filter_mset P (entries_mset items al)"
    "entries_mset items (filter (\<lambda>(_, qu). items qu \<noteq> [])
       (map (\<lambda>(k, qu). (k, qu\<lparr>items := filter (\<lambda>i. \<not> P i) (items qu)\<rparr>)) al))
     = filter_mset (\<lambda>i. \<not> P i) (entries_mset items al)" for al :: "(string \<times> invocation_queue) list"
    by (induction al) (auto simp: filter_empty_conv simp flip: mset_filter)
  then show "mset (fst (drain_where P q)) = filter_mset P (contents q)"
    "contents (snd (drain_where P q)) = filter_mset (\<lambda>i. \<not> P i) (contents q)"
    by (simp_all add: drain_where_def Let_def contents_eq)
qed

lemma fq_inv_drain [inv_intros]:
  assumes "fq_inv q" shows "fq_inv (snd (drain_where P q))"
proof (rule fq_invI)
  let ?q = "snd (drain_where P q)"
  let ?f = "\<lambda>(k :: string, qu). (k, qu\<lparr>items := filter (\<lambda>i. \<not> P i) (items qu)\<rparr>)"
  have invs: "invocations ?q = filter (\<lambda>(_, qu). items qu \<noteq> []) (map ?f (invocations q))"
    by (simp add: drain_where_def Let_def)
  have "map fst (map ?f (invocations q)) = map fst (invocations q)"
    "map (\<lambda>(_, qu). since qu) (map ?f (invocations q)) = map (\<lambda>(_, qu). since qu) (invocations q)"
    by auto
  then show "distinct (map fst (invocations ?q))" "distinct (map (\<lambda>(_, qu). since qu) (invocations ?q))"
    unfolding invs using fq_inv_keys [OF assms] fq_inv_since [OF assms]
    by (simp_all only: distinct_map_filter)
  show "fq_len ?q = size (contents ?q)"
  proof -
    have "size (filter_mset P (contents q)) + size (filter_mset (\<lambda>i. \<not> P i) (contents q)) = size (contents q)"
      by (metis multiset_partition size_union)
    moreover have "length (fst (drain_where P q)) = size (filter_mset P (contents q))"
      using contents_drain(1) [of P q] by (metis size_mset)
    ultimately show ?thesis
      using fq_inv_len [OF assms] contents_drain(2) [of P q] by (simp add: drain_where_def Let_def)
  qed
  fix k qu assume "(k, qu) \<in> set (invocations ?q)"
  then show "items qu \<noteq> [] \<and> since qu < next_since ?q \<and> (\<forall>i \<in> set (items qu). invocation_of (action i) = k)"
    unfolding invs by (auto dest!: fq_inv_entry [OF assms]) (simp_all add: drain_where_def Let_def)
qed

section \<open>The contract of a work queue\<close>

text \<open>Draining a queue with a series of pops, each under its own scheduling context.\<close>

primrec pop_run :: "('r \<Rightarrow> 'q \<Rightarrow> 'i option \<times> 'q) \<Rightarrow> 'r list \<Rightarrow> 'q \<Rightarrow> 'i list \<times> 'q" where
  "pop_run pop [] q = ([], q)"
| "pop_run pop (r # rs) q =
     (case pop r q of
        (None, q') \<Rightarrow> pop_run pop rs q'
      | (Some i, q') \<Rightarrow> (case pop_run pop rs q' of (is, q'') \<Rightarrow> (i # is, q'')))"

locale work_queue =
  fixes inv :: "'q \<Rightarrow> bool"
    and waiting :: "'q \<Rightarrow> 'i multiset"
    and line :: "'q \<Rightarrow> 'k \<Rightarrow> 'i list"
    and key :: "'i \<Rightarrow> 'k"
    and size_of :: "'q \<Rightarrow> nat"
    and push_op :: "'i \<Rightarrow> bool \<Rightarrow> 'q \<Rightarrow> 'q"
    and pop_op :: "'r \<Rightarrow> 'q \<Rightarrow> 'i option \<times> 'q"
    and drain_op :: "('i \<Rightarrow> bool) \<Rightarrow> 'q \<Rightarrow> 'i list \<times> 'q"
  assumes inv_push: "inv q \<Longrightarrow> inv (push_op i front q)"
    and waiting_push: "inv q \<Longrightarrow> waiting (push_op i front q) = add_mset i (waiting q)"
    and size_law: "inv q \<Longrightarrow> size_of q = size (waiting q)"
    and pop_none: "inv q \<Longrightarrow> pop_op r q = (None, q') \<Longrightarrow> q' = q \<and> waiting q = {#}"
    and pop_some: "inv q \<Longrightarrow> pop_op r q = (Some i, q') \<Longrightarrow>
      inv q' \<and> waiting q = add_mset i (waiting q') \<and> line q (key i) = i # line q' (key i) \<and>
      (\<forall>k. k \<noteq> key i \<longrightarrow> line q' k = line q k)"
    and inv_drain: "inv q \<Longrightarrow> inv (snd (drain_op P q))"
    and drain_removed: "inv q \<Longrightarrow> mset (fst (drain_op P q)) = filter_mset P (waiting q)"
    and drain_kept: "inv q \<Longrightarrow> waiting (snd (drain_op P q)) = filter_mset (\<lambda>i. \<not> P i) (waiting q)"
begin

lemma pop_run_spec:
  "inv q \<Longrightarrow> pop_run pop_op rs q = (out, q') \<Longrightarrow>
     inv q' \<and> mset out + waiting q' = waiting q \<and> filter (\<lambda>i. key i = k) out @ line q' k = line q k \<and>
     length out = min (length rs) (size_of q)"
proof (induction rs arbitrary: q out)
  case (Cons r rs)
  obtain x q1 where pop: "pop_op r q = (x, q1)" by fastforce
  show ?case
  proof (cases x)
    case None
    with pop have "q1 = q" "waiting q = {#}" using pop_none [OF Cons.prems(1)] by auto
    with Cons pop None size_law [OF Cons.prems(1)] show ?thesis by auto
  next
    case (Some i)
    obtain out' where out: "pop_run pop_op rs q1 = (out', q')" "out = i # out'"
      using Cons.prems(2) pop Some by (auto split: prod.splits)
    note step = pop_some [OF Cons.prems(1) pop [unfolded Some]]
    from Cons.IH [OF _ out(1)] step have IH: "inv q'" "mset out' + waiting q' = waiting q1"
      "filter (\<lambda>i. key i = k) out' @ line q' k = line q1 k" "length out' = min (length rs) (size_of q1)"
      by auto
    moreover have "size_of q = Suc (size_of q1)"
      using step size_law [OF Cons.prems(1)] size_law [of q1] by simp
    ultimately show ?thesis using step out(2) by (cases "key i = k") auto
  qed
qed (auto simp: size_law)

end

interpretation fq: work_queue fq_inv contents queued "\<lambda>i. invocation_of (action i)" fq_len fq_push
    "\<lambda>(score, run). fq_pop score run" drain_where
proof (unfold_locales, goal_cases)
  case (5 q r i q')
  then show ?case by (cases r) (simp add: fq_pop_spec)
qed (auto simp: inv_intros contents_push fq_inv_len contents_drain dest: fq_pop_None split: prod.splits)

section \<open>What the queue guarantees\<close>

inductive fq_reachable :: "fair_queue \<Rightarrow> bool" where
  fq_start: "fq_reachable fq_new"
| fq_pushed: "fq_reachable q \<Longrightarrow> fq_reachable (fq_push item front q)"
| fq_popped: "fq_reachable q \<Longrightarrow> fq_reachable (snd (fq_pop (score :: nat \<Rightarrow> int \<Rightarrow> real) run q))"
| fq_drained: "fq_reachable q \<Longrightarrow> fq_reachable (snd (drain_where P q))"

lemma fq_inv_pop [inv_intros]: "fq_inv q \<Longrightarrow> fq_inv (snd (fq_pop score run q))"
  by (cases "fq_pop score run q"; cases "fst (fq_pop score run q)")
    (auto dest: fq_pop_spec fq_pop_None)

text \<open>
  Every reachable queue is well formed: an invocation appears once and only while it has
  actions waiting, those actions are its own, no two invocations share a waiting stamp, and the
  length counter is the number of waiting actions.
\<close>

theorem fq_reachable_inv: "fq_reachable q \<Longrightarrow> fq_inv q"
  by (induction rule: fq_reachable.induct) (auto intro: inv_intros fq_push_inv)

theorem fq_reachable_inv_witness: "fq_inv (snd (fq_pop fair_score Map.empty fq_new))"
  by (rule fq_reachable_inv) (intro fq_popped fq_start)

text \<open>
  The next action is the first one waiting of the invocation with the least score, the one
  waiting longest among equal scores; the queue returns nothing only when nothing waits.
\<close>

theorem fq_pop_fair:
  assumes "fq_inv q"
  shows "case fq_pop score run q of
           (None, q') \<Rightarrow> q' = q \<and> contents q = {#}
         | (Some item, q') \<Rightarrow>
             (let k = invocation_of (action item) in
                queued q k = item # queued q' k \<and>
                (\<exists>qu. map_of (invocations q) k = Some qu \<and>
                   (\<forall>j v. map_of (invocations q) j = Some v \<longrightarrow>
                      fq_rank score run (k, qu) \<le> fq_rank score run (j, v))))"
proof (cases "invocations q = []")
  case True
  then show ?thesis by (simp add: fq_pop_def contents_def)
next
  case False
  from fq_pop_step [OF assms False, of score run] obtain k qu item rest where
    m: "min_by_key (fq_rank score run) (invocations q) = Some (k, qu)" "map_of (invocations q) k = Some qu"
    and it: "items qu = item # rest" "invocation_of (action item) = k"
    and pop: "fst (fq_pop score run q) = Some item"
    by (metis fst_conv)
  obtain q' where q': "fq_pop score run q = (Some item, q')" using pop by (cases "fq_pop score run q") simp
  have "fq_rank score run (k, qu) \<le> fq_rank score run (j, v)" if "map_of (invocations q) j = Some v" for j v
    using min_by_key_Some [OF m(1)] map_of_SomeD [OF that] by blast
  then show ?thesis
    using fq_pop_spec [OF assms q'] m(2) it(2) by (simp add: q' Let_def)
qed

theorem fq_pop_fair_witness:
  "case fq_pop fair_score Map.empty fq_new of (None, q') \<Rightarrow> q' = fq_new \<and> contents fq_new = {#} | (Some i, q') \<Rightarrow> False"
  using fq_pop_fair [OF fq_inv_new, of fair_score Map.empty]
  by (simp add: fq_pop_def fq_new_def)

text \<open>
  C36: nothing is lost, repeated or overtaken. A series of pops, under any running counts, hands
  out each waiting action at most once, as many as the series is long or the queue holds, and the
  actions of one invocation in the order in which they wait.
\<close>

theorem fq_pop_run_fifo:
  assumes "fq_inv q" and "pop_run (\<lambda>(score, run). fq_pop score run) rs q = (out, q')"
  shows "mset out + contents q' = contents q \<and>
         filter (\<lambda>i. invocation_of (action i) = k) out @ queued q' k = queued q k \<and>
         length out = min (length rs) (fq_len q)"
  using fq.pop_run_spec [OF assms, of k] by blast

theorem fq_pop_run_fifo_witness:
  "\<exists>out q'. pop_run (\<lambda>(score, run). fq_pop score run) [(fair_score, Map.empty)] fq_new = (out, q')
     \<and> mset out + contents q' = contents fq_new"
  using fq_pop_run_fifo [OF fq_inv_new prod.collapse [symmetric], of "[(fair_score, Map.empty)]"]
  by (metis prod.collapse)

text \<open>
  The choice does not depend on the iteration order of the hash map: two well-formed queues
  with the same entries hand out the same action and agree on what remains.
\<close>

theorem fq_pop_order_independent:
  assumes "fq_inv q" "fq_inv p" "set (invocations p) = set (invocations q)"
  shows "fst (fq_pop score run p) = fst (fq_pop score run q) \<and>
         queued (snd (fq_pop score run p)) = queued (snd (fq_pop score run q))"
proof -
  have "inj_on (fq_rank score run) (set (invocations p))"
  proof (rule inj_onI)
    fix x y assume xy: "x \<in> set (invocations p)" "y \<in> set (invocations p)" "fq_rank score run x = fq_rank score run y"
    have "inj_on (\<lambda>(_, qu). since qu) (set (invocations p))"
      using fq_inv_since [OF assms(2)] by (simp add: distinct_map)
    moreover have "(\<lambda>(_, qu). since qu) x = (\<lambda>(_, qu). since qu) y"
      using xy(3) by (auto simp: fq_rank_def split: prod.splits)
    ultimately show "x = y" using xy(1,2) by (auto dest: inj_onD)
  qed
  then have m: "min_by_key (fq_rank score run) (invocations p) = min_by_key (fq_rank score run) (invocations q)"
    by (rule min_by_key_perm [OF assms(3)])
  have lookup: "map_of (invocations p) = map_of (invocations q)"
    using assms fq_inv_keys [OF assms(1)] fq_inv_keys [OF assms(2)] by (intro map_of_inject_set [THEN iffD2]) auto
  show ?thesis
    by (auto simp: fq_pop_def m queued_def lookup fun_eq_iff split: option.splits list.splits prod.splits)
qed


text \<open>An action with default settings, for concrete instances.\<close>

definition plain_action :: "op_id \<Rightarrow> string \<Rightarrow> digest_info \<Rightarrow> executable_action" where
  "plain_action op iv d =
     \<lparr>ea_operation_id = op, ea_action_digest = d, ea_command = [], ea_timeout = 0, ea_priority = Medium,
      ea_output_files = [], ea_output_directories = [], ea_working_directory = None,
      ea_input_root_digest = None, ea_environment_variables = [], ea_do_not_cache = False,
      ea_requirements = \<lparr>req_worker_type = None, req_labels = []\<rparr>, ea_network = WorkerDefault,
      ea_worker_losses = 0, ea_execution_priority = 0, ea_metadata = Some \<lparr>tool_invocation_id = iv, target_id = [], action_mnemonic = []\<rparr>\<rparr>"

definition plain_item :: "op_id \<Rightarrow> string \<Rightarrow> queue_item" where
  "plain_item op iv =
     \<lparr>action = plain_action op iv \<lparr>hash = [], dsize = int op\<rparr>, enqueued_at = 0, state_machine = op\<rparr>"

lemma invocation_of_plain [simp]: "invocation_of (plain_action op iv d) = iv"
  by (simp add: invocation_of_def plain_action_def)

lemma plain_item_fields [simp]: "invocation_of (action (plain_item op iv)) = iv"
  by (simp add: plain_item_def)

lemma entries_mset_rev: "entries_mset f (rev al) = entries_mset f al"
  by (induction al) (auto simp: entries_mset_def)

lemma fq_inv_rev: "fq_inv q \<Longrightarrow> fq_inv (q\<lparr>invocations := rev (invocations q)\<rparr>)"
  by (rule fq_invI)
    (simp_all add: rev_map [symmetric] fq_inv_keys fq_inv_since fq_inv_entry fq_inv_len contents_eq
      entries_mset_rev)

theorem fq_pop_order_independent_witness:
  "let q = fq_push (plain_item 2 ''b'') False (fq_push (plain_item 1 ''a'') False fq_new);
       p = q\<lparr>invocations := rev (invocations q)\<rparr>
   in fst (fq_pop fair_score Map.empty p) = fst (fq_pop fair_score Map.empty q)"
proof -
  let ?q = "fq_push (plain_item 2 ''b'') False (fq_push (plain_item 1 ''a'') False fq_new)"
  let ?p = "?q\<lparr>invocations := rev (invocations ?q)\<rparr>"
  have q: "fq_inv ?q" by (intro fq_push_inv fq_inv_new)
  have p: "fq_inv ?p" by (rule fq_inv_rev [OF q])
  have "set (invocations ?p) = set (invocations ?q)" by simp
  from fq_pop_order_independent [OF q p this, of fair_score Map.empty, THEN conjunct1]
  show ?thesis unfolding Let_def .
qed

lemma fair_score_le_iff: "fair_score m p \<le> fair_score n p \<longleftrightarrow> m \<le> n"
  by (simp add: fair_score_def mult_le_cancel_right)

lemma fair_score_doubling: "fair_score n (p + 100) = 2 * fair_score n p"
  by (simp add: fair_score_def PRIORITY_DOUBLING_def add_divide_distrib powr_add)

text \<open>
  The workers are shared. Among invocations whose next actions have the same priority, the
  action comes from one that runs the fewest; a priority 100 higher counts as running twice as much.
\<close>

theorem fq_pop_least_running:
  assumes "fq_inv q" and "fq_pop fair_score run q = (Some item, q')"
    and "map_of (invocations q) j = Some v" and "head_priority v = ea_execution_priority (action item)"
  shows "running_of run (invocation_of (action item)) \<le> running_of run j \<and>
         fair_score n (p + 100) = 2 * fair_score n p"
proof -
  let ?k = "invocation_of (action item)"
  have "invocations q \<noteq> []" using assms(3) by auto
  from fq_pop_step [OF assms(1) this, of fair_score run] obtain qu rest where
    m: "min_by_key (fq_rank fair_score run) (invocations q) = Some (?k, qu)" and it: "items qu = item # rest"
    using assms(2) by (metis Pair_inject option.inject)
  have "fq_rank fair_score run (?k, qu) \<le> fq_rank fair_score run (j, v)"
    using min_by_key_Some [OF m] map_of_SomeD [OF assms(3)] by blast
  moreover have "head_priority qu = head_priority v"
    using it assms(4) by (simp add: head_priority_def)
  ultimately show ?thesis
    using fair_score_doubling by (auto simp: fq_rank_def less_eq_prod_simp fair_score_le_iff
        dest!: less_imp_le)
qed

theorem fq_pop_least_running_witness:
  "running_of (Map.empty(''b'' \<mapsto> 3)) ''a'' \<le> running_of (Map.empty(''b'' \<mapsto> 3)) ''a'' \<and>
     fair_score 2 (5 + 100) = 2 * fair_score 2 5"
proof -
  let ?q = "fq_push (plain_item 1 ''a'') False fq_new"
  have q: "fq_inv ?q" by (intro fq_push_inv fq_inv_new)
  have pop: "fq_pop fair_score (Map.empty(''b'' \<mapsto> 3)) ?q = (Some (plain_item 1 ''a''),
      ?q\<lparr>invocations := [], fq_len := 0\<rparr>)"
    by (simp add: fq_push_def fq_new_def fq_pop_def)
  have at: "map_of (invocations ?q) ''a'' = Some \<lparr>items = [plain_item 1 ''a''], since = 0\<rparr>"
    by (simp add: fq_push_def fq_new_def)
  have prio: "head_priority \<lparr>items = [plain_item 1 ''a''], since = 0\<rparr>
      = ea_execution_priority (action (plain_item 1 ''a''))" by (simp add: head_priority_def)
  show ?thesis using fq_pop_least_running [OF q pop at prio, of 2 5] by simp
qed

end
