(* ===== verification/Scheduler.thy ===== *)
theory Scheduler
  imports Fair_Queue
begin

text \<open>
  \<open>execution/scheduler.rs\<close>, second half: the two fair queues, the in-flight table that merges
  identical actions, and the running counts that drive fairness. Each method is one atomic step
  on the record (the locks it takes are held together). \<open>work_permit\<close> is the stored permit of
  the \<open>Notify\<close>; machines are read through the \<open>heap\<close> of the machine registry.
\<close>

record in_flight_entry =
  if_operation_id :: op_id
  inserted_at :: millis
  if_invocation :: string
  dispatched :: bool

record scheduler =
  critical_queue :: fair_queue
  medium_queue :: fair_queue
  in_flight_actions :: "(digest_info \<times> in_flight_entry) list"
  running_counts :: "string \<rightharpoonup> nat"
  critical_enqueued :: millis
  critical_dequeued :: millis
  medium_enqueued :: millis
  medium_dequeued :: millis
  work_permit :: bool

definition scheduler_new :: "millis \<Rightarrow> scheduler" where
  "scheduler_new now =
     \<lparr>critical_queue = fq_new, medium_queue = fq_new, in_flight_actions = [], running_counts = Map.empty,
      critical_enqueued = now, critical_dequeued = now, medium_enqueued = now, medium_dequeued = now,
      work_permit = False\<rparr>"

definition sched_queue :: "queue_priority \<Rightarrow> scheduler \<Rightarrow> fair_queue" where
  "sched_queue p s = (case p of Critical \<Rightarrow> critical_queue s | Medium \<Rightarrow> medium_queue s)"

definition set_queue :: "queue_priority \<Rightarrow> fair_queue \<Rightarrow> scheduler \<Rightarrow> scheduler" where
  "set_queue p q s = (case p of Critical \<Rightarrow> s\<lparr>critical_queue := q\<rparr> | Medium \<Rightarrow> s\<lparr>medium_queue := q\<rparr>)"

definition enqueued_stat :: "queue_priority \<Rightarrow> millis \<Rightarrow> scheduler \<Rightarrow> scheduler" where
  "enqueued_stat p now s =
     (case p of Critical \<Rightarrow> s\<lparr>critical_enqueued := now\<rparr> | Medium \<Rightarrow> s\<lparr>medium_enqueued := now\<rparr>)"

definition dequeued_stat :: "queue_priority \<Rightarrow> millis \<Rightarrow> scheduler \<Rightarrow> scheduler" where
  "dequeued_stat p now s =
     (case p of Critical \<Rightarrow> s\<lparr>critical_dequeued := now\<rparr> | Medium \<Rightarrow> s\<lparr>medium_dequeued := now\<rparr>)"

definition enqueue :: "millis \<Rightarrow> executable_action \<Rightarrow> op_id \<Rightarrow> scheduler \<Rightarrow> op_id \<times> scheduler" where
  "enqueue now a sm s =
     (case map_of (in_flight_actions s) (ea_action_digest a) of
        Some existing \<Rightarrow> (if_operation_id existing, s)
      | None \<Rightarrow>
          (let s1 = s\<lparr>in_flight_actions := AList.update (ea_action_digest a)
                        \<lparr>if_operation_id = ea_operation_id a, inserted_at = now,
                         if_invocation = invocation_of a, dispatched = False\<rparr> (in_flight_actions s)\<rparr>;
               p = ea_priority a;
               s2 = set_queue p (fq_push \<lparr>action = a, enqueued_at = now, state_machine = sm\<rparr> False
                                  (sched_queue p s1)) s1;
               s3 = enqueued_stat p now s2
           in (ea_operation_id a, s3\<lparr>work_permit := True\<rparr>)))"

definition undispatch :: "digest_info \<Rightarrow> scheduler \<Rightarrow> scheduler" where
  "undispatch d s =
     (case map_of (in_flight_actions s) d of
        None \<Rightarrow> s
      | Some entry \<Rightarrow>
          if dispatched entry then
            (let s1 = s\<lparr>in_flight_actions := alist_modify d (\<lambda>e. e\<lparr>dispatched := False\<rparr>) (in_flight_actions s)\<rparr>;
                 k = if_invocation entry
             in case running_counts s1 k of
                  None \<Rightarrow> s1
                | Some n \<Rightarrow>
                    s1\<lparr>running_counts := (running_counts s1)(k := (if n - 1 = 0 then None else Some (n - 1)))\<rparr>)
          else s)"

definition put_back :: "millis \<Rightarrow> executable_action \<Rightarrow> op_id \<Rightarrow> scheduler \<Rightarrow> scheduler" where
  "put_back now a sm s =
     (let s1 = undispatch (ea_action_digest a) s;
          p = ea_priority a
      in enqueued_stat p now
           (set_queue p (fq_push \<lparr>action = a, enqueued_at = now, state_machine = sm\<rparr> True (sched_queue p s1)) s1))"

definition requeue :: "millis \<Rightarrow> executable_action \<Rightarrow> op_id \<Rightarrow> scheduler \<Rightarrow> scheduler" where
  "requeue now a sm s = (put_back now a sm s)\<lparr>work_permit := True\<rparr>"

definition remove_unwatched ::
  "millis \<Rightarrow> millis \<Rightarrow> (op_id \<Rightarrow> machine) \<Rightarrow> scheduler \<Rightarrow> (executable_action \<times> op_id) list \<times> scheduler" where
  "remove_unwatched now grace mem s =
     (let gone = (\<lambda>item. unwatched_for now grace (mem (state_machine item)));
          (r1, q1) = drain_where gone (critical_queue s);
          s1 = s\<lparr>critical_queue := q1\<rparr>;
          (r2, q2) = drain_where gone (medium_queue s1)
      in (map (\<lambda>item. (action item, state_machine item)) (r1 @ r2), s1\<lparr>medium_queue := q2\<rparr>))"

definition mark_dispatched :: "digest_info \<Rightarrow> scheduler \<Rightarrow> scheduler" where
  "mark_dispatched d s =
     (case map_of (in_flight_actions s) d of
        None \<Rightarrow> s
      | Some entry \<Rightarrow>
          if \<not> dispatched entry then
            s\<lparr>in_flight_actions := alist_modify d (\<lambda>e. e\<lparr>dispatched := True\<rparr>) (in_flight_actions s),
              running_counts := (running_counts s)(if_invocation entry \<mapsto>
                 running_of (running_counts s) (if_invocation entry) + 1)\<rparr>
          else s)"

definition try_dequeue ::
  "(nat \<Rightarrow> int \<Rightarrow> 'f::linorder) \<Rightarrow> millis \<Rightarrow> queue_priority \<Rightarrow> scheduler \<Rightarrow> queue_item option \<times> scheduler" where
  "try_dequeue score now p s =
     (case fq_pop score (running_counts s) (sched_queue p s) of
        (None, q) \<Rightarrow> (None, s)
      | (Some item, q) \<Rightarrow>
          (Some item,
           dequeued_stat p now (mark_dispatched (ea_action_digest (action item)) (set_queue p q s))))"

definition dequeue ::
  "(nat \<Rightarrow> int \<Rightarrow> 'f::linorder) \<Rightarrow> millis \<Rightarrow> scheduler \<Rightarrow> (executable_action \<times> op_id) option \<times> scheduler" where
  "dequeue score now s =
     (case try_dequeue score now Critical s of
        (Some item, s1) \<Rightarrow> (Some (action item, state_machine item), s1)
      | (None, s1) \<Rightarrow>
          (case try_dequeue score now Medium s1 of
             (Some item, s2) \<Rightarrow> (Some (action item, state_machine item), s2)
           | (None, s2) \<Rightarrow> (None, s2)))"

definition complete_action :: "digest_info \<Rightarrow> scheduler \<Rightarrow> scheduler" where
  "complete_action d s =
     (let s1 = undispatch d s in s1\<lparr>in_flight_actions := AList.delete d (in_flight_actions s1)\<rparr>)"

definition queued_len :: "scheduler \<Rightarrow> nat" where
  "queued_len s = fq_len (critical_queue s) + fq_len (medium_queue s)"

record scheduler_queue_stats =
  critical_queued :: nat
  medium_queued :: nat
  in_flight :: nat

definition scheduler_stats :: "scheduler \<Rightarrow> scheduler_queue_stats" where
  "scheduler_stats s =
     \<lparr>critical_queued = fq_len (critical_queue s), medium_queued = fq_len (medium_queue s),
      in_flight = length (in_flight_actions s)\<rparr>"

definition has_work :: "scheduler \<Rightarrow> bool" where
  "has_work s = (\<not> fq_is_empty (critical_queue s) \<or> \<not> fq_is_empty (medium_queue s))"

fun release_stale :: "digest_info list \<Rightarrow> scheduler \<Rightarrow> nat \<Rightarrow> nat \<times> scheduler" where
  "release_stale [] s removed = (removed, s)"
| "release_stale (key # keys) s removed =
     (let s1 = undispatch key s in
      if map_of (in_flight_actions s1) key \<noteq> None
      then release_stale keys (s1\<lparr>in_flight_actions := AList.delete key (in_flight_actions s1)\<rparr>) (removed + 1)
      else release_stale keys s1 removed)"

definition cleanup_stale_actions :: "millis \<Rightarrow> millis \<Rightarrow> scheduler \<Rightarrow> nat \<times> scheduler" where
  "cleanup_stale_actions now max_age s =
     (let stale_keys = map fst (filter (\<lambda>(_, e). now - inserted_at e > max_age) (in_flight_actions s))
      in release_stale stale_keys s 0)"

definition display_stats :: "scheduler_queue_stats \<Rightarrow> string" where
  "display_stats st =
     ''Scheduler[critical='' @ show_nat (critical_queued st) @ '', medium='' @ show_nat (medium_queued st)
       @ '', in_flight='' @ show_nat (in_flight st) @ '']''"

section \<open>Invariants\<close>

definition dispatched_count :: "scheduler \<Rightarrow> string \<Rightarrow> nat" where
  "dispatched_count s k =
     length (filter (\<lambda>(_, e). dispatched e \<and> if_invocation e = k) (in_flight_actions s))"

definition sched_inv :: "scheduler \<Rightarrow> bool" where
  "sched_inv s \<longleftrightarrow>
     fq_inv (critical_queue s) \<and> fq_inv (medium_queue s) \<and> distinct (map fst (in_flight_actions s)) \<and>
     (\<forall>k. running_counts s k = (if dispatched_count s k = 0 then None else Some (dispatched_count s k)))"

text \<open>The identity of an action in the in-flight table, read from the action and from its entry.\<close>

definition track_action :: "executable_action \<Rightarrow> digest_info \<times> op_id \<times> string" where
  "track_action a = (ea_action_digest a, ea_operation_id a, invocation_of a)"

definition track_entry :: "digest_info \<times> in_flight_entry \<Rightarrow> digest_info \<times> op_id \<times> string" where
  "track_entry p = (case p of (d, e) \<Rightarrow> (d, if_operation_id e, if_invocation e))"

definition waiting_actions :: "scheduler \<Rightarrow> executable_action multiset" where
  "waiting_actions s = image_mset action (contents (critical_queue s) + contents (medium_queue s))"

section \<open>The bookkeeping of one entry\<close>

lemma dispatched_count_eq:
  "dispatched_count s k = count_entries (\<lambda>e. dispatched e \<and> if_invocation e = k) (in_flight_actions s)"
  by (simp add: dispatched_count_def count_entries_def)

definition counts_ok :: "scheduler \<Rightarrow> bool" where
  "counts_ok s \<longleftrightarrow> distinct (map fst (in_flight_actions s)) \<and>
     (\<forall>k. running_counts s k = (if dispatched_count s k = 0 then None else Some (dispatched_count s k)))"

lemma sched_inv_iff: "sched_inv s \<longleftrightarrow> fq_inv (critical_queue s) \<and> fq_inv (medium_queue s) \<and> counts_ok s"
  by (simp add: sched_inv_def counts_ok_def)

lemma undispatch_frame [simp]:
  "critical_queue (undispatch d s) = critical_queue s" "medium_queue (undispatch d s) = medium_queue s"
  "work_permit (undispatch d s) = work_permit s"
  by (simp_all add: undispatch_def Let_def split: option.splits)

lemma mark_dispatched_frame [simp]:
  "critical_queue (mark_dispatched d s) = critical_queue s" "medium_queue (mark_dispatched d s) = medium_queue s"
  by (simp_all add: mark_dispatched_def split: option.splits)

lemma undispatch_in_flight:
  "in_flight_actions (undispatch d s) =
     (if (\<exists>e. map_of (in_flight_actions s) d = Some e \<and> dispatched e)
      then alist_modify d (\<lambda>e. e\<lparr>dispatched := False\<rparr>) (in_flight_actions s) else in_flight_actions s)"
  by (simp add: undispatch_def Let_def split: option.splits)

lemma mark_dispatched_in_flight:
  "in_flight_actions (mark_dispatched d s) =
     (if (\<exists>e. map_of (in_flight_actions s) d = Some e \<and> \<not> dispatched e)
      then alist_modify d (\<lambda>e. e\<lparr>dispatched := True\<rparr>) (in_flight_actions s) else in_flight_actions s)"
  by (simp add: mark_dispatched_def split: option.splits)

lemma undispatch_track [simp]:
  "map fst (in_flight_actions (undispatch d s)) = map fst (in_flight_actions s)"
  "map track_entry (in_flight_actions (undispatch d s)) = map track_entry (in_flight_actions s)"
  by (simp_all add: undispatch_in_flight map_alist_modify track_entry_def)

lemma mark_dispatched_track [simp]:
  "map fst (in_flight_actions (mark_dispatched d s)) = map fst (in_flight_actions s)"
  "map track_entry (in_flight_actions (mark_dispatched d s)) = map track_entry (in_flight_actions s)"
  by (simp_all add: mark_dispatched_in_flight map_alist_modify track_entry_def)

lemma map_of_undispatch:
  "map_of (in_flight_actions (undispatch d s)) =
     (map_of (in_flight_actions s))(d := map_option (\<lambda>e. e\<lparr>dispatched := False\<rparr>) (map_of (in_flight_actions s) d))"
proof -
  have "e\<lparr>dispatched := False\<rparr> = e" if "\<not> dispatched e" for e using that by (cases e) simp
  then show ?thesis
    by (cases "map_of (in_flight_actions s) d") (auto simp: undispatch_in_flight fun_eq_iff)
qed

lemma counts_ok_undispatch:
  assumes "counts_ok s" shows "counts_ok (undispatch d s)"
proof (cases "\<exists>e. map_of (in_flight_actions s) d = Some e \<and> dispatched e")
  case True
  then obtain e where e: "map_of (in_flight_actions s) d = Some e" "dispatched e" by blast
  let ?k = "if_invocation e"
  have keys: "distinct (map fst (in_flight_actions s))" using assms by (simp add: counts_ok_def)
  have old: "dispatched_count s k =
      count_entries (\<lambda>e. dispatched e \<and> if_invocation e = k) (AList.delete d (in_flight_actions s)) + of_bool (?k = k)" for k
    using count_entries_delete [OF keys e(1)] e(2) by (simp add: dispatched_count_eq)
  have new: "dispatched_count (undispatch d s) k =
      count_entries (\<lambda>e. dispatched e \<and> if_invocation e = k) (AList.delete d (in_flight_actions s))" for k
    using count_entries_modify [OF keys e(1)] True by (simp add: dispatched_count_eq undispatch_in_flight)
  have run: "running_counts s k = (if dispatched_count s k = 0 then None else Some (dispatched_count s k))" for k
    using assms by (simp add: counts_ok_def)
  have "running_counts (undispatch d s) =
      (running_counts s)(?k := (if dispatched_count s ?k - 1 = 0 then None else Some (dispatched_count s ?k - 1)))"
    using e run [of ?k] old [of ?k] by (simp add: undispatch_def Let_def)
  then show ?thesis using keys run by (simp add: counts_ok_def old new)
next
  case False
  then have "undispatch d s = s" by (auto simp: undispatch_def split: option.splits)
  with assms show ?thesis by simp
qed

lemma counts_ok_mark_dispatched:
  assumes "counts_ok s" shows "counts_ok (mark_dispatched d s)"
proof (cases "\<exists>e. map_of (in_flight_actions s) d = Some e \<and> \<not> dispatched e")
  case True
  then obtain e where e: "map_of (in_flight_actions s) d = Some e" "\<not> dispatched e" by blast
  let ?k = "if_invocation e"
  have keys: "distinct (map fst (in_flight_actions s))" using assms by (simp add: counts_ok_def)
  have new: "dispatched_count (mark_dispatched d s) k = dispatched_count s k + of_bool (?k = k)" for k
    using count_entries_modify [OF keys e(1)] count_entries_delete [OF keys e(1)] e True
    by (simp add: dispatched_count_eq mark_dispatched_in_flight)
  have run: "running_counts s k = (if dispatched_count s k = 0 then None else Some (dispatched_count s k))" for k
    using assms by (simp add: counts_ok_def)
  have "running_counts (mark_dispatched d s) = (running_counts s)(?k \<mapsto> dispatched_count s ?k + 1)"
    using e run [of ?k] by (simp add: mark_dispatched_def running_of_def)
  then show ?thesis using keys run by (simp add: counts_ok_def new)
next
  case False
  then have "mark_dispatched d s = s" by (auto simp: mark_dispatched_def split: option.splits)
  with assms show ?thesis by simp
qed

lemma counts_ok_complete:
  assumes "counts_ok s" shows "counts_ok (complete_action d s)"
proof -
  let ?u = "undispatch d s"
  have u: "counts_ok ?u" by (rule counts_ok_undispatch [OF assms])
  have "count_entries (\<lambda>e. dispatched e \<and> if_invocation e = k) (AList.delete d (in_flight_actions ?u))
      = dispatched_count ?u k" for k
  proof (cases "map_of (in_flight_actions ?u) d")
    case None
    then have "AList.delete d (in_flight_actions ?u) = in_flight_actions ?u"
      by (simp add: delete_absent map_of_eq_None_iff)
    then show ?thesis by (simp add: dispatched_count_eq)
  next
    case (Some e)
    then have "\<not> dispatched e" by (auto simp: map_of_undispatch)
    then show ?thesis
      using count_entries_delete [OF _ Some] u by (simp add: counts_ok_def dispatched_count_eq)
  qed
  then show ?thesis
    using u by (simp add: counts_ok_def complete_action_def Let_def dispatched_count_eq distinct_delete)
qed


section \<open>Operations keep the invariant\<close>

lemma sched_queue_frame [simp]:
  "in_flight_actions (set_queue p q s) = in_flight_actions s"
  "running_counts (set_queue p q s) = running_counts s"
  "in_flight_actions (enqueued_stat p now s) = in_flight_actions s"
  "running_counts (enqueued_stat p now s) = running_counts s"
  "in_flight_actions (dequeued_stat p now s) = in_flight_actions s"
  "running_counts (dequeued_stat p now s) = running_counts s"
  "critical_queue (enqueued_stat p now s) = critical_queue s" "medium_queue (enqueued_stat p now s) = medium_queue s"
  "critical_queue (dequeued_stat p now s) = critical_queue s" "medium_queue (dequeued_stat p now s) = medium_queue s"
  by (cases p; simp add: set_queue_def enqueued_stat_def dequeued_stat_def)+

lemma counts_ok_cong:
  "in_flight_actions t = in_flight_actions s \<Longrightarrow> running_counts t = running_counts s \<Longrightarrow> counts_ok t = counts_ok s"
  by (simp add: counts_ok_def dispatched_count_eq)

lemma sched_inv_set_queue:
  "sched_inv s \<Longrightarrow> fq_inv q \<Longrightarrow> sched_inv (set_queue p q s)"
  using counts_ok_cong [of "set_queue p q s" s]
  by (cases p) (simp_all add: sched_inv_iff set_queue_def)

lemma sched_inv_stat [simp]:
  "sched_inv (enqueued_stat p now s) = sched_inv s" "sched_inv (dequeued_stat p now s) = sched_inv s"
  "sched_inv (s\<lparr>work_permit := b\<rparr>) = sched_inv s"
  using counts_ok_cong [of "enqueued_stat p now s" s] counts_ok_cong [of "dequeued_stat p now s" s]
    counts_ok_cong [of "s\<lparr>work_permit := b\<rparr>" s]
  by (simp_all add: sched_inv_iff)

lemma sched_inv_queue: "sched_inv s \<Longrightarrow> fq_inv (sched_queue p s)"
  by (cases p) (simp_all add: sched_inv_iff sched_queue_def)

lemma sched_inv_undispatch [inv_intros]: "sched_inv s \<Longrightarrow> sched_inv (undispatch d s)"
  by (simp add: sched_inv_iff counts_ok_undispatch)

lemma sched_inv_mark_dispatched [inv_intros]: "sched_inv s \<Longrightarrow> sched_inv (mark_dispatched d s)"
  by (simp add: sched_inv_iff counts_ok_mark_dispatched)

lemma sched_inv_complete [inv_intros]: "sched_inv s \<Longrightarrow> sched_inv (complete_action d s)"
  using counts_ok_complete [of s d] by (simp add: sched_inv_iff) (simp add: complete_action_def Let_def)

lemma sched_inv_new [inv_intros]: "sched_inv (scheduler_new now)"
  by (simp add: sched_inv_def scheduler_new_def fq_inv_new dispatched_count_def)

lemma sched_inv_enqueue [inv_intros]:
  assumes "sched_inv s" shows "sched_inv (snd (enqueue now a sm s))"
proof (cases "map_of (in_flight_actions s) (ea_action_digest a)")
  case None
  let ?s = "s\<lparr>in_flight_actions := AList.update (ea_action_digest a)
      \<lparr>if_operation_id = ea_operation_id a, inserted_at = now, if_invocation = invocation_of a,
       dispatched = False\<rparr> (in_flight_actions s)\<rparr>"
  have "dispatched_count ?s k = dispatched_count s k" for k
    using count_entries_update [OF None] by (simp add: dispatched_count_eq)
  then have s: "sched_inv ?s" using assms by (simp add: sched_inv_def distinct_update)
  show ?thesis
    using sched_inv_set_queue [OF s fq_push_inv [OF sched_inv_queue [OF s]]]
    by (simp add: enqueue_def None Let_def)
qed (simp add: enqueue_def assms)

lemma sched_inv_put_back [inv_intros]: "sched_inv s \<Longrightarrow> sched_inv (put_back now a sm s)"
  by (simp add: put_back_def Let_def sched_inv_set_queue sched_inv_undispatch fq_push_inv sched_inv_queue)

lemma sched_inv_requeue [inv_intros]: "sched_inv s \<Longrightarrow> sched_inv (requeue now a sm s)"
  by (simp add: requeue_def sched_inv_put_back)

lemma sched_inv_remove_unwatched [inv_intros]:
  "sched_inv s \<Longrightarrow> sched_inv (snd (remove_unwatched now grace mem s))"
proof -
  assume s: "sched_inv s"
  define P where "P = (\<lambda>item :: queue_item. unwatched_for now grace (mem (state_machine item)))"
  have "snd (remove_unwatched now grace mem s) =
      set_queue Medium (snd (drain_where P (medium_queue s))) (set_queue Critical (snd (drain_where P (critical_queue s))) s)"
    by (simp add: remove_unwatched_def Let_def set_queue_def P_def split: prod.splits)
  moreover have "fq_inv (critical_queue s)" "fq_inv (medium_queue s)"
    using s by (simp_all add: sched_inv_iff)
  ultimately show ?thesis using s by (simp add: sched_inv_set_queue fq_inv_drain)
qed

lemma sched_inv_try_dequeue:
  "sched_inv s \<Longrightarrow> try_dequeue score now p s = (r, s') \<Longrightarrow> sched_inv s'"
  by (auto simp: try_dequeue_def split: prod.splits option.splits
      intro!: sched_inv_mark_dispatched sched_inv_set_queue fq_pop_spec [OF sched_inv_queue, THEN conjunct1])

lemma sched_inv_dequeue [inv_intros]: "sched_inv s \<Longrightarrow> sched_inv (snd (dequeue score now s))"
  by (auto simp: dequeue_def dest: sched_inv_try_dequeue split: prod.splits option.splits)

lemma release_stale_inv: "sched_inv s \<Longrightarrow> sched_inv (snd (release_stale keys s n))"
proof (induction keys arbitrary: s n)
  case (Cons key keys)
  have "sched_inv ((undispatch key s)\<lparr>in_flight_actions := AList.delete key (in_flight_actions (undispatch key s))\<rparr>)"
    using sched_inv_complete [OF Cons.prems, of key] by (simp add: complete_action_def Let_def)
  with Cons show ?case by (simp add: Let_def sched_inv_undispatch)
qed simp

lemma sched_inv_cleanup [inv_intros]: "sched_inv s \<Longrightarrow> sched_inv (snd (cleanup_stale_actions now age s))"
  by (simp add: cleanup_stale_actions_def Let_def release_stale_inv)

section \<open>One action per digest\<close>

text \<open>
  The protocol between the scheduler and its caller: \<open>out\<close> is the multiset of actions the caller
  holds, taken by \<open>dequeue\<close> or \<open>remove_unwatched\<close> and given back by \<open>put_back\<close>, \<open>requeue\<close> or
  \<open>complete_action\<close>. The caller may change an action it holds (its worker losses), not its identity.
\<close>

inductive sched_flow :: "scheduler \<Rightarrow> executable_action multiset \<Rightarrow> bool" where
  flow_start: "sched_flow (scheduler_new now) {#}"
| flow_enqueue: "sched_flow s out \<Longrightarrow> sched_flow (snd (enqueue now a sm s)) out"
| flow_dequeue: "sched_flow s out \<Longrightarrow> dequeue (score :: nat \<Rightarrow> int \<Rightarrow> real) now s = (Some (a, sm), s') \<Longrightarrow>
    sched_flow s' (add_mset a out)"
| flow_put_back: "sched_flow s (add_mset a out) \<Longrightarrow> track_action a' = track_action a \<Longrightarrow>
    sched_flow (put_back now a' sm s) out"
| flow_requeue: "sched_flow s (add_mset a out) \<Longrightarrow> track_action a' = track_action a \<Longrightarrow>
    sched_flow (requeue now a' sm s) out"
| flow_unwatched: "sched_flow s out \<Longrightarrow> remove_unwatched now grace mem s = (rs, s') \<Longrightarrow>
    sched_flow s' (mset (map fst rs) + out)"
| flow_complete: "sched_flow s (add_mset a out) \<Longrightarrow>
    sched_flow (complete_action (ea_action_digest a) s) out"

definition flow_inv :: "scheduler \<Rightarrow> executable_action multiset \<Rightarrow> bool" where
  "flow_inv s out \<longleftrightarrow> sched_inv s \<and>
     image_mset track_action (waiting_actions s + out) = mset (map track_entry (in_flight_actions s))"

lemma waiting_frame [simp]:
  "waiting_actions (undispatch d s) = waiting_actions s"
  "waiting_actions (mark_dispatched d s) = waiting_actions s"
  "waiting_actions (enqueued_stat p now s) = waiting_actions s"
  "waiting_actions (dequeued_stat p now s) = waiting_actions s"
  "waiting_actions (s\<lparr>work_permit := b\<rparr>) = waiting_actions s"
  "waiting_actions (s\<lparr>in_flight_actions := al\<rparr>) = waiting_actions s"
  by (simp_all add: waiting_actions_def)

lemma waiting_push:
  "fq_inv (sched_queue p s) \<Longrightarrow>
   waiting_actions (set_queue p (fq_push item front (sched_queue p s)) s) = add_mset (action item) (waiting_actions s)"
  by (cases p) (simp_all add: waiting_actions_def set_queue_def sched_queue_def contents_push)

lemma waiting_pop:
  assumes "fq_inv (sched_queue p s)" "fq_pop score run (sched_queue p s) = (Some item, q)"
  shows "waiting_actions s = add_mset (action item) (waiting_actions (set_queue p q s))"
  using fq_pop_spec [OF assms] by (cases p) (simp_all add: waiting_actions_def set_queue_def sched_queue_def)

lemma flow_inv_enqueue:
  assumes "flow_inv s out" shows "flow_inv (snd (enqueue now a sm s)) out"
proof (cases "map_of (in_flight_actions s) (ea_action_digest a)")
  case None
  let ?e = "\<lparr>if_operation_id = ea_operation_id a, inserted_at = now, if_invocation = invocation_of a, dispatched = False\<rparr>"
  let ?s = "s\<lparr>in_flight_actions := AList.update (ea_action_digest a) ?e (in_flight_actions s)\<rparr>"
  have "AList.update (ea_action_digest a) ?e (in_flight_actions s) = in_flight_actions s @ [(ea_action_digest a, ?e)]"
    by (rule update_fresh [OF None])
  moreover have "waiting_actions (snd (enqueue now a sm s)) = add_mset a (waiting_actions s)"
    using assms waiting_push [of "ea_priority a" ?s]
    by (simp add: enqueue_def None Let_def flow_inv_def sched_inv_iff sched_queue_def split: queue_priority.splits)
  ultimately show ?thesis
    using assms sched_inv_enqueue [of s now a sm]
    by (simp add: flow_inv_def enqueue_def None Let_def track_action_def track_entry_def)
qed (use assms in \<open>simp add: enqueue_def\<close>)

lemma flow_inv_put_back:
  assumes "flow_inv s (add_mset a out)" "track_action a' = track_action a"
  shows "flow_inv (put_back now a' sm s) out"
proof -
  have "sched_inv (undispatch (ea_action_digest a') s)"
    using assms(1) by (simp add: flow_inv_def sched_inv_undispatch)
  then have "waiting_actions (put_back now a' sm s) = add_mset a' (waiting_actions s)"
    using waiting_push [OF sched_inv_queue] by (simp add: put_back_def Let_def)
  moreover have "map track_entry (in_flight_actions (put_back now a' sm s)) = map track_entry (in_flight_actions s)"
    by (simp add: put_back_def Let_def)
  ultimately show ?thesis
    using assms by (simp add: flow_inv_def sched_inv_put_back del: map_eq_conv)
qed

lemma flow_inv_permit [simp]: "flow_inv (s\<lparr>work_permit := b\<rparr>) out = flow_inv s out"
  by (simp add: flow_inv_def)

lemma flow_inv_try_dequeue:
  assumes "flow_inv s out" "try_dequeue score now p s = (Some item, s')"
  shows "flow_inv s' (add_mset (action item) out)"
proof -
  have q: "fq_inv (sched_queue p s)" using assms(1) by (simp add: flow_inv_def sched_inv_queue)
  from assms(2) obtain r where r: "fq_pop score (running_counts s) (sched_queue p s) = (Some item, r)"
    "s' = dequeued_stat p now (mark_dispatched (ea_action_digest (action item)) (set_queue p r s))"
    by (auto simp: try_dequeue_def split: prod.splits option.splits)
  have "sched_inv s'" using assms by (auto simp: flow_inv_def intro: sched_inv_try_dequeue)
  moreover have "map track_entry (in_flight_actions s') = map track_entry (in_flight_actions s)"
    by (simp add: r(2))
  ultimately show ?thesis
    using assms(1) waiting_pop [OF q r(1)] by (simp add: flow_inv_def r(2) del: map_eq_conv)
qed

lemma flow_inv_complete:
  assumes "flow_inv s (add_mset a out)"
  shows "flow_inv (complete_action (ea_action_digest a) s) out"
proof -
  let ?d = "ea_action_digest a" and ?al = "in_flight_actions (undispatch (ea_action_digest a) s)"
  have keys: "distinct (map fst ?al)" using assms by (simp add: flow_inv_def sched_inv_def)
  have eq: "image_mset track_action (waiting_actions s + add_mset a out) = mset (map track_entry ?al)"
    using assms by (simp add: flow_inv_def del: map_eq_conv)
  then have "track_action a \<in># mset (map track_entry ?al)"
    by (metis image_mset_add_mset union_mset_add_mset_right union_single_eq_member)
  then have "track_action a \<in> track_entry ` set ?al" by (simp only: set_mset_mset set_map)
  then obtain e where e: "(?d, e) \<in> set ?al" "track_entry (?d, e) = track_action a"
    by (auto simp: track_action_def track_entry_def)
  have "image_mset track_action (waiting_actions s + out) = image_mset track_entry (mset (AList.delete ?d ?al))"
    using eq mset_delete_entry [OF keys e(1)] e(2) by (simp del: undispatch_track)
  moreover have "sched_inv (complete_action ?d s)"
    using assms by (simp add: flow_inv_def sched_inv_complete)
  ultimately show ?thesis by (simp add: flow_inv_def complete_action_def Let_def)
qed

lemma flow_inv_unwatched:
  assumes "flow_inv s out" "remove_unwatched now grace mem s = (rs, s')"
  shows "flow_inv s' (mset (map fst rs) + out)"
proof -
  define P where "P = (\<lambda>item :: queue_item. unwatched_for now grace (mem (state_machine item)))"
  have rs: "rs = map (\<lambda>item. (action item, state_machine item))
      (fst (drain_where P (critical_queue s)) @ fst (drain_where P (medium_queue s)))"
    and s': "s' = s\<lparr>critical_queue := snd (drain_where P (critical_queue s)),
      medium_queue := snd (drain_where P (medium_queue s))\<rparr>"
    using assms(2) by (simp_all add: remove_unwatched_def Let_def P_def split: prod.splits)
  have out: "mset (map fst rs) = image_mset action (filter_mset P (contents (critical_queue s)))
      + image_mset action (filter_mset P (contents (medium_queue s)))"
    by (simp add: rs contents_drain(1) [symmetric] image_mset.compositionality comp_def)
  have part: "image_mset action M = image_mset action (filter_mset P M) +
      image_mset action (filter_mset (\<lambda>i. \<not> P i) M)" for M :: "queue_item multiset"
    by (metis image_mset_union multiset_partition)
  have "waiting_actions s = waiting_actions s' + mset (map fst rs)"
    unfolding out waiting_actions_def image_mset_union
    by (subst (1 2) part) (simp add: s' contents_drain ac_simps)
  moreover have "sched_inv s'"
    using sched_inv_remove_unwatched [of s now grace mem] assms by (simp add: flow_inv_def)
  ultimately show ?thesis
    using assms(1) by (simp add: flow_inv_def s' ac_simps)
qed


lemma flow_inv_dequeue:
  assumes "flow_inv s out" "dequeue score now s = (Some (a, sm), s')"
  shows "flow_inv s' (add_mset a out)"
proof (cases "try_dequeue score now Critical s")
  case (Pair r s1)
  show ?thesis
  proof (cases r)
    case None
    with Pair have "s1 = s" by (auto simp: try_dequeue_def split: prod.splits option.splits)
    with None Pair assms(2) obtain item where "try_dequeue score now Medium s = (Some item, s')" "a = action item"
      by (auto simp: dequeue_def split: prod.splits option.splits)
    then show ?thesis using flow_inv_try_dequeue [OF assms(1)] by simp
  next
    case (Some item)
    with Pair assms(2) have "try_dequeue score now Critical s = (Some item, s')" "a = action item"
      by (auto simp: dequeue_def)
    then show ?thesis using flow_inv_try_dequeue [OF assms(1)] by simp
  qed
qed

lemma sched_flow_inv: "sched_flow s out \<Longrightarrow> flow_inv s out"
proof (induction rule: sched_flow.induct)
  case (flow_start now)
  then show ?case
    by (simp add: flow_inv_def sched_inv_new) (simp add: scheduler_new_def waiting_actions_def fq_new_def contents_def)
next
  case (flow_requeue s a out a' now sm)
  then show ?case using flow_inv_put_back by (simp add: requeue_def)
next
  case (flow_unwatched s out now grace mem rs s')
  then show ?case by (blast intro: flow_inv_unwatched)
qed (simp_all add: flow_inv_enqueue flow_inv_dequeue flow_inv_put_back flow_inv_unwatched flow_inv_complete)

lemma size_filter_image: "size (filter_mset (\<lambda>x. f x = y) M) = count (image_mset f M) y"
  by (induction M) auto

lemma flow_inv_digests:
  assumes "flow_inv s out"
  shows "image_mset ea_action_digest (waiting_actions s + out) = mset (map fst (in_flight_actions s))"
proof -
  have "image_mset fst (image_mset track_action (waiting_actions s + out))
      = image_mset fst (mset (map track_entry (in_flight_actions s)))"
    using assms by (simp add: flow_inv_def)
  then show ?thesis
    by (simp add: image_mset.compositionality comp_def track_action_def track_entry_def split_beta)
qed




section \<open>Everything the server does with the scheduler\<close>

inductive sched_reachable :: "scheduler \<Rightarrow> bool" where
  sched_start: "sched_reachable (scheduler_new now)"
| sched_enqueue: "sched_reachable s \<Longrightarrow> sched_reachable (snd (enqueue now a sm s))"
| sched_put_back: "sched_reachable s \<Longrightarrow> sched_reachable (put_back now a sm s)"
| sched_requeue: "sched_reachable s \<Longrightarrow> sched_reachable (requeue now a sm s)"
| sched_dequeue: "sched_reachable s \<Longrightarrow> sched_reachable (snd (dequeue (score :: nat \<Rightarrow> int \<Rightarrow> real) now s))"
| sched_unwatched: "sched_reachable s \<Longrightarrow> sched_reachable (snd (remove_unwatched now grace mem s))"
| sched_complete: "sched_reachable s \<Longrightarrow> sched_reachable (complete_action d s)"
| sched_cleanup: "sched_reachable s \<Longrightarrow> sched_reachable (snd (cleanup_stale_actions now age s))"

lemma sched_reachable_sched_inv: "sched_reachable s \<Longrightarrow> sched_inv s"
  by (induction rule: sched_reachable.induct) (simp_all add: inv_intros)

text \<open>
  C35: the running counts that drive fairness are exact under every use of the scheduler,
  including expiry of stale entries and completion of unknown digests: an invocation's count is
  the number of its entries that are out of the queues, and it has no count when there is none,
  so a decrement never underflows.
\<close>

theorem running_counts_exact:
  "sched_reachable s \<Longrightarrow>
     running_counts s k = (if dispatched_count s k = 0 then None else Some (dispatched_count s k)) \<and>
     fq_inv (critical_queue s) \<and> fq_inv (medium_queue s)"
  using sched_reachable_sched_inv [of s] by (simp add: sched_inv_def)

theorem running_counts_exact_witness:
  "running_counts (snd (dequeue fair_score 1 (snd (enqueue 0 (plain_action 1 ''i'' \<lparr>hash = [], dsize = 1\<rparr>) 1 (scheduler_new 0))))) ''i''
   = Some (dispatched_count (snd (dequeue fair_score 1 (snd (enqueue 0 (plain_action 1 ''i'' \<lparr>hash = [], dsize = 1\<rparr>) 1 (scheduler_new 0))))) ''i'')"
proof -
  let ?s = "snd (dequeue fair_score 1 (snd (enqueue 0 (plain_action 1 ''i'' \<lparr>hash = [], dsize = 1\<rparr>) 1 (scheduler_new 0))))"
  have "sched_reachable ?s" by (intro sched_dequeue sched_enqueue sched_start)
  from running_counts_exact [OF this, of "''i''", THEN conjunct1]
  have "running_counts ?s ''i'' = (if dispatched_count ?s ''i'' = 0 then None else Some (dispatched_count ?s ''i''))" .
  moreover have "running_counts ?s ''i'' \<noteq> None"
    by (simp add: enqueue_def scheduler_new_def Let_def dequeue_def try_dequeue_def sched_queue_def set_queue_def
        fq_pop_def fq_push_def fq_new_def enqueued_stat_def dequeued_stat_def mark_dispatched_def running_of_def
        plain_action_def invocation_of_def)
  ultimately show ?thesis by presburger
qed

lemma enqueue_spec:
  assumes "sched_inv s"
  shows "case map_of (in_flight_actions s) (ea_action_digest a) of
           Some e \<Rightarrow> enqueue now a sm s = (if_operation_id e, s)
         | None \<Rightarrow>
             (\<exists>s'. enqueue now a sm s = (ea_operation_id a, s') \<and>
                waiting_actions s' = add_mset a (waiting_actions s) \<and> queued_len s' = queued_len s + 1 \<and>
                map_of (in_flight_actions s') = (map_of (in_flight_actions s))(ea_action_digest a \<mapsto>
                  \<lparr>if_operation_id = ea_operation_id a, inserted_at = now, if_invocation = invocation_of a,
                   dispatched = False\<rparr>) \<and> work_permit s')"
proof (cases "map_of (in_flight_actions s) (ea_action_digest a)")
  case None
  let ?s = "s\<lparr>in_flight_actions := AList.update (ea_action_digest a)
    \<lparr>if_operation_id = ea_operation_id a, inserted_at = now, if_invocation = invocation_of a, dispatched = False\<rparr> (in_flight_actions s)\<rparr>"
  have "waiting_actions (snd (enqueue now a sm s)) = add_mset a (waiting_actions s)"
    using assms waiting_push [of "ea_priority a" ?s]
    by (simp add: enqueue_def None Let_def sched_inv_iff sched_queue_def split: queue_priority.splits)
  moreover have "queued_len (snd (enqueue now a sm s)) = queued_len s + 1"
    by (cases "ea_priority a")
      (simp_all add: enqueue_def None Let_def queued_len_def set_queue_def sched_queue_def enqueued_stat_def fq_push_def)
  ultimately show ?thesis by (simp add: None enqueue_def Let_def)
qed (simp add: enqueue_def)

text \<open>
  Queueing an action whose digest is in flight changes nothing and returns the operation
  that owns it; otherwise the action waits, its digest is in flight and not yet dispatched, no
  other entry changes, and the operation returned is its own.
\<close>

theorem enqueue_merges:
  assumes "sched_inv s"
  shows "case map_of (in_flight_actions s) (ea_action_digest a) of
           Some e \<Rightarrow> enqueue now a sm s = (if_operation_id e, s)
         | None \<Rightarrow>
             (\<exists>s'. enqueue now a sm s = (ea_operation_id a, s') \<and>
                waiting_actions s' = add_mset a (waiting_actions s) \<and> queued_len s' = queued_len s + 1 \<and>
                map_of (in_flight_actions s') = (map_of (in_flight_actions s))(ea_action_digest a \<mapsto>
                  \<lparr>if_operation_id = ea_operation_id a, inserted_at = now, if_invocation = invocation_of a,
                   dispatched = False\<rparr>) \<and> work_permit s')"
  by (rule enqueue_spec [OF assms])

theorem enqueue_merges_witness:
  "let a = plain_action 1 ''i'' \<lparr>hash = [], dsize = 1\<rparr>; s = snd (enqueue 0 a 1 (scheduler_new 0))
   in fst (enqueue 5 (plain_action 2 ''j'' \<lparr>hash = [], dsize = 1\<rparr>) 2 s) = 1"
proof -
  let ?s = "snd (enqueue 0 (plain_action 1 ''i'' \<lparr>hash = [], dsize = 1\<rparr>) 1 (scheduler_new 0))"
  have "sched_inv ?s" by (intro inv_intros)
  from enqueue_merges [OF this, where a = "plain_action 2 ''j'' \<lparr>hash = [], dsize = 1\<rparr>" and now = 5 and sm = 2]
  show ?thesis
    by (simp add: Let_def enqueue_def [of 0] scheduler_new_def plain_action_def)
qed


lemma try_dequeue_None:
  "sched_inv s \<Longrightarrow> try_dequeue score now p s = (None, s') \<Longrightarrow> s' = s \<and> contents (sched_queue p s) = {#}"
  using fq_pop_None [OF sched_inv_queue [of s p], of score "running_counts s"]
  by (auto simp: try_dequeue_def split: prod.splits option.splits)

lemma try_dequeue_Some:
  assumes "sched_inv s" "try_dequeue score now p s = (Some item, s')"
  shows "item \<in># contents (sched_queue p s) \<and> waiting_actions s = add_mset (action item) (waiting_actions s')"
proof -
  from assms(2) obtain r where r: "fq_pop score (running_counts s) (sched_queue p s) = (Some item, r)"
    "s' = dequeued_stat p now (mark_dispatched (ea_action_digest (action item)) (set_queue p r s))"
    by (auto simp: try_dequeue_def split: prod.splits option.splits)
  show ?thesis
    using fq_pop_spec [OF sched_inv_queue [OF assms(1)] r(1)] waiting_pop [OF sched_inv_queue [OF assms(1)] r(1)]
    by (simp add: r(2))
qed

text \<open>
  The scheduler is work conserving and serves the critical queue first. It returns nothing
  only when both queues are empty; otherwise it returns a waiting action and leaves the others,
  and while a critical action waits it returns a critical one.
\<close>

theorem dequeue_critical_first:
  assumes "sched_inv s"
  shows "case dequeue score now s of
           (None, s') \<Rightarrow> s' = s \<and> waiting_actions s = {#}
         | (Some (a, sm), s') \<Rightarrow>
             waiting_actions s = add_mset a (waiting_actions s') \<and>
             (if contents (critical_queue s) \<noteq> {#} then a \<in># image_mset action (contents (critical_queue s))
              else a \<in># image_mset action (contents (medium_queue s)))"
proof (cases "try_dequeue score now Critical s")
  case (Pair r s1)
  show ?thesis
  proof (cases r)
    case (Some item)
    with Pair show ?thesis
      using try_dequeue_Some [OF assms, of score now Critical item s1]
      by (auto simp: dequeue_def sched_queue_def)
  next
    case None
    with Pair have s1: "s1 = s" "contents (critical_queue s) = {#}"
      using try_dequeue_None [OF assms, of score now Critical s1] by (simp_all add: sched_queue_def)
    obtain r2 s2 where m: "try_dequeue score now Medium s = (r2, s2)" by fastforce
    show ?thesis
    proof (cases r2)
      case None
      then show ?thesis
        using m s1 Pair \<open>r = None\<close> try_dequeue_None [OF assms, of score now Medium s2]
        by (simp add: dequeue_def waiting_actions_def sched_queue_def)
    next
      case (Some item)
      then show ?thesis
        using m s1 Pair \<open>r = None\<close> try_dequeue_Some [OF assms, of score now Medium item s2]
        by (simp add: dequeue_def sched_queue_def)
    qed
  qed
qed

theorem dequeue_critical_first_witness:
  "case dequeue fair_score 1 (scheduler_new 0) of
     (None, s') \<Rightarrow> s' = scheduler_new 0 \<and> waiting_actions (scheduler_new 0) = {#} | (Some r, s') \<Rightarrow> False"
  using dequeue_critical_first [OF sched_inv_new, where score = fair_score and now = 1]
  by (simp add: dequeue_def try_dequeue_def scheduler_new_def sched_queue_def fq_pop_def fq_new_def)

text \<open>
  Expiring stale entries breaks the merge of identical actions. An action that waits longer
  than the limit is released while it is still queued, so an identical action queued later waits
  beside it, and completing one of the two releases the digest for both.
\<close>

theorem stale_cleanup_duplicates:
  assumes "sched_inv s" and "map_of (in_flight_actions s) (ea_action_digest a) = None"
    and "ea_action_digest b = ea_action_digest a" and "age < later - now"
  shows "let s1 = snd (cleanup_stale_actions later age (snd (enqueue now a sm s)));
             s2 = snd (enqueue later b sm' s1)
         in {#a, b#} \<subseteq># waiting_actions s2 \<and>
            map_of (in_flight_actions (complete_action (ea_action_digest a) s2)) (ea_action_digest b) = None"
proof -
  let ?s0 = "snd (enqueue now a sm s)" and ?d = "ea_action_digest a"
  have s0: "sched_inv ?s0" by (rule sched_inv_enqueue [OF assms(1)])
  obtain e where e: "map_of (in_flight_actions ?s0) ?d = Some e" "inserted_at e = now" and w: "a \<in># waiting_actions ?s0"
    using enqueue_spec [OF assms(1), where a = a and now = now and sm = sm] assms(2) by auto
  have keep: "waiting_actions (snd (release_stale ks t n)) = waiting_actions t" for ks t n
    by (induction ks arbitrary: t n) (simp_all add: Let_def)
  have gone: "map_of (in_flight_actions (snd (release_stale ks t n))) ?d = None"
    if "?d \<in> set ks \<or> map_of (in_flight_actions t) ?d = None" for ks t n
    using that by (induction ks arbitrary: t n) (auto simp: Let_def map_of_undispatch)
  let ?s1 = "snd (cleanup_stale_actions later age ?s0)"
  have "?d \<in> set (map fst (filter (\<lambda>(_, e). later - inserted_at e > age) (in_flight_actions ?s0)))"
    using map_of_SomeD [OF e(1)] e(2) assms(4) by force
  then have s1: "map_of (in_flight_actions ?s1) ?d = None" "a \<in># waiting_actions ?s1" "sched_inv ?s1"
    using gone keep w sched_inv_cleanup [OF s0] by (simp_all add: cleanup_stale_actions_def Let_def)
  have "waiting_actions (snd (enqueue later b sm' ?s1)) = add_mset b (waiting_actions ?s1)"
    using enqueue_spec [OF s1(3), where a = b and now = later and sm = sm'] s1(1) assms(3) by auto
  then have "{#a, b#} \<subseteq># waiting_actions (snd (enqueue later b sm' ?s1))"
    using s1(2) by (simp add: add_mset_commute [of a b])
  then show ?thesis using assms(3) by (simp add: Let_def complete_action_def)
qed

theorem stale_cleanup_duplicates_witness:
  "let a = plain_action 1 ''i'' \<lparr>hash = [], dsize = 1\<rparr>; b = plain_action 2 ''j'' \<lparr>hash = [], dsize = 1\<rparr>;
       s1 = snd (cleanup_stale_actions 10 5 (snd (enqueue 0 a 1 (scheduler_new 0))))
   in {#a, b#} \<subseteq># waiting_actions (snd (enqueue 10 b 2 s1))"
  using stale_cleanup_duplicates [OF sched_inv_new, where a = "plain_action 1 ''i'' \<lparr>hash = [], dsize = 1\<rparr>"
      and b = "plain_action 2 ''j'' \<lparr>hash = [], dsize = 1\<rparr>" and age = 5 and later = 10 and now = 0 and sm = 1
      and sm' = 2]
  by (simp add: Let_def scheduler_new_def plain_action_def)

end
