(* ===== verification/Engine.thy ===== *)
theory Engine
  imports Scheduler
begin

text \<open>
  \<open>execution/engine.rs\<close> and \<open>execution/results.rs\<close>: dispatching queued actions to workers,
  collecting results, re-queueing what a lost worker held, and the periodic sweep. Each handler of
  the engine's three tasks is one function on the record \<open>engine\<close>; a run of the engine is a
  sequence of handler calls. The \<open>ExecuteResponse\<close> is a type parameter and the \<open>ResultRecorder\<close>
  an argument \<open>record_result\<close>; \<open>recorded\<close> lists its calls and \<open>outbox\<close> the messages sent to
  worker streams. Whether a stream takes a message is the argument \<open>send\<close>.
\<close>

section \<open>Results\<close>

record 'resp finished_operation =
  fo_result :: execution_result
  fo_response :: 'resp

record 'resp result_entry =
  finished :: "'resp finished_operation"
  stored_at :: millis

type_synonym 'resp results_store = "(op_id \<times> 'resp result_entry) list"

definition results_put :: "millis \<Rightarrow> op_id \<Rightarrow> 'resp finished_operation \<Rightarrow> 'resp results_store \<Rightarrow> 'resp results_store" where
  "results_put now op fin rs = AList.update op \<lparr>finished = fin, stored_at = now\<rparr> rs"

definition results_get :: "op_id \<Rightarrow> 'resp results_store \<Rightarrow> 'resp finished_operation option" where
  "results_get op rs = map_option finished (map_of rs op)"

definition results_remove :: "op_id \<Rightarrow> 'resp results_store \<Rightarrow> 'resp finished_operation option \<times> 'resp results_store" where
  "results_remove op rs = (map_option finished (map_of rs op), AList.delete op rs)"

text \<open>\<open>Instant\<close> minus the maximal age saturates here; the process runs longer than it when it matters.\<close>

definition cleanup_old :: "millis \<Rightarrow> nat \<Rightarrow> 'resp results_store \<Rightarrow> nat \<times> 'resp results_store" where
  "cleanup_old now max_age_secs rs =
     (let cutoff = now - max_age_secs * 1000;
          kept = filter (\<lambda>(_, e). stored_at e \<ge> cutoff) rs
      in (length rs - length kept, kept))"

section \<open>Names on the wire\<close>

definition EXECUTION_ID_PREFIX :: string where
  "EXECUTION_ID_PREFIX = ''exec-''"

definition execution_id :: "op_id \<Rightarrow> string" where
  "execution_id op = EXECUTION_ID_PREFIX @ show_nat op"

text \<open>\<open>trim_start_matches\<close> drops the prefix as often as it is there.\<close>

function trim_start_matches :: "string \<Rightarrow> string \<Rightarrow> string" where
  "trim_start_matches p s =
     (if p \<noteq> [] \<and> take (length p) s = p then trim_start_matches p (drop (length p) s) else s)"
  by pat_completeness auto
termination
proof (relation "measure (\<lambda>(p, s). length s)"; simp)
  fix p s :: string
  assume "p \<noteq> [] \<and> take (length p) s = p"
  then have "0 < length p" "length p \<le> length s"
    by (auto dest: arg_cong [of _ _ length])
  then show "length s - length p < length s" by arith
qed

declare trim_start_matches.simps [simp del]

definition operation_id_of :: "string \<Rightarrow> op_id option" where
  "operation_id_of eid = parse_unsigned 64 (trim_start_matches EXECUTION_ID_PREFIX eid)"

section \<open>The engine\<close>

datatype worker_report = Result string execution_result | Lost string

record active_execution =
  ax_worker_id :: string
  ax_action :: executable_action

record 'resp engine =
  eng_scheduler :: scheduler
  eng_registry :: registry
  eng_machines :: machine_manager
  eng_results :: "'resp results_store"
  result_queue :: "worker_report list"
  active_executions :: "(op_id \<times> active_execution) list"
  max_worker_losses :: nat
  heartbeat_timeout :: millis
  unwatched_timeout :: millis
  recorded :: "(executable_action option \<times> op_id \<times> execution_result) list"
  outbox :: "(nat \<times> work_assignment) list"

definition DEFAULT_MAX_WORKER_LOSSES :: nat where
  "DEFAULT_MAX_WORKER_LOSSES = 3"

definition DEFAULT_RESULTS_TTL_SECS :: nat where
  "DEFAULT_RESULTS_TTL_SECS = 3600"

definition STALE_ACTION_AGE :: millis where
  "STALE_ACTION_AGE = 3600000"

text \<open>Limits read from the environment: the variable if it parses (and is positive where asked), the default otherwise.\<close>

definition losses_from_env :: "string option \<Rightarrow> nat" where
  "losses_from_env v =
     (case v of None \<Rightarrow> DEFAULT_MAX_WORKER_LOSSES
      | Some s \<Rightarrow> (case parse_unsigned 32 s of None \<Rightarrow> DEFAULT_MAX_WORKER_LOSSES | Some n \<Rightarrow> n))"

definition timeout_from_env :: "millis \<Rightarrow> string option \<Rightarrow> millis" where
  "timeout_from_env dflt v =
     (case v of None \<Rightarrow> dflt
      | Some s \<Rightarrow> (case parse_unsigned 64 s of None \<Rightarrow> dflt | Some n \<Rightarrow> if n > 0 then n * 1000 else dflt))"

definition set_machine :: "op_id \<Rightarrow> machine \<Rightarrow> 'resp engine \<Rightarrow> 'resp engine" where
  "set_machine op m e = e\<lparr>eng_machines := (eng_machines e)\<lparr>heap := (heap (eng_machines e))(op := m)\<rparr>\<rparr>"

definition machine_at :: "op_id \<Rightarrow> 'resp engine \<Rightarrow> machine" where
  "machine_at op e = heap (eng_machines e) op"

definition engine_requeue :: "millis \<Rightarrow> executable_action \<Rightarrow> op_id \<Rightarrow> 'resp engine \<Rightarrow> 'resp engine" where
  "engine_requeue now a sm e =
     (case transition_to now Queued (machine_at sm e) of
        Inr m \<Rightarrow> (set_machine sm m e)\<lparr>eng_scheduler := requeue now a sm (eng_scheduler e)\<rparr>
      | Inl err \<Rightarrow> e)"

definition assignment_of :: "(bytes \<Rightarrow> string) \<Rightarrow> executable_action \<Rightarrow> work_assignment" where
  "assignment_of hex_encode a =
     \<lparr>wa_execution_id = execution_id (ea_operation_id a),
      wa_action_digest = Some (digest_display hex_encode (ea_action_digest a)),
      wa_input_root_digest = map_option (digest_display hex_encode) (ea_input_root_digest a),
      wa_command = ea_command a, wa_timeout = ea_timeout a, wa_output_files = ea_output_files a,
      wa_output_directories = ea_output_directories a, wa_working_directory = ea_working_directory a,
      wa_environment_variables = ea_environment_variables a, wa_network = ea_network a\<rparr>"

definition dispatch ::
  "(bytes \<Rightarrow> string) \<Rightarrow> (nat \<Rightarrow> work_assignment \<Rightarrow> bool) \<Rightarrow> millis \<Rightarrow> string \<times> nat \<Rightarrow> executable_action \<Rightarrow> op_id \<Rightarrow>
   'resp engine \<Rightarrow> bool \<times> 'resp engine" where
  "dispatch hex_encode send now worker a sm e =
     (case transition_to now Assigned (machine_at sm e) of
        Inl err \<Rightarrow> (False, e\<lparr>eng_scheduler := complete_action (ea_action_digest a) (eng_scheduler e)\<rparr>)
      | Inr m \<Rightarrow>
          (let e1 = set_machine sm m e;
               assignment = assignment_of hex_encode a;
               (worker_id, tx) = worker
           in if \<not> send tx assignment then
                (let e2 = e1\<lparr>eng_registry := mark_unhealthy worker_id (eng_registry e1)\<rparr>
                 in (False, engine_requeue now a sm e2))
              else
                (True, e1\<lparr>outbox := outbox e1 @ [(tx, assignment)],
                          active_executions := AList.update (ea_operation_id a)
                            \<lparr>ax_worker_id = worker_id, ax_action = a\<rparr> (active_executions e1),
                          eng_registry := reserve now worker_id (execution_id (ea_operation_id a)) (eng_registry e1)\<rparr>)))"

fun dispatch_loop ::
  "(bytes \<Rightarrow> string) \<Rightarrow> (nat \<Rightarrow> work_assignment \<Rightarrow> bool) \<Rightarrow> (nat \<Rightarrow> int \<Rightarrow> 'f::linorder) \<Rightarrow> millis \<Rightarrow> nat \<Rightarrow>
   nat \<Rightarrow> (executable_action \<times> op_id) list \<Rightarrow> 'resp engine \<Rightarrow> nat \<times> (executable_action \<times> op_id) list \<times> 'resp engine" where
  "dispatch_loop hex_encode send score now 0 n unmatched e = (n, unmatched, e)"
| "dispatch_loop hex_encode send score now (Suc k) n unmatched e =
     (if select_worker \<lparr>req_worker_type = None, req_labels = []\<rparr> (eng_registry e) = None
      then (n, unmatched, e)
      else case dequeue score now (eng_scheduler e) of
             (None, s) \<Rightarrow> (n, unmatched, e\<lparr>eng_scheduler := s\<rparr>)
           | (Some (a, sm), s) \<Rightarrow>
               (let e1 = e\<lparr>eng_scheduler := s\<rparr> in
                case select_worker (ea_requirements a) (eng_registry e1) of
                  Some worker \<Rightarrow>
                    (case dispatch hex_encode send now worker a sm e1 of
                       (ok, e2) \<Rightarrow> dispatch_loop hex_encode send score now k (if ok then n + 1 else n) unmatched e2)
                | None \<Rightarrow> dispatch_loop hex_encode send score now k n (unmatched @ [(a, sm)]) e1))"

definition put_back_all :: "millis \<Rightarrow> (executable_action \<times> op_id) list \<Rightarrow> 'resp engine \<Rightarrow> 'resp engine" where
  "put_back_all now xs e =
     fold (\<lambda>(a, sm) e. e\<lparr>eng_scheduler := put_back now a sm (eng_scheduler e)\<rparr>) xs e"

definition dispatch_ready ::
  "(bytes \<Rightarrow> string) \<Rightarrow> (nat \<Rightarrow> work_assignment \<Rightarrow> bool) \<Rightarrow> (nat \<Rightarrow> int \<Rightarrow> 'f::linorder) \<Rightarrow> millis \<Rightarrow>
   'resp engine \<Rightarrow> nat \<times> 'resp engine" where
  "dispatch_ready hex_encode send score now e =
     (case dispatch_loop hex_encode send score now (queued_len (eng_scheduler e)) 0 [] e of
        (n, unmatched, e1) \<Rightarrow> (n, put_back_all now (rev unmatched) e1))"

definition final_stage_of :: "execution_result \<Rightarrow> execution_stage" where
  "final_stage_of r = (if er_error r \<noteq> None then Failed else Completed)"

definition finalize ::
  "(executable_action option \<Rightarrow> machine \<Rightarrow> execution_result \<Rightarrow> 'resp) \<Rightarrow> millis \<Rightarrow> op_id \<Rightarrow> execution_result \<Rightarrow>
   executable_action option \<Rightarrow> 'resp engine \<Rightarrow> 'resp engine" where
  "finalize record_result now op r act e =
     (case get_machine op (eng_machines e) of
        None \<Rightarrow> e\<lparr>active_executions := AList.delete op (active_executions e)\<rparr>
      | Some sm \<Rightarrow>
          (let final_stage = final_stage_of r; m = machine_at sm e in
           if \<not> can_transition_to (sm_state m) final_stage then e
           else
             (let a = (case map_of (active_executions e) op of Some x \<Rightarrow> Some (ax_action x) | None \<Rightarrow> act);
                  response = record_result a m r;
                  e1 = e\<lparr>active_executions := AList.delete op (active_executions e),
                         recorded := recorded e @ [(a, op, r)],
                         eng_results := results_put now op \<lparr>fo_result = r, fo_response = response\<rparr> (eng_results e)\<rparr>;
                  e2 = set_machine sm (attempt now final_stage m) e1
              in e2\<lparr>eng_scheduler := complete_action (action_digest m) (eng_scheduler e2)\<rparr>)))"

definition phase_timestamps_default :: phase_timestamps where
  "phase_timestamps_default =
     \<lparr>worker_start_ms = 0, input_fetch_start_ms = 0, input_fetch_completed_ms = 0, execution_start_ms = 0,
      execution_completed_ms = 0, output_upload_start_ms = 0, output_upload_completed_ms = 0, worker_completed_ms = 0\<rparr>"

definition engine_failure :: "op_id \<Rightarrow> string \<Rightarrow> execution_result" where
  "engine_failure op err =
     \<lparr>er_execution_id = execution_id op, er_exit_code = - 1, er_stdout = [], er_stderr = [],
      er_stdout_digest = None, er_stderr_digest = None, er_output_files = [], er_output_directories = [],
      er_output_symlinks = [], er_execution_duration = 0, er_error = Some err, er_timed_out = False,
      er_worker_id = [], er_timestamps = phase_timestamps_default, er_input_stats = None\<rparr>"

definition worker_losses_result :: "op_id \<Rightarrow> nat \<Rightarrow> execution_result" where
  "worker_losses_result op losses =
     engine_failure op (''the action lost '' @ show_nat losses
       @ '' workers before finishing; it may crash or hang the worker that runs it'')"

definition lose_one ::
  "(executable_action option \<Rightarrow> machine \<Rightarrow> execution_result \<Rightarrow> 'resp) \<Rightarrow> millis \<Rightarrow> op_id \<times> active_execution \<Rightarrow>
   'resp engine \<Rightarrow> 'resp engine" where
  "lose_one record_result now p e =
     (case p of (op, x) \<Rightarrow>
        (case get_machine op (eng_machines e) of
           None \<Rightarrow> e
         | Some sm \<Rightarrow>
             (let a = (ax_action x)\<lparr>ea_worker_losses := ea_worker_losses (ax_action x) + 1\<rparr>;
                  losses = ea_worker_losses a
              in if losses > max_worker_losses e
                 then finalize record_result now op (worker_losses_result op losses) (Some a) e
                 else engine_requeue now a sm e)))"

definition worker_lost ::
  "(executable_action option \<Rightarrow> machine \<Rightarrow> execution_result \<Rightarrow> 'resp) \<Rightarrow> millis \<Rightarrow> string \<Rightarrow> 'resp engine \<Rightarrow> 'resp engine" where
  "worker_lost record_result now wid e =
     (let lost = filter (\<lambda>(_, x). ax_worker_id x = wid) (active_executions e);
          e1 = e\<lparr>active_executions := filter (\<lambda>(_, x). ax_worker_id x \<noteq> wid) (active_executions e)\<rparr>
      in fold (lose_one record_result now) lost e1)"

definition reap_silent_workers :: "millis \<Rightarrow> 'resp engine \<Rightarrow> string list \<times> 'resp engine" where
  "reap_silent_workers now e =
     (let silent = silent_workers now (heartbeat_timeout e) (eng_registry e)
      in (silent, e\<lparr>eng_registry := fold unregister silent (eng_registry e)\<rparr>))"

definition process_report ::
  "(executable_action option \<Rightarrow> machine \<Rightarrow> execution_result \<Rightarrow> 'resp) \<Rightarrow> millis \<Rightarrow> worker_report \<Rightarrow> 'resp engine \<Rightarrow> 'resp engine" where
  "process_report record_result now report e =
     (case report of
        Lost wid \<Rightarrow> worker_lost record_result now wid e
      | Result wid r \<Rightarrow>
          (let e1 = e\<lparr>eng_registry := release now wid (er_execution_id r) (eng_registry e)\<rparr> in
           case operation_id_of (er_execution_id r) of
             Some op \<Rightarrow> finalize record_result now op r None e1
           | None \<Rightarrow> e1))"

text \<open>One round of \<open>result_processor_loop\<close>: the oldest report, if any, is taken and handled.\<close>

definition result_step ::
  "(executable_action option \<Rightarrow> machine \<Rightarrow> execution_result \<Rightarrow> 'resp) \<Rightarrow> millis \<Rightarrow> 'resp engine \<Rightarrow> 'resp engine" where
  "result_step record_result now e =
     (case result_queue e of
        [] \<Rightarrow> e
      | report # rest \<Rightarrow> process_report record_result now report (e\<lparr>result_queue := rest\<rparr>))"

definition cancel_one ::
  "(executable_action option \<Rightarrow> machine \<Rightarrow> execution_result \<Rightarrow> 'resp) \<Rightarrow> (op_id \<Rightarrow> string) \<Rightarrow> millis \<Rightarrow> executable_action \<times> op_id \<Rightarrow>
   'resp engine \<Rightarrow> 'resp engine" where
  "cancel_one record_result reason now p e =
     (case p of (a, sm) \<Rightarrow>
        (let op = ea_operation_id a;
             r = engine_failure op (reason op);
             response = record_result None (machine_at sm e) r;
             e1 = e\<lparr>recorded := recorded e @ [(None, op, r)],
                    eng_results := results_put now op \<lparr>fo_result = r, fo_response = response\<rparr> (eng_results e)\<rparr>;
             e2 = set_machine sm (attempt now Failed (machine_at sm e1)) e1
         in e2\<lparr>eng_scheduler := complete_action (ea_action_digest a) (eng_scheduler e2)\<rparr>))"

text \<open>The reason is the text with the timeout in Rust's debug format; it is an argument.\<close>

definition cancel_unwatched ::
  "(executable_action option \<Rightarrow> machine \<Rightarrow> execution_result \<Rightarrow> 'resp) \<Rightarrow> (op_id \<Rightarrow> string) \<Rightarrow> millis \<Rightarrow> 'resp engine \<Rightarrow>
   nat \<times> 'resp engine" where
  "cancel_unwatched record_result reason now e =
     (case remove_unwatched now (unwatched_timeout e) (heap (eng_machines e)) (eng_scheduler e) of
        (abandoned, s) \<Rightarrow>
          (length abandoned, fold (cancel_one record_result reason now) abandoned (e\<lparr>eng_scheduler := s\<rparr>)))"

definition cleanup_tick ::
  "(executable_action option \<Rightarrow> machine \<Rightarrow> execution_result \<Rightarrow> 'resp) \<Rightarrow> (op_id \<Rightarrow> string) \<Rightarrow> nat \<Rightarrow> millis \<Rightarrow> 'resp engine \<Rightarrow>
   'resp engine" where
  "cleanup_tick record_result reason results_ttl_secs now e =
     (let (silent, e1) = reap_silent_workers now e;
          e2 = e1\<lparr>result_queue := result_queue e1 @ map Lost silent\<rparr>;
          e3 = snd (cancel_unwatched record_result reason now e2);
          e4 = e3\<lparr>eng_machines := snd (cleanup_finished_machines now (results_ttl_secs * 1000) (eng_machines e3))\<rparr>;
          e5 = e4\<lparr>eng_scheduler := snd (cleanup_stale_actions now STALE_ACTION_AGE (eng_scheduler e4))\<rparr>
      in e5\<lparr>eng_results := snd (cleanup_old now results_ttl_secs (eng_results e5))\<rparr>)"

text \<open>
  The part of the \<open>Execute\<close> handler that enters an action: a machine is created, moved to
  \<open>Queued\<close> and the action queued; when it merges with one in flight its own machine is dropped.
  The result is the operation the client follows, none when that one has no machine.
\<close>

definition submit :: "millis \<Rightarrow> executable_action \<Rightarrow> 'resp engine \<Rightarrow> op_id option \<times> 'resp engine" where
  "submit now a e =
     (let op = ea_operation_id a;
          e1 = e\<lparr>eng_machines := create_machine_with_id now op (ea_action_digest a) (eng_machines e)\<rparr>
      in case transition_to now Queued (machine_at op e1) of
           Inl err \<Rightarrow> (None, e1\<lparr>eng_machines := remove_machine op (eng_machines e1)\<rparr>)
         | Inr m \<Rightarrow>
             (let e2 = set_machine op m e1;
                  (owner, s) = enqueue now a op (eng_scheduler e2);
                  e3 = e2\<lparr>eng_scheduler := s\<rparr>
              in if owner = op then (Some op, e3)
                 else (let e4 = e3\<lparr>eng_machines := remove_machine op (eng_machines e3)\<rparr>
                       in (get_machine owner (eng_machines e4), e4))))"

section \<open>Names on the wire round-trip\<close>

lemma trim_absent: "take (length p) s \<noteq> p \<Longrightarrow> trim_start_matches p s = s"
  by (simp add: trim_start_matches.simps)

lemma trim_prefix: "p \<noteq> [] \<Longrightarrow> trim_start_matches p (p @ s) = trim_start_matches p s"
  by (subst trim_start_matches.simps) simp

lemma EXECUTION_ID_PREFIX_not_Nil: "EXECUTION_ID_PREFIX \<noteq> []"
  by (simp add: EXECUTION_ID_PREFIX_def)

lemma trim_show_nat: "trim_start_matches EXECUTION_ID_PREFIX (show_nat n) = show_nat n"
  by (rule show_nat_Cons [of n], rule trim_absent) (simp add: EXECUTION_ID_PREFIX_def)

lemma operation_id_of_execution_id: "op < 2 ^ 64 \<Longrightarrow> operation_id_of (execution_id op) = Some op"
  using trim_prefix [of EXECUTION_ID_PREFIX "show_nat op"]
  by (simp add: operation_id_of_def execution_id_def trim_show_nat parse_unsigned_show_nat EXECUTION_ID_PREFIX_not_Nil)

section \<open>The items of the scheduler\<close>

definition all_items :: "scheduler \<Rightarrow> queue_item multiset" where
  "all_items s = contents (critical_queue s) + contents (medium_queue s)"

lemma waiting_all_items: "waiting_actions s = image_mset action (all_items s)"
  by (simp add: waiting_actions_def all_items_def)

lemma all_items_frame [simp]:
  "all_items (undispatch d s) = all_items s" "all_items (mark_dispatched d s) = all_items s"
  "all_items (complete_action d s) = all_items s" "all_items (s\<lparr>work_permit := b\<rparr>) = all_items s"
  "all_items (enqueued_stat p now s) = all_items s" "all_items (dequeued_stat p now s) = all_items s"
  "all_items (s\<lparr>in_flight_actions := al\<rparr>) = all_items s"
  by (simp_all add: all_items_def complete_action_def Let_def)

lemma all_items_push:
  "fq_inv (sched_queue p s) \<Longrightarrow>
   all_items (set_queue p (fq_push item front (sched_queue p s)) s) = add_mset item (all_items s)"
  by (cases p) (simp_all add: all_items_def set_queue_def sched_queue_def contents_push)

lemma all_items_put_back:
  "sched_inv s \<Longrightarrow> all_items (put_back now a sm s) =
     add_mset \<lparr>action = a, enqueued_at = now, state_machine = sm\<rparr> (all_items s)"
  by (simp add: put_back_def Let_def all_items_push sched_inv_queue sched_inv_undispatch)

lemma all_items_requeue:
  "sched_inv s \<Longrightarrow> all_items (requeue now a sm s) =
     add_mset \<lparr>action = a, enqueued_at = now, state_machine = sm\<rparr> (all_items s)"
  by (simp add: requeue_def all_items_put_back)

lemma all_items_enqueue:
  assumes "sched_inv s"
  shows "all_items (snd (enqueue now a sm s)) =
     (if map_of (in_flight_actions s) (ea_action_digest a) = None
      then add_mset \<lparr>action = a, enqueued_at = now, state_machine = sm\<rparr> (all_items s) else all_items s)"
proof (cases "map_of (in_flight_actions s) (ea_action_digest a)")
  case None
  let ?s = "s\<lparr>in_flight_actions := AList.update (ea_action_digest a)
    \<lparr>if_operation_id = ea_operation_id a, inserted_at = now, if_invocation = invocation_of a, dispatched = False\<rparr> (in_flight_actions s)\<rparr>"
  have "fq_inv (sched_queue (ea_priority a) ?s)"
    using assms by (simp add: sched_inv_iff sched_queue_def split: queue_priority.splits)
  from all_items_push [OF this] show ?thesis by (simp add: enqueue_def None Let_def)
qed (simp add: enqueue_def)

lemma all_items_try_dequeue:
  assumes "sched_inv s" "try_dequeue score now p s = (Some item, s')"
  shows "all_items s = add_mset item (all_items s')"
proof -
  from assms(2) obtain r where r: "fq_pop score (running_counts s) (sched_queue p s) = (Some item, r)"
    "s' = dequeued_stat p now (mark_dispatched (ea_action_digest (action item)) (set_queue p r s))"
    by (auto simp: try_dequeue_def split: prod.splits option.splits)
  show ?thesis
    using fq_pop_spec [OF sched_inv_queue [OF assms(1)] r(1)]
    by (cases p) (simp_all add: r(2) all_items_def set_queue_def sched_queue_def)
qed

lemma all_items_dequeue:
  assumes "sched_inv s" "dequeue score now s = (Some (a, sm), s')"
  obtains item where "all_items s = add_mset item (all_items s')" "action item = a" "state_machine item = sm"
proof (cases "try_dequeue score now Critical s")
  case (Pair r s1)
  show thesis
  proof (cases r)
    case (Some item)
    with Pair assms(2) have "try_dequeue score now Critical s = (Some item, s')" "action item = a" "state_machine item = sm"
      by (auto simp: dequeue_def)
    then show thesis using all_items_try_dequeue [OF assms(1)] that by blast
  next
    case None
    with Pair have "s1 = s" using try_dequeue_None [OF assms(1)] by blast
    with Pair None assms(2) obtain item where "try_dequeue score now Medium s = (Some item, s')"
      "action item = a" "state_machine item = sm"
      by (auto simp: dequeue_def split: prod.splits option.splits)
    then show thesis using all_items_try_dequeue [OF assms(1)] that by blast
  qed
qed

lemma all_items_remove_unwatched:
  assumes "remove_unwatched now grace mem s = (rs, s')"
  obtains out where "all_items s = mset out + all_items s'"
    "rs = map (\<lambda>item. (action item, state_machine item)) out"
proof -
  define P where "P = (\<lambda>item :: queue_item. unwatched_for now grace (mem (state_machine item)))"
  let ?out = "fst (drain_where P (critical_queue s)) @ fst (drain_where P (medium_queue s))"
  have s': "s' = s\<lparr>critical_queue := snd (drain_where P (critical_queue s)),
      medium_queue := snd (drain_where P (medium_queue s))\<rparr>"
    and rs: "rs = map (\<lambda>item. (action item, state_machine item)) ?out"
    using assms by (simp_all add: remove_unwatched_def Let_def P_def split: prod.splits)
  have "contents q = mset (fst (drain_where P q)) + contents (snd (drain_where P q))" for q
    unfolding contents_drain by (rule multiset_partition)
  from this [of "critical_queue s"] this [of "medium_queue s"]
  have "all_items s = mset ?out + all_items s'"
    by (simp add: all_items_def s' ac_simps)
  then show thesis using rs by (rule that)
qed

section \<open>Where every operation is\<close>

text \<open>
  \<open>placed\<close> lists the operations in progress with the stage their machine must be in: queued
  actions, actions assigned to a worker, and those a handler holds (\<open>H\<close>).
\<close>

definition active_actions :: "'resp engine \<Rightarrow> executable_action multiset" where
  "active_actions e = image_mset (\<lambda>(_, x). ax_action x) (mset (active_executions e))"

definition placed :: "'resp engine \<Rightarrow> (execution_stage \<times> executable_action) multiset \<Rightarrow>
    (execution_stage \<times> executable_action) multiset" where
  "placed e H = image_mset (Pair Queued) (waiting_actions (eng_scheduler e)) +
     image_mset (Pair Assigned) (active_actions e) + H"

definition machine_ok :: "machine_manager \<Rightarrow> execution_stage \<times> executable_action \<Rightarrow> bool" where
  "machine_ok mgr p = (case p of (st, a) \<Rightarrow>
     ea_operation_id a \<in> set (machines mgr) \<and> sm_state (heap mgr (ea_operation_id a)) = st \<and>
     \<not> terminal_stage st \<and> action_digest (heap mgr (ea_operation_id a)) = ea_action_digest a)"

definition ops_of :: "(execution_stage \<times> executable_action) multiset \<Rightarrow> op_id multiset" where
  "ops_of P = image_mset (\<lambda>(_, a). ea_operation_id a) P"

definition places_ok :: "machine_manager \<Rightarrow> (execution_stage \<times> executable_action) multiset \<Rightarrow> bool" where
  "places_ok mgr P \<longleftrightarrow> (\<forall>p. p \<in># P \<longrightarrow> machine_ok mgr p) \<and> (\<forall>op. count (ops_of P) op \<le> 1) \<and>
     (\<forall>op \<in> set (machines mgr). is_terminal (heap mgr op) \<or> op \<in># ops_of P)"

lemma ops_of_add [simp]: "ops_of (add_mset (st, a) P) = add_mset (ea_operation_id a) (ops_of P)"
  by (simp add: ops_of_def)

lemma places_ok_other:
  assumes "places_ok mgr (add_mset (st, a) R)" "p \<in># R"
  shows "ea_operation_id (snd p) \<noteq> ea_operation_id a"
proof
  assume "ea_operation_id (snd p) = ea_operation_id a"
  moreover have "ea_operation_id (snd p) \<in># ops_of R"
    using assms(2) by (auto simp: ops_of_def split_beta)
  ultimately have "ea_operation_id a \<in># ops_of R" by simp
  then have "count (ops_of (add_mset (st, a) R)) (ea_operation_id a) \<ge> 2"
    by (simp add: Suc_le_eq numeral_2_eq_2)
  with assms(1) show False unfolding places_ok_def by (metis Suc_1 not_less_eq_eq)
qed

lemma places_move:
  assumes "places_ok mgr (add_mset (st, a) R)" and "ea_operation_id a' = ea_operation_id a"
    "ea_action_digest a' = ea_action_digest a" "sm_state m' = st'" "\<not> terminal_stage st'"
    "action_digest m' = ea_action_digest a"
  shows "places_ok (mgr\<lparr>heap := (heap mgr)(ea_operation_id a := m')\<rparr>) (add_mset (st', a') R)"
proof -
  have other: "machine_ok (mgr\<lparr>heap := (heap mgr)(ea_operation_id a := m')\<rparr>) p" if "p \<in># R" for p
    using places_ok_other [OF assms(1) that] assms(1) that
    by (auto simp: places_ok_def machine_ok_def split: prod.splits)
  have "ops_of (add_mset (st', a') R) = ops_of (add_mset (st, a) R)" by (simp add: assms(2))
  moreover have "ea_operation_id a \<in> set (machines mgr)" using assms(1) by (simp add: places_ok_def machine_ok_def)
  ultimately show ?thesis
    using assms other unfolding places_ok_def by (auto simp: machine_ok_def)
qed

lemma places_finish:
  assumes "places_ok mgr (add_mset (st, a) R)" "is_terminal m'"
  shows "places_ok (mgr\<lparr>heap := (heap mgr)(ea_operation_id a := m')\<rparr>) R"
proof -
  have other: "machine_ok (mgr\<lparr>heap := (heap mgr)(ea_operation_id a := m')\<rparr>) p" if "p \<in># R" for p
    using places_ok_other [OF assms(1) that] assms(1) that
    by (auto simp: places_ok_def machine_ok_def split: prod.splits)
  have "count (ops_of R) op \<le> 1" for op
    using assms(1) unfolding places_ok_def by (metis add_leD2 count_add_mset le_SucI ops_of_add order_trans le_add2 plus_1_eq_Suc add.commute)
  then show ?thesis using assms other by (auto simp: places_ok_def)
qed

definition wires_ok :: "'resp engine \<Rightarrow> bool" where
  "wires_ok e \<longleftrightarrow>
     (\<forall>i. i \<in># all_items (eng_scheduler e) \<longrightarrow> state_machine i = ea_operation_id (action i)) \<and>
     (\<forall>op x. (op, x) \<in> set (active_executions e) \<longrightarrow> ea_operation_id (ax_action x) = op) \<and>
     distinct (map fst (active_executions e))"

definition engine_inv :: "'resp engine \<Rightarrow> (execution_stage \<times> executable_action) multiset \<Rightarrow> bool" where
  "engine_inv e H \<longleftrightarrow>
     flow_inv (eng_scheduler e) (active_actions e + image_mset snd H) \<and>
     places_ok (eng_machines e) (placed e H) \<and> wires_ok e"

lemma engine_inv_frame [simp]:
  "engine_inv (e\<lparr>eng_registry := r\<rparr>) H = engine_inv e H" "engine_inv (e\<lparr>outbox := ob\<rparr>) H = engine_inv e H"
  "engine_inv (e\<lparr>recorded := l\<rparr>) H = engine_inv e H" "engine_inv (e\<lparr>eng_results := rs\<rparr>) H = engine_inv e H"
  "engine_inv (e\<lparr>result_queue := q\<rparr>) H = engine_inv e H"
  by (simp_all add: engine_inv_def active_actions_def placed_def wires_ok_def)

lemma engine_inv_sched: "engine_inv e H \<Longrightarrow> sched_inv (eng_scheduler e)"
  by (simp add: engine_inv_def flow_inv_def)

lemma engine_dequeue:
  assumes inv: "engine_inv e H" and deq: "dequeue score now (eng_scheduler e) = (Some (a, sm), s')"
  shows "sm = ea_operation_id a \<and> engine_inv (e\<lparr>eng_scheduler := s'\<rparr>) (add_mset (Queued, a) H)"
proof -
  obtain item where item: "all_items (eng_scheduler e) = add_mset item (all_items s')"
    "action item = a" "state_machine item = sm"
    by (rule all_items_dequeue [OF engine_inv_sched [OF inv] deq])
  have "wires_ok e" using inv by (simp add: engine_inv_def)
  then have w: "sm = ea_operation_id a" "wires_ok (e\<lparr>eng_scheduler := s'\<rparr>)"
    using item by (auto simp: wires_ok_def)
  have "placed (e\<lparr>eng_scheduler := s'\<rparr>) (add_mset (Queued, a) H) = placed e H"
    using item(1,2) by (simp add: placed_def waiting_all_items active_actions_def)
  moreover have "flow_inv s' (active_actions e + image_mset snd (add_mset (Queued, a) H))"
    using flow_inv_dequeue [OF _ deq] inv by (simp add: engine_inv_def)
  ultimately show ?thesis using inv w by (simp add: engine_inv_def active_actions_def)
qed

lemma engine_put_back:
  assumes "engine_inv e (add_mset (Queued, a) H)"
  shows "engine_inv (e\<lparr>eng_scheduler := put_back now a (ea_operation_id a) (eng_scheduler e)\<rparr>) H"
proof -
  let ?s = "put_back now a (ea_operation_id a) (eng_scheduler e)"
  have it: "all_items ?s = add_mset \<lparr>action = a, enqueued_at = now, state_machine = ea_operation_id a\<rparr> (all_items (eng_scheduler e))"
    by (rule all_items_put_back [OF engine_inv_sched [OF assms]])
  have "flow_inv ?s (active_actions e + image_mset snd H)"
    using flow_inv_put_back [of "eng_scheduler e" a] assms by (simp add: engine_inv_def)
  moreover have "placed (e\<lparr>eng_scheduler := ?s\<rparr>) H = placed e (add_mset (Queued, a) H)"
    by (simp add: placed_def waiting_all_items it active_actions_def)
  moreover have "wires_ok (e\<lparr>eng_scheduler := ?s\<rparr>)"
    using assms it by (auto simp: engine_inv_def wires_ok_def)
  ultimately show ?thesis using assms by (simp add: engine_inv_def active_actions_def)
qed

lemma engine_held_ok:
  assumes "engine_inv e (add_mset (st, a) H)"
  shows "machine_ok (eng_machines e) (st, a)" "ea_operation_id a \<notin> fst ` set (active_executions e)"
proof -
  have P: "places_ok (eng_machines e) (add_mset (st, a) (placed e H))"
    using assms by (simp add: engine_inv_def placed_def)
  then show "machine_ok (eng_machines e) (st, a)" by (simp add: places_ok_def)
  show "ea_operation_id a \<notin> fst ` set (active_executions e)"
  proof
    assume "ea_operation_id a \<in> fst ` set (active_executions e)"
    then obtain x where x: "(ea_operation_id a, x) \<in> set (active_executions e)" by auto
    then have "(Assigned, ax_action x) \<in># placed e H"
      by (force simp: placed_def active_actions_def)
    from places_ok_other [OF P this] have "ea_operation_id (ax_action x) \<noteq> ea_operation_id a" by simp
    then show False using assms x by (auto simp: engine_inv_def wires_ok_def)
  qed
qed

lemma set_machine_frame [simp]:
  "eng_scheduler (set_machine op m e) = eng_scheduler e" "active_executions (set_machine op m e) = active_executions e"
  "eng_machines (set_machine op m e) = (eng_machines e)\<lparr>heap := (heap (eng_machines e))(op := m)\<rparr>"
  "eng_registry (set_machine op m e) = eng_registry e" "eng_results (set_machine op m e) = eng_results e"
  "max_worker_losses (set_machine op m e) = max_worker_losses e"
  by (simp_all add: set_machine_def)

lemma placed_set_machine [simp]:
  "placed (set_machine op m e) H = placed e H" "active_actions (set_machine op m e) = active_actions e"
  "wires_ok (set_machine op m e) = wires_ok e"
  by (simp_all add: placed_def active_actions_def wires_ok_def)

lemma engine_stage:
  assumes "engine_inv e (add_mset (st, a) H)" "can_transition_to st st'" "\<not> terminal_stage st'"
  obtains m where "transition_to now st' (machine_at (ea_operation_id a) e) = Inr m"
    "engine_inv (set_machine (ea_operation_id a) m e) (add_mset (st', a) H)"
proof -
  let ?op = "ea_operation_id a"
  have ok: "sm_state (machine_at ?op e) = st" "action_digest (machine_at ?op e) = ea_action_digest a"
    using engine_held_ok(1) [OF assms(1)] by (simp_all add: machine_ok_def machine_at_def)
  then obtain m where m: "transition_to now st' (machine_at ?op e) = Inr m" "sm_state m = st'"
    "action_digest m = ea_action_digest a"
    using assms(2) by (simp add: transition_to_eq)
  have "places_ok (eng_machines e) (add_mset (st, a) (placed e H))"
    using assms(1) by (simp add: engine_inv_def placed_def)
  from places_move [OF this refl refl m(2) assms(3) m(3)]
  have "engine_inv (set_machine ?op m e) (add_mset (st', a) H)"
    using assms(1) by (simp add: engine_inv_def) (simp add: placed_def)
  with m(1) show thesis by (rule that)
qed

lemma engine_activate:
  assumes "engine_inv e (add_mset (Assigned, a) H)"
  shows "engine_inv (e\<lparr>active_executions := AList.update (ea_operation_id a)
     \<lparr>ax_worker_id = w, ax_action = a\<rparr> (active_executions e)\<rparr>) H"
proof -
  let ?op = "ea_operation_id a"
  have "map_of (active_executions e) ?op = None"
    using engine_held_ok(2) [OF assms] by (simp add: map_of_eq_None_iff)
  then have "AList.update ?op \<lparr>ax_worker_id = w, ax_action = a\<rparr> (active_executions e)
      = active_executions e @ [(?op, \<lparr>ax_worker_id = w, ax_action = a\<rparr>)]" by (rule update_fresh)
  then show ?thesis
    using assms engine_held_ok(2) [OF assms]
    by (auto simp: engine_inv_def active_actions_def placed_def wires_ok_def)
qed

lemma engine_take:
  assumes "engine_inv e H" "map_of (active_executions e) op = Some x"
  shows "ea_operation_id (ax_action x) = op \<and>
    engine_inv (e\<lparr>active_executions := AList.delete op (active_executions e)\<rparr>) (add_mset (Assigned, ax_action x) H)"
proof -
  have w: "wires_ok e" using assms(1) by (simp add: engine_inv_def)
  have "mset (active_executions e) = add_mset (op, x) (mset (AList.delete op (active_executions e)))"
    using w map_of_SomeD [OF assms(2)] by (intro mset_delete_entry) (simp_all add: wires_ok_def)
  moreover have "ea_operation_id (ax_action x) = op"
    using w map_of_SomeD [OF assms(2)] by (simp add: wires_ok_def)
  moreover have "wires_ok (e\<lparr>active_executions := AList.delete op (active_executions e)\<rparr>)"
    using w by (auto simp: wires_ok_def distinct_map_fst_filter AList.delete_eq)
  ultimately show ?thesis
    using assms(1) by (simp add: engine_inv_def active_actions_def placed_def)
qed

lemma engine_finish:
  assumes "engine_inv e (add_mset (st, a) H)" "is_terminal m"
  shows "engine_inv ((set_machine (ea_operation_id a) m e)\<lparr>eng_scheduler :=
     complete_action (ea_action_digest a) (eng_scheduler e)\<rparr>) H"
proof -
  have "places_ok (eng_machines e) (add_mset (st, a) (placed e H))"
    using assms(1) by (simp add: engine_inv_def placed_def)
  from places_finish [OF this assms(2)]
  have "places_ok ((eng_machines e)\<lparr>heap := (heap (eng_machines e))(ea_operation_id a := m)\<rparr>) (placed e H)" .
  moreover have "flow_inv (complete_action (ea_action_digest a) (eng_scheduler e)) (active_actions e + image_mset snd H)"
    using flow_inv_complete assms(1) by (simp add: engine_inv_def)
  ultimately show ?thesis
    using assms(1) by (simp add: engine_inv_def active_actions_def placed_def wires_ok_def waiting_all_items)
qed


lemma engine_rename:
  assumes "engine_inv e (add_mset (st, a) H)" "track_action a' = track_action a"
  shows "engine_inv e (add_mset (st, a') H)"
proof -
  have same: "ea_operation_id a' = ea_operation_id a" "ea_action_digest a' = ea_action_digest a"
    using assms(2) by (simp_all add: track_action_def)
  have "places_ok (eng_machines e) (add_mset (st, a) (placed e H))"
    using assms(1) by (simp add: engine_inv_def placed_def)
  then have "places_ok (eng_machines e) (add_mset (st, a') (placed e H))"
    using same by (auto simp: places_ok_def machine_ok_def)
  then show ?thesis
    using assms by (simp add: engine_inv_def placed_def flow_inv_def)
qed

lemma engine_inv_permit [simp]:
  "engine_inv (e\<lparr>eng_scheduler := s\<lparr>work_permit := b\<rparr>\<rparr>) H = engine_inv (e\<lparr>eng_scheduler := s\<rparr>) H"
  by (simp add: engine_inv_def active_actions_def placed_def wires_ok_def)

lemma engine_inv_requeue:
  assumes "engine_inv e (add_mset (Assigned, a) H)" "track_action a' = track_action a"
  shows "engine_inv (engine_requeue now a' (ea_operation_id a) e) H"
proof -
  have same: "ea_operation_id a' = ea_operation_id a" using assms(2) by (simp add: track_action_def)
  obtain m where m: "transition_to now Queued (machine_at (ea_operation_id a) e) = Inr m"
    "engine_inv (set_machine (ea_operation_id a) m e) (add_mset (Queued, a) H)"
    by (rule engine_stage [OF assms(1), of Queued now]) (simp_all add: terminal_stage_def)
  from engine_put_back [OF engine_rename [OF m(2) assms(2)], of now] show ?thesis
    by (simp add: engine_requeue_def m(1) requeue_def same)
qed

lemma engine_inv_dispatch:
  assumes "engine_inv e (add_mset (Queued, a) H)"
  shows "engine_inv (snd (dispatch hex_encode send now worker a (ea_operation_id a) e)) H"
proof -
  obtain m where m: "transition_to now Assigned (machine_at (ea_operation_id a) e) = Inr m"
    "engine_inv (set_machine (ea_operation_id a) m e) (add_mset (Assigned, a) H)"
    by (rule engine_stage [OF assms, of Assigned now]) (simp_all add: terminal_stage_def)
  show ?thesis
  proof (cases "send (snd worker) (assignment_of hex_encode a)")
    case True
    with engine_activate [OF m(2), of "fst worker"] show ?thesis
      by (simp add: dispatch_def m(1) Let_def split_beta engine_inv_def active_actions_def placed_def wires_ok_def)
  next
    case False
    have "engine_inv ((set_machine (ea_operation_id a) m e)\<lparr>eng_registry :=
        mark_unhealthy (fst worker) (eng_registry e)\<rparr>) (add_mset (Assigned, a) H)"
      using m(2) by simp
    from engine_inv_requeue [OF this refl, of now] False show ?thesis
      by (simp add: dispatch_def m(1) Let_def split_beta)
  qed
qed

definition held :: "(executable_action \<times> op_id) list \<Rightarrow> (execution_stage \<times> executable_action) multiset" where
  "held xs = mset (map (\<lambda>(a, _). (Queued, a)) xs)"

lemma dispatch_loop_rule:
  assumes "dispatch_loop hex_encode send score now k n u e = (n', u', e')" and "I k n e u"
    and none: "\<And>j n e u s. I (Suc j) n e u \<Longrightarrow> dequeue score now (eng_scheduler e) = (None, s) \<Longrightarrow> s = eng_scheduler e"
    and unmatched: "\<And>j n e u a sm s. I (Suc j) n e u \<Longrightarrow> dequeue score now (eng_scheduler e) = (Some (a, sm), s) \<Longrightarrow>
      select_worker (ea_requirements a) (eng_registry e) = None \<Longrightarrow> I j n (e\<lparr>eng_scheduler := s\<rparr>) (u @ [(a, sm)])"
    and sent: "\<And>j n e u a sm s w d. I (Suc j) n e u \<Longrightarrow> dequeue score now (eng_scheduler e) = (Some (a, sm), s) \<Longrightarrow>
      select_worker (ea_requirements a) (eng_registry e) = Some w \<Longrightarrow>
      d = dispatch hex_encode send now w a sm (e\<lparr>eng_scheduler := s\<rparr>) \<Longrightarrow>
      I j (if fst d then n + 1 else n) (snd d) u"
  shows "\<exists>j. I j n' e' u' \<and> (j = 0 \<or> select_worker \<lparr>req_worker_type = None, req_labels = []\<rparr> (eng_registry e') = None \<or>
    fst (dequeue score now (eng_scheduler e')) = None)"
  using assms(1,2)
proof (induction k arbitrary: n u e)
  case (Suc k)
  obtain r s where deq: "dequeue score now (eng_scheduler e) = (r, s)" by fastforce
  show ?case
  proof (cases "select_worker \<lparr>req_worker_type = None, req_labels = []\<rparr> (eng_registry e) = None \<or> r = None")
    case True
    then show ?thesis using Suc.prems deq none [OF Suc.prems(2)] by (auto split: if_splits)
  next
    case False
    then obtain a sm where r: "r = Some (a, sm)" by auto
    show ?thesis
    proof (cases "select_worker (ea_requirements a) (eng_registry e)")
      case None
      then show ?thesis
        using Suc.IH [OF _ unmatched [OF Suc.prems(2)]] Suc.prems(1) deq r False by auto
    next
      case (Some w)
      let ?d = "dispatch hex_encode send now w a sm (e\<lparr>eng_scheduler := s\<rparr>)"
      have "dispatch_loop hex_encode send score now k (if fst ?d then n + 1 else n) u (snd ?d) = (n', u', e')"
        using Suc.prems(1) deq r False Some by (cases ?d) (auto simp: Let_def)
      then show ?thesis using Suc.IH sent [OF Suc.prems(2)] deq r Some by blast
    qed
  qed
qed auto

lemma dequeue_None:
  "sched_inv s \<Longrightarrow> dequeue score now s = (None, s') \<Longrightarrow> s' = s"
  by (auto simp: dequeue_def dest: try_dequeue_None split: prod.splits option.splits)

lemma engine_inv_dispatch_loop:
  assumes "engine_inv e (held unmatched)" "\<forall>(a, sm) \<in> set unmatched. sm = ea_operation_id a"
    and "dispatch_loop hex_encode send score now k n unmatched e = (n', unmatched', e')"
  shows "engine_inv e' (held unmatched') \<and> (\<forall>(a, sm) \<in> set unmatched'. sm = ea_operation_id a)"
proof -
  let ?I = "\<lambda>(_ :: nat) (_ :: nat) e u. engine_inv e (held u) \<and> (\<forall>(a, sm) \<in> set u. sm = ea_operation_id a)"
  have "\<exists>j. ?I j n' e' unmatched' \<and> (j = 0 \<or> select_worker \<lparr>req_worker_type = None, req_labels = []\<rparr> (eng_registry e') = None \<or>
    fst (dequeue score now (eng_scheduler e')) = None)"
  proof (rule dispatch_loop_rule [OF assms(3), where I = ?I])
    fix e :: "'a engine" and u s a sm
    assume u: "engine_inv e (held u) \<and> (\<forall>(a, sm) \<in> set u. sm = ea_operation_id a)"
      and d: "dequeue score now (eng_scheduler e) = (Some (a, sm), s)"
    have e: "sm = ea_operation_id a" "engine_inv (e\<lparr>eng_scheduler := s\<rparr>) (add_mset (Queued, a) (held u))"
      using engine_dequeue [OF conjunct1 [OF u] d] by auto
    show "?I 0 0 (e\<lparr>eng_scheduler := s\<rparr>) (u @ [(a, sm)])"
      using e u by (auto simp: held_def)
    show "?I 0 0 (snd d) u" if "d = dispatch hex_encode send now w a sm (e\<lparr>eng_scheduler := s\<rparr>)" for w d
      unfolding that using engine_inv_dispatch [OF e(2)] e(1) u by simp
  qed (use assms in \<open>auto dest: dequeue_None engine_inv_sched\<close>)
  then show ?thesis by blast
qed

lemma engine_inv_put_back_all:
  "engine_inv e (held xs) \<Longrightarrow> \<forall>(a, sm) \<in> set xs. sm = ea_operation_id a \<Longrightarrow> engine_inv (put_back_all now xs e) {#}"
proof (induction xs arbitrary: e)
  case (Cons x xs)
  obtain a sm where x: "x = (a, sm)" by (cases x)
  then have "engine_inv (e\<lparr>eng_scheduler := put_back now a sm (eng_scheduler e)\<rparr>) (held xs)"
    using engine_put_back [of e a "held xs" now] Cons.prems by (simp add: held_def)
  with Cons x show ?case by (simp add: put_back_all_def)
qed (simp add: put_back_all_def held_def)

lemma engine_inv_dispatch_ready:
  assumes "engine_inv e {#}" shows "engine_inv (snd (dispatch_ready hex_encode send score now e)) {#}"
proof -
  obtain n unmatched e' where l: "dispatch_loop hex_encode send score now (queued_len (eng_scheduler e)) 0 [] e = (n, unmatched, e')"
    by (metis prod.exhaust)
  have "engine_inv e (held [])" using assms by (simp add: held_def)
  from engine_inv_dispatch_loop [OF this _ l] have "engine_inv e' (held (rev unmatched))"
    "\<forall>(a, sm) \<in> set (rev unmatched). sm = ea_operation_id a"
    by (simp_all add: held_def)
  from engine_inv_put_back_all [OF this] show ?thesis by (simp add: dispatch_ready_def l)
qed

lemma is_terminal_attempt:
  "can_transition_to (sm_state m) st \<Longrightarrow> terminal_stage st \<Longrightarrow> is_terminal (attempt now st m)"
  by (simp add: attempt_def transition_to_eq is_terminal_def)

lemma final_stage_terminal [simp]: "terminal_stage (final_stage_of r)"
  by (simp add: final_stage_of_def terminal_stage_def)

lemma assigned_may_finish [simp]: "can_transition_to Assigned (final_stage_of r)"
  by (simp add: final_stage_of_def)

text \<open>What \<open>finalize\<close> does to an operation whose machine may move to its final stage.\<close>

lemma finalize_runs:
  assumes "op \<in> set (machines (eng_machines e))" "can_transition_to (sm_state (machine_at op e)) (final_stage_of r)"
    and "a = (case map_of (active_executions e) op of Some x \<Rightarrow> Some (ax_action x) | None \<Rightarrow> act)"
  shows "finalize record_result now op r act e =
    (set_machine op (attempt now (final_stage_of r) (machine_at op e))
      (e\<lparr>active_executions := AList.delete op (active_executions e), recorded := recorded e @ [(a, op, r)],
         eng_results := results_put now op \<lparr>fo_result = r, fo_response = record_result a (machine_at op e) r\<rparr> (eng_results e)\<rparr>))
    \<lparr>eng_scheduler := complete_action (action_digest (machine_at op e)) (eng_scheduler e)\<rparr>"
  using assms by (simp add: finalize_def get_machine_def Let_def machine_at_def)

lemma finalize_dropped:
  assumes "op \<in> set (machines (eng_machines e))" "\<not> can_transition_to (sm_state (machine_at op e)) (final_stage_of r)"
  shows "finalize record_result now op r act e = e"
  using assms by (simp add: finalize_def get_machine_def Let_def machine_at_def)

lemma engine_inv_finalize_held:
  assumes "engine_inv e (add_mset (Assigned, a) H)"
  shows "engine_inv (finalize record_result now (ea_operation_id a) r act e) H"
proof -
  let ?op = "ea_operation_id a"
  have ok: "?op \<in> set (machines (eng_machines e))" "sm_state (machine_at ?op e) = Assigned"
    "action_digest (machine_at ?op e) = ea_action_digest a"
    using engine_held_ok(1) [OF assms] by (simp_all add: machine_ok_def machine_at_def)
  have none: "AList.delete ?op (active_executions e) = active_executions e"
    using engine_held_ok(2) [OF assms] by (rule delete_absent)
  have "is_terminal (attempt now (final_stage_of r) (machine_at ?op e))"
    by (rule is_terminal_attempt) (simp_all add: ok(2) del: can_transition_to.simps)
  from engine_finish [OF assms this] show ?thesis
    by (subst finalize_runs [OF _ _ refl]) (simp_all del: can_transition_to.simps add: ok none engine_inv_def active_actions_def placed_def wires_ok_def)
qed

lemma engine_inv_finalize_active:
  assumes "engine_inv e H" "map_of (active_executions e) op = Some x"
  shows "engine_inv (finalize record_result now op r act e) H"
proof -
  let ?e = "e\<lparr>active_executions := AList.delete op (active_executions e)\<rparr>"
  have t: "ea_operation_id (ax_action x) = op" "engine_inv ?e (add_mset (Assigned, ax_action x) H)"
    using engine_take [OF assms] by auto
  have ok: "op \<in> set (machines (eng_machines e))" "sm_state (machine_at op e) = Assigned"
    "action_digest (machine_at op e) = ea_action_digest (ax_action x)"
    using engine_held_ok(1) [OF t(2)] t(1) by (simp_all add: machine_ok_def machine_at_def)
  have "is_terminal (attempt now (final_stage_of r) (machine_at op e))"
    by (rule is_terminal_attempt) (simp_all add: ok(2) del: can_transition_to.simps)
  from engine_finish [OF t(2) this] t(1) show ?thesis
    by (subst finalize_runs [OF _ _ refl]) (simp_all del: can_transition_to.simps add: ok engine_inv_def active_actions_def placed_def wires_ok_def)
qed

text \<open>
  A result is in order when its operation is assigned, or when it cannot move the machine: a
  result that reports an error for an operation back in the queue is not.
\<close>

definition report_ok :: "'resp engine \<Rightarrow> worker_report \<Rightarrow> bool" where
  "report_ok e report =
     (case report of
        Lost wid \<Rightarrow> True
      | Result wid r \<Rightarrow>
          (case operation_id_of (er_execution_id r) of
             None \<Rightarrow> True
           | Some op \<Rightarrow> map_of (active_executions e) op \<noteq> None \<or> op \<notin> set (machines (eng_machines e)) \<or>
               \<not> can_transition_to (sm_state (machine_at op e)) (final_stage_of r)))"

lemma engine_inv_finalize_report:
  assumes "engine_inv e H"
    and "map_of (active_executions e) op \<noteq> None \<or> op \<notin> set (machines (eng_machines e)) \<or>
      \<not> can_transition_to (sm_state (machine_at op e)) (final_stage_of r)"
  shows "engine_inv (finalize record_result now op r None e) H"
proof (cases "map_of (active_executions e) op")
  case (Some x)
  then show ?thesis by (rule engine_inv_finalize_active [OF assms(1)])
next
  case None
  then have del: "AList.delete op (active_executions e) = active_executions e"
    by (simp add: delete_absent map_of_eq_None_iff)
  show ?thesis
  proof (cases "op \<in> set (machines (eng_machines e))")
    case True
    with None assms finalize_dropped [OF True] show ?thesis by auto
  next
    case False
    with del assms(1) show ?thesis by (simp add: finalize_def get_machine_def)
  qed
qed

lemma engine_inv_lose_one:
  assumes "engine_inv e (add_mset (Assigned, ax_action x) H)" "ea_operation_id (ax_action x) = op"
  shows "engine_inv (lose_one record_result now (op, x) e) H"
proof -
  let ?a = "(ax_action x)\<lparr>ea_worker_losses := ea_worker_losses (ax_action x) + 1\<rparr>"
  have "op \<in> set (machines (eng_machines e))"
    using engine_held_ok(1) [OF assms(1)] assms(2) by (simp add: machine_ok_def)
  moreover have "engine_inv (finalize record_result now op r act e) H" for r act
    using engine_inv_finalize_held [OF assms(1)] assms(2) by simp
  moreover have "engine_inv (engine_requeue now ?a op e) H"
    using engine_inv_requeue [OF assms(1), of ?a now] assms(2) by (simp add: track_action_def invocation_of_def)
  ultimately show ?thesis by (simp add: lose_one_def get_machine_def Let_def)
qed

lemma engine_inv_lose_all:
  "engine_inv e (mset (map (\<lambda>(_, x). (Assigned, ax_action x)) lost) + H) \<Longrightarrow>
   \<forall>(op, x) \<in> set lost. ea_operation_id (ax_action x) = op \<Longrightarrow>
   engine_inv (fold (lose_one record_result now) lost e) H"
proof (induction lost arbitrary: e)
  case (Cons p lost)
  obtain op x where p: "p = (op, x)" by (cases p)
  have "engine_inv (lose_one record_result now (op, x) e) (mset (map (\<lambda>(_, x). (Assigned, ax_action x)) lost) + H)"
    using Cons.prems p by (intro engine_inv_lose_one) simp_all
  with Cons p show ?case by simp
qed simp

lemma image_mset_split:
  "image_mset f (mset xs) =
     image_mset f (mset (filter (\<lambda>(_, x). \<not> P x) xs)) + image_mset f (mset (filter (\<lambda>(_, x). P x) xs))"
  by (induction xs) auto

lemma engine_inv_lost:
  assumes "engine_inv e {#}"
  shows "engine_inv (e\<lparr>active_executions := filter (\<lambda>(_, x). ax_worker_id x \<noteq> wid) (active_executions e)\<rparr>)
    (mset (map (\<lambda>(_, x). (Assigned, ax_action x)) (filter (\<lambda>(_, x). ax_worker_id x = wid) (active_executions e))) + {#})"
proof -
  let ?lost = "filter (\<lambda>(_, x). ax_worker_id x = wid) (active_executions e)"
  let ?e = "e\<lparr>active_executions := filter (\<lambda>(_, x). ax_worker_id x \<noteq> wid) (active_executions e)\<rparr>"
  have act: "active_executions ?e = filter (\<lambda>(_, x). ax_worker_id x \<noteq> wid) (active_executions e)" by simp
  have split: "active_actions e = active_actions ?e + image_mset (\<lambda>(_, x). ax_action x) (mset ?lost)"
    unfolding active_actions_def act by (rule image_mset_split)
  have snds: "image_mset snd (image_mset (\<lambda>(_, x). (Assigned, ax_action x)) (mset ?lost)) = image_mset (\<lambda>(_, x). ax_action x) (mset ?lost)"
    by (simp add: image_mset.compositionality comp_def split_def)
  have "wires_ok ?e" using assms by (auto simp: engine_inv_def wires_ok_def distinct_map_fst_filter)
  then show ?thesis
    using assms split snds by (simp add: engine_inv_def placed_def ac_simps)
      (simp add: image_mset.compositionality comp_def split_def)
qed

lemma engine_inv_worker_lost:
  assumes "engine_inv e {#}" shows "engine_inv (worker_lost record_result now wid e) {#}"
proof -
  have "\<forall>(op, x) \<in> set (filter (\<lambda>(_, x). ax_worker_id x = wid) (active_executions e)). ea_operation_id (ax_action x) = op"
    using assms by (auto simp: engine_inv_def wires_ok_def)
  then show ?thesis
    unfolding worker_lost_def Let_def by (rule engine_inv_lose_all [OF engine_inv_lost [OF assms]])
qed

lemma engine_inv_process_report:
  assumes "engine_inv e {#}" "report_ok e report"
  shows "engine_inv (process_report record_result now report e) {#}"
proof (cases report)
  case (Result wid r)
  show ?thesis
  proof (cases "operation_id_of (er_execution_id r)")
    case (Some op)
    have "engine_inv (finalize record_result now op r None (e\<lparr>eng_registry := release now wid (er_execution_id r) (eng_registry e)\<rparr>)) {#}"
      using assms Result Some by (intro engine_inv_finalize_report) (simp_all add: report_ok_def machine_at_def)
    then show ?thesis by (simp add: process_report_def Result Some Let_def)
  qed (use assms Result in \<open>simp add: process_report_def\<close>)
qed (simp add: process_report_def engine_inv_worker_lost assms(1))


section \<open>The sweep and new submissions\<close>

lemma engine_inv_cancel_one:
  assumes "engine_inv e (add_mset (Queued, a) H)"
  shows "engine_inv (cancel_one record_result reason now (a, ea_operation_id a) e) H"
proof -
  have st: "sm_state (machine_at (ea_operation_id a) e) = Queued"
    using engine_held_ok(1) [OF assms] by (simp add: machine_ok_def machine_at_def)
  have "is_terminal (attempt now Failed (machine_at (ea_operation_id a) e))"
    by (rule is_terminal_attempt) (simp_all add: st terminal_stage_def)
  from engine_finish [OF assms this] show ?thesis
    by (simp add: cancel_one_def Let_def engine_inv_def active_actions_def placed_def wires_ok_def machine_at_def)
qed

lemma engine_inv_cancel_all:
  "engine_inv e (held xs) \<Longrightarrow> \<forall>(a, sm) \<in> set xs. sm = ea_operation_id a \<Longrightarrow>
   engine_inv (fold (cancel_one record_result reason now) xs e) {#}"
proof (induction xs arbitrary: e)
  case (Cons x xs)
  obtain a sm where x: "x = (a, sm)" by (cases x)
  then have "engine_inv (cancel_one record_result reason now x e) (held xs)"
    using engine_inv_cancel_one [of e a "held xs"] Cons.prems by (simp add: held_def)
  with Cons x show ?case by simp
qed (simp add: held_def)

lemma engine_inv_cancel_unwatched:
  assumes "engine_inv e {#}" shows "engine_inv (snd (cancel_unwatched record_result reason now e)) {#}"
proof -
  obtain rs s where r: "remove_unwatched now (unwatched_timeout e) (heap (eng_machines e)) (eng_scheduler e) = (rs, s)"
    by fastforce
  obtain out where out: "all_items (eng_scheduler e) = mset out + all_items s"
    "rs = map (\<lambda>item. (action item, state_machine item)) out"
    by (rule all_items_remove_unwatched [OF r])
  have w: "wires_ok e" using assms by (simp add: engine_inv_def)
  have sm: "\<forall>(a, sm) \<in> set rs. sm = ea_operation_id a" "wires_ok (e\<lparr>eng_scheduler := s\<rparr>)"
    using w out by (auto simp: wires_ok_def)
  have h: "held rs = image_mset (Pair Queued) (image_mset action (mset out))"
    by (simp add: held_def out(2) image_mset.compositionality comp_def)
  have hs: "image_mset snd (held rs) = image_mset action (mset out)" "mset (map fst rs) = image_mset action (mset out)"
    by (simp_all add: h) (simp_all add: out(2) image_mset.compositionality comp_def)
  have "placed (e\<lparr>eng_scheduler := s\<rparr>) (held rs) = placed e {#}"
    by (simp add: placed_def waiting_all_items out(1) h active_actions_def)
  moreover have "flow_inv s (active_actions e + image_mset snd (held rs))"
    using flow_inv_unwatched [OF _ r, of "active_actions e"] assms unfolding hs
    by (simp add: engine_inv_def add.commute)
  ultimately have "engine_inv (e\<lparr>eng_scheduler := s\<rparr>) (held rs)"
    using assms sm(2) by (simp add: engine_inv_def active_actions_def)
  from engine_inv_cancel_all [OF this sm(1)] show ?thesis by (simp add: cancel_unwatched_def r)
qed

lemma places_ok_retire:
  assumes "places_ok mgr P" "set (machines mgr') \<subseteq> set (machines mgr)" "heap mgr' = heap mgr"
    and "\<And>op. op \<in> set (machines mgr) \<Longrightarrow> \<not> is_terminal (heap mgr op) \<Longrightarrow> op \<in> set (machines mgr')"
  shows "places_ok mgr' P"
proof -
  have "machine_ok mgr' p" if "p \<in># P" for p
    using assms that by (auto simp: places_ok_def machine_ok_def is_terminal_def split: prod.splits)
  then show ?thesis using assms by (auto simp: places_ok_def)
qed

lemma cleanup_candidates_keeps:
  "heap (snd (cleanup_candidates ops mgr n)) = heap mgr \<and>
   set (machines (snd (cleanup_candidates ops mgr n))) \<subseteq> set (machines mgr) \<and>
   (\<forall>op \<in> set (machines mgr). \<not> is_terminal (heap mgr op) \<longrightarrow> op \<in> set (machines (snd (cleanup_candidates ops mgr n))))"
proof (induction ops arbitrary: mgr n)
  case (Cons op ops)
  from Cons [of "remove_machine op mgr" "n + 1"] Cons [of mgr n] show ?case
    by (auto simp: remove_machine_def)
qed simp

lemma engine_inv_retire:
  assumes "engine_inv e H"
  shows "engine_inv (e\<lparr>eng_machines := snd (cleanup_finished_machines now ret (eng_machines e))\<rparr>) H"
proof -
  let ?mgr = "snd (cleanup_finished_machines now ret (eng_machines e))"
  have keep: "heap ?mgr = heap (eng_machines e)" "set (machines ?mgr) \<subseteq> set (machines (eng_machines e))"
    "\<forall>op \<in> set (machines (eng_machines e)). \<not> is_terminal (heap (eng_machines e) op) \<longrightarrow> op \<in> set (machines ?mgr)"
    unfolding cleanup_finished_machines_def Let_def using cleanup_candidates_keeps by blast+
  have "places_ok (eng_machines e) (placed e H)" using assms by (simp add: engine_inv_def)
  then have "places_ok ?mgr (placed e H)" using keep by (auto intro: places_ok_retire)
  then show ?thesis using assms by (simp add: engine_inv_def active_actions_def placed_def wires_ok_def)
qed

lemma engine_inv_reap: "engine_inv (snd (reap_silent_workers now e)) H = engine_inv e H"
  by (simp add: reap_silent_workers_def Let_def)

lemma places_ok_new:
  assumes "places_ok mgr P" "op \<notin> set (machines mgr)"
    "sm_state m = st" "\<not> terminal_stage st" "action_digest m = ea_action_digest a" "ea_operation_id a = op"
  shows "places_ok (mgr\<lparr>machines := machines mgr @ [op], heap := (heap mgr)(op := m)\<rparr>) (add_mset (st, a) P)"
proof -
  have other: "op \<notin># ops_of P"
    using assms(1,2) by (auto simp: places_ok_def ops_of_def machine_ok_def)
  then have "machine_ok (mgr\<lparr>machines := machines mgr @ [op], heap := (heap mgr)(op := m)\<rparr>) p" if "p \<in># P" for p
    using assms(1,2) that by (auto simp: places_ok_def machine_ok_def split: prod.splits)
  moreover have "count (ops_of P) k \<le> 1" "count (ops_of P) op = 0" for k
    using assms(1) other by (auto simp: places_ok_def not_in_iff)
  ultimately show ?thesis
    using assms by (auto simp: places_ok_def machine_ok_def)
qed

lemma flow_inv_owner:
  assumes "flow_inv s out" "map_of (in_flight_actions s) d = Some entry"
  obtains b where "b \<in># waiting_actions s + out" "ea_operation_id b = if_operation_id entry"
proof -
  have "track_entry (d, entry) \<in># mset (map track_entry (in_flight_actions s))"
    using map_of_SomeD [OF assms(2)] by simp
  then have "track_entry (d, entry) \<in># image_mset track_action (waiting_actions s + out)"
    using assms(1) by (simp add: flow_inv_def)
  then obtain b where "b \<in># waiting_actions s + out" "track_entry (d, entry) = track_action b" by auto
  then show thesis using that by (auto simp: track_entry_def track_action_def)
qed

lemma engine_owner_registered:
  assumes "engine_inv e {#}" "map_of (in_flight_actions (eng_scheduler e)) d = Some entry"
  shows "if_operation_id entry \<in> set (machines (eng_machines e))"
proof -
  obtain b where b: "b \<in># waiting_actions (eng_scheduler e) + active_actions e"
    "ea_operation_id b = if_operation_id entry"
    using assms by (auto simp: engine_inv_def elim: flow_inv_owner)
  then have "(Queued, b) \<in># placed e {#} \<or> (Assigned, b) \<in># placed e {#}"
    by (auto simp: placed_def)
  then have "machine_ok (eng_machines e) (Queued, b) \<or> machine_ok (eng_machines e) (Assigned, b)"
    using assms(1) by (auto simp: engine_inv_def places_ok_def)
  then show ?thesis using b(2) by (auto simp: machine_ok_def)
qed

lemma submit_create:
  assumes "op \<notin> set (machines (eng_machines e))" "op = ea_operation_id a"
  obtains m where "sm_state m = Queued" "action_digest m = ea_action_digest a"
    "submit now a e =
      (let (owner, s) = enqueue now a op (eng_scheduler e);
           e3 = e\<lparr>eng_machines := (eng_machines e)\<lparr>machines := machines (eng_machines e) @ [op],
                  heap := (heap (eng_machines e))(op := m)\<rparr>, eng_scheduler := s\<rparr>
       in if owner = op then (Some op, e3)
          else (get_machine owner (remove_machine op (eng_machines e3)),
                e3\<lparr>eng_machines := remove_machine op (eng_machines e3)\<rparr>))"
proof -
  let ?m = "attempt now Queued (machine_new now op (ea_action_digest a))"
  have "submit now a e =
      (let (owner, s) = enqueue now a op (eng_scheduler e);
           e3 = e\<lparr>eng_machines := (eng_machines e)\<lparr>machines := machines (eng_machines e) @ [op],
                  heap := (heap (eng_machines e))(op := ?m)\<rparr>, eng_scheduler := s\<rparr>
       in if owner = op then (Some op, e3)
          else (get_machine owner (remove_machine op (eng_machines e3)),
                e3\<lparr>eng_machines := remove_machine op (eng_machines e3)\<rparr>))"
    using assms
    by (simp add: submit_def Let_def create_machine_with_id_def machine_at_def machine_new_def transition_to_eq
        set_machine_def attempt_def split_beta terminal_stage_def)
  then show thesis
    by (rule that [rotated 2]) (simp_all add: attempt_def transition_to_eq machine_new_def)
qed

lemma places_ok_unregistered:
  "places_ok mgr P \<Longrightarrow> op \<notin> set (machines mgr) \<Longrightarrow> places_ok (mgr\<lparr>heap := (heap mgr)(op := m)\<rparr>) P"
  unfolding places_ok_def by (auto simp: machine_ok_def split: prod.splits)

lemma engine_inv_submit:
  assumes inv: "engine_inv e {#}" and fresh: "ea_operation_id a \<notin> set (machines (eng_machines e))"
  shows "engine_inv (snd (submit now a e)) {#}"
proof -
  let ?op = "ea_operation_id a" and ?mgr = "eng_machines e" and ?s = "eng_scheduler e"
  obtain m where m: "sm_state m = Queued" "action_digest m = ea_action_digest a"
    and sub: "submit now a e =
      (let (owner, s) = enqueue now a ?op ?s;
           e3 = e\<lparr>eng_machines := ?mgr\<lparr>machines := machines ?mgr @ [?op], heap := (heap ?mgr)(?op := m)\<rparr>, eng_scheduler := s\<rparr>
       in if owner = ?op then (Some ?op, e3)
          else (get_machine owner (remove_machine ?op (eng_machines e3)),
                e3\<lparr>eng_machines := remove_machine ?op (eng_machines e3)\<rparr>))"
    by (rule submit_create [OF fresh refl])
  show ?thesis
  proof (cases "map_of (in_flight_actions ?s) (ea_action_digest a)")
    case (Some entry)
    then have "if_operation_id entry \<noteq> ?op" using engine_owner_registered [OF inv] fresh by metis
    moreover have "enqueue now a ?op ?s = (if_operation_id entry, ?s)" by (simp add: enqueue_def Some)
    moreover have "remove_machine ?op (?mgr\<lparr>machines := machines ?mgr @ [?op], heap := (heap ?mgr)(?op := m)\<rparr>)
        = ?mgr\<lparr>heap := (heap ?mgr)(?op := m)\<rparr>"
      using fresh by (simp add: remove_machine_def)
    ultimately have "snd (submit now a e) = e\<lparr>eng_machines := ?mgr\<lparr>heap := (heap ?mgr)(?op := m)\<rparr>\<rparr>"
      by (simp add: sub Let_def)
    then show ?thesis
      using inv places_ok_unregistered [OF _ fresh, of _ m]
      by (simp add: engine_inv_def active_actions_def placed_def wires_ok_def)
  next
    case None
    let ?s' = "snd (enqueue now a ?op ?s)"
    let ?e' = "e\<lparr>eng_machines := ?mgr\<lparr>machines := machines ?mgr @ [?op], heap := (heap ?mgr)(?op := m)\<rparr>, eng_scheduler := ?s'\<rparr>"
    have s': "fst (enqueue now a ?op ?s) = ?op" by (simp add: enqueue_def None Let_def)
    have it: "all_items ?s' = add_mset \<lparr>action = a, enqueued_at = now, state_machine = ?op\<rparr> (all_items ?s)"
      using all_items_enqueue [OF engine_inv_sched [OF inv], of now a ?op] None by simp
    have "places_ok (?mgr\<lparr>machines := machines ?mgr @ [?op], heap := (heap ?mgr)(?op := m)\<rparr>) (add_mset (Queued, a) (placed e {#}))"
      using inv fresh m by (intro places_ok_new) (simp_all add: engine_inv_def terminal_stage_def)
    moreover have "flow_inv ?s' (active_actions e)"
      using inv by (simp add: engine_inv_def flow_inv_enqueue)
    moreover have "snd (submit now a e) = ?e'" by (simp add: sub s' Let_def split_beta)
    moreover have "placed ?e' {#} = add_mset (Queued, a) (placed e {#})"
      by (simp add: placed_def waiting_all_items it active_actions_def)
    moreover have "wires_ok ?e'" using inv it by (auto simp: engine_inv_def wires_ok_def)
    ultimately show ?thesis by (simp add: engine_inv_def active_actions_def)
  qed
qed

end
