(* ===== verification/Engine_Run.thy ===== *)
theory Engine_Run
  imports Engine
begin

text \<open>
  Runs of the execution engine: its initial state and every handler call, in any order, as an
  inductive predicate, and what holds in every state it reaches. Two things are asked of the
  environment: operation ids are not reused, and a result that would move a machine belongs to
  an operation that is assigned (the engine does not check this; a counterexample is below).
  Expiry of stale scheduler entries is left out of a run while it would drop an entry.
\<close>

section \<open>The initial state\<close>

definition DEFAULT_HEARTBEAT_TIMEOUT :: millis where
  "DEFAULT_HEARTBEAT_TIMEOUT = 300000"

definition DEFAULT_UNWATCHED_TIMEOUT :: millis where
  "DEFAULT_UNWATCHED_TIMEOUT = 60000"

text \<open>The three arguments are the environment variables that \<open>ExecutionEngine::new\<close> reads.\<close>

definition engine_new :: "millis \<Rightarrow> string option \<Rightarrow> string option \<Rightarrow> string option \<Rightarrow> 'resp engine" where
  "engine_new now losses_var heartbeat_var unwatched_var =
     \<lparr>eng_scheduler = scheduler_new now, eng_registry = registry_new,
      eng_machines = \<lparr>machines = [], heap = (\<lambda>op. machine_new now op \<lparr>hash = [], dsize = 0\<rparr>)\<rparr>,
      eng_results = [], result_queue = [], active_executions = [],
      max_worker_losses = losses_from_env losses_var,
      heartbeat_timeout = timeout_from_env DEFAULT_HEARTBEAT_TIMEOUT heartbeat_var,
      unwatched_timeout = timeout_from_env DEFAULT_UNWATCHED_TIMEOUT unwatched_var,
      recorded = [], outbox = []\<rparr>"

section \<open>Handlers in any order\<close>

definition sends :: "'resp engine \<Rightarrow> op_id \<Rightarrow> nat" where
  "sends e op = length (filter (\<lambda>(_, w). wa_execution_id w = execution_id op) (outbox e))"

definition next_report_ok :: "'resp engine \<Rightarrow> bool" where
  "next_report_ok e = (case result_queue e of [] \<Rightarrow> True | report # _ \<Rightarrow> report_ok e report)"

inductive engine_reachable :: "'resp engine \<Rightarrow> bool" where
  engine_start: "engine_reachable (engine_new now v1 v2 v3)"
| engine_submit: "engine_reachable e \<Longrightarrow> ea_operation_id a \<notin> set (machines (eng_machines e)) \<Longrightarrow>
    sends e (ea_operation_id a) = 0 \<Longrightarrow> ea_worker_losses a = 0 \<Longrightarrow> engine_reachable (snd (submit now a e))"
| engine_dispatch: "engine_reachable e \<Longrightarrow>
    engine_reachable (snd (dispatch_ready hex_encode send (score :: nat \<Rightarrow> int \<Rightarrow> real) now e))"
| engine_reported: "engine_reachable e \<Longrightarrow> engine_reachable (e\<lparr>result_queue := result_queue e @ [report]\<rparr>)"
| engine_result: "engine_reachable e \<Longrightarrow> next_report_ok e \<Longrightarrow> engine_reachable (result_step record_result now e)"
| engine_cancel: "engine_reachable e \<Longrightarrow> engine_reachable (snd (cancel_unwatched record_result reason now e))"
| engine_retire: "engine_reachable e \<Longrightarrow>
    engine_reachable (e\<lparr>eng_machines := snd (cleanup_finished_machines now ret (eng_machines e))\<rparr>)"
| engine_reap: "engine_reachable e \<Longrightarrow> engine_reachable (snd (reap_silent_workers now e))"
| engine_expire: "engine_reachable e \<Longrightarrow>
    engine_reachable (e\<lparr>eng_results := snd (cleanup_old now ttl (eng_results e))\<rparr>)"
| engine_fleet: "engine_reachable e \<Longrightarrow> engine_reachable (e\<lparr>eng_registry := registry_step op (eng_registry e)\<rparr>)"
| engine_watch: "engine_reachable e \<Longrightarrow> engine_reachable (set_machine op (watch (machine_at op e)) e)"
| engine_unwatch: "engine_reachable e \<Longrightarrow> engine_reachable (set_machine op (drop_watch now (machine_at op e)) e)"

section \<open>Every operation in progress is in one place\<close>

lemma places_ok_same_stage:
  assumes "places_ok mgr P" "sm_state m = sm_state (heap mgr op)" "action_digest m = action_digest (heap mgr op)"
  shows "places_ok (mgr\<lparr>heap := (heap mgr)(op := m)\<rparr>) P"
  using assms unfolding places_ok_def by (auto simp: machine_ok_def is_terminal_def split: prod.splits)

lemma engine_inv_same_stage:
  assumes "engine_inv e H" "sm_state m = sm_state (machine_at op e)" "action_digest m = action_digest (machine_at op e)"
  shows "engine_inv (set_machine op m e) H"
  using assms places_ok_same_stage [of "eng_machines e" _ m op] by (simp add: engine_inv_def machine_at_def)

lemma engine_inv_start: "engine_inv (engine_new now v1 v2 v3) {#}"
  by (simp add: engine_inv_def engine_new_def active_actions_def placed_def waiting_all_items all_items_def
      scheduler_new_def fq_new_def contents_def entries_mset_def places_ok_def wires_ok_def ops_of_def
      flow_inv_def sched_inv_def counts_ok_def fq_inv_def dispatched_count_def)

lemma engine_reachable_engine_inv: "engine_reachable e \<Longrightarrow> engine_inv e {#}"
proof (induction rule: engine_reachable.induct)
  case (engine_result e record_result now)
  then show ?case
    by (auto simp: result_step_def next_report_ok_def report_ok_def machine_at_def intro!: engine_inv_process_report
        split: list.splits worker_report.splits option.splits)
qed (simp_all add: engine_inv_start engine_inv_submit engine_inv_dispatch_ready engine_inv_cancel_unwatched
    engine_inv_retire engine_inv_reap engine_inv_same_stage watch_def drop_watch_def Let_def)

section \<open>A dispatch pass leaves no idle match\<close>

lemma queued_len_items: "sched_inv s \<Longrightarrow> queued_len s = size (all_items s)"
  by (simp add: queued_len_def all_items_def sched_inv_def fq_inv_def)

lemma slot_before_reserve:
  "has_free_slot (refresh_state (w\<lparr>running := running w @ [x], worker_heartbeat := now\<rparr>)) \<Longrightarrow> has_free_slot w"
  by (auto simp: has_free_slot_def accepts_work_def refresh_state_def split: if_splits)

lemma req_matches_reserve [simp]:
  "req_matches reqs (refresh_state (w\<lparr>running := xs, worker_heartbeat := now\<rparr>)) = req_matches reqs w"
  by (simp add: req_matches_def refresh_state_def split: option.split)

lemma select_None_reserve:
  assumes "select_worker reqs r = None" shows "select_worker reqs (reserve now wid eid r) = None"
proof -
  have "\<not> (has_free_slot v \<and> req_matches reqs v)" if kv: "(k, v) \<in> set (workers (reserve now wid eid r))" for k v
  proof -
    have no: "\<not> (has_free_slot w \<and> req_matches reqs w)" if "(k, w) \<in> set (workers r)" for w
      using assms that by (auto simp: select_worker_None)
    show ?thesis
    proof (cases "k = wid")
      case True
      then obtain w where "(k, w) \<in> set (workers r)" "v = refresh_state (w\<lparr>running := running w @ [eid], worker_heartbeat := now\<rparr>)"
        using kv by (auto simp: reserve_def set_alist_modify)
      then show ?thesis using no [of w] slot_before_reserve [where w = w and x = eid and now = now] by auto
    qed (use no kv in \<open>simp add: reserve_def set_alist_modify\<close>)
  qed
  then show ?thesis by (auto simp: select_worker_None)
qed

lemma select_None_default:
  "select_worker \<lparr>req_worker_type = None, req_labels = []\<rparr> r = None \<Longrightarrow> select_worker reqs r = None"
  by (auto simp: select_worker_None req_matches_def)

lemma dequeue_empty:
  assumes "sched_inv s" "fst (dequeue score now s) = None" shows "all_items s = {#}"
proof -
  obtain s1 where c: "try_dequeue score now Critical s = (None, s1)"
    using assms(2) by (cases "try_dequeue score now Critical s") (auto simp: dequeue_def split: option.splits)
  then have "s1 = s" using try_dequeue_None [OF assms(1)] by blast
  with c assms(2) obtain s2 where "try_dequeue score now Medium s = (None, s2)"
    by (cases "try_dequeue score now Medium s") (auto simp: dequeue_def split: option.splits)
  with c show ?thesis
    using try_dequeue_None [OF assms(1), of score now] by (fastforce simp: all_items_def sched_queue_def)
qed

lemma dispatch_delivered:
  assumes "engine_inv e (add_mset (Queued, a) H)" "send (snd w) (assignment_of hex_encode a)"
    and "dispatch hex_encode send now w a (ea_operation_id a) e = (ok, e')"
  shows "ok \<and> eng_scheduler e' = eng_scheduler e \<and> active_actions e' = add_mset a (active_actions e) \<and>
    eng_registry e' = reserve now (fst w) (execution_id (ea_operation_id a)) (eng_registry e) \<and>
    outbox e' = outbox e @ [(snd w, assignment_of hex_encode a)] \<and> max_worker_losses e' = max_worker_losses e"
proof -
  obtain m where m: "transition_to now Assigned (machine_at (ea_operation_id a) e) = Inr m"
    by (rule engine_stage [OF assms(1), of Assigned now]) (simp_all add: terminal_stage_def)
  have "map_of (active_executions e) (ea_operation_id a) = None"
    using engine_held_ok(2) [OF assms(1)] by (simp add: map_of_eq_None_iff)
  then show ?thesis
    using assms(2,3) by (auto simp: dispatch_def m Let_def split_beta active_actions_def update_fresh set_machine_def)
qed

definition pass_ok where
  "pass_ok e0 k n e u \<longleftrightarrow> engine_inv e (held u) \<and> (\<forall>(a, sm) \<in> set u. sm = ea_operation_id a) \<and>
     k = queued_len (eng_scheduler e) \<and>
     (\<forall>(a, sm) \<in> set u. select_worker (ea_requirements a) (eng_registry e) = None) \<and>
     (\<exists>D. waiting_actions (eng_scheduler e0) = waiting_actions (eng_scheduler e) + mset (map fst u) + D \<and>
        active_actions e = active_actions e0 + D \<and> size D = n)"

lemma pass_ok_dequeue:
  assumes "pass_ok e0 (Suc j) n e u" "dequeue score now (eng_scheduler e) = (Some (a, sm), s)"
  shows "sm = ea_operation_id a" "engine_inv (e\<lparr>eng_scheduler := s\<rparr>) (add_mset (Queued, a) (held u))"
    "queued_len s = j" "waiting_actions (eng_scheduler e) = add_mset a (waiting_actions s)"
proof -
  have e: "engine_inv e (held u)" "queued_len (eng_scheduler e) = Suc j" using assms(1) by (simp_all add: pass_ok_def)
  show d: "sm = ea_operation_id a" "engine_inv (e\<lparr>eng_scheduler := s\<rparr>) (add_mset (Queued, a) (held u))"
    using engine_dequeue [OF e(1) assms(2)] by auto
  obtain item where item: "all_items (eng_scheduler e) = add_mset item (all_items s)" "action item = a"
    by (rule all_items_dequeue [OF engine_inv_sched [OF e(1)] assms(2)])
  then show "queued_len s = j" "waiting_actions (eng_scheduler e) = add_mset a (waiting_actions s)"
    using e(2) engine_inv_sched [OF e(1)] engine_inv_sched [OF d(2)] by (simp_all add: queued_len_items waiting_all_items)
qed

lemma pass_ok_unmatched:
  assumes "pass_ok e0 (Suc j) n e u" "dequeue score now (eng_scheduler e) = (Some (a, sm), s)"
    "select_worker (ea_requirements a) (eng_registry e) = None"
  shows "pass_ok e0 j n (e\<lparr>eng_scheduler := s\<rparr>) (u @ [(a, sm)])"
  using assms(1,3) pass_ok_dequeue [OF assms(1,2)] by (auto simp: pass_ok_def held_def active_actions_def)

lemma pass_ok_sent:
  assumes "pass_ok e0 (Suc j) n e u" "dequeue score now (eng_scheduler e) = (Some (a, sm), s)"
    "\<And>tx x. send tx x" "dispatch hex_encode send now w a sm (e\<lparr>eng_scheduler := s\<rparr>) = (ok, e')"
  shows "pass_ok e0 j (if ok then n + 1 else n) e' u"
proof -
  note d = pass_ok_dequeue [OF assms(1,2)]
  have dd: "dispatch hex_encode send now w a (ea_operation_id a) (e\<lparr>eng_scheduler := s\<rparr>) = (ok, e')"
    using assms(4) d(1) by simp
  have e': "ok" "eng_scheduler e' = s" "active_actions e' = add_mset a (active_actions e)"
    "eng_registry e' = reserve now (fst w) (execution_id (ea_operation_id a)) (eng_registry e)"
    using dispatch_delivered [OF d(2) assms(3) dd] by (simp_all add: active_actions_def)
  have "engine_inv e' (held u)" using engine_inv_dispatch [OF d(2), of hex_encode send now w] assms(4) d(1) by simp
  moreover have "\<exists>D. waiting_actions (eng_scheduler e0) = waiting_actions s + mset (map fst u) + D \<and>
      active_actions e' = active_actions e0 + D \<and> size D = n + 1"
  proof -
    obtain D where "waiting_actions (eng_scheduler e0) = waiting_actions (eng_scheduler e) + mset (map fst u) + D"
      "active_actions e = active_actions e0 + D" "size D = n"
      using assms(1) by (auto simp: pass_ok_def)
    then show ?thesis using d(4) e'(3) by (intro exI [of _ "add_mset a D"]) simp
  qed
  ultimately show ?thesis
    using assms(1) d(3) e'(1,2,4) by (auto simp: pass_ok_def select_None_reserve)
qed

lemma put_back_all_waiting:
  "engine_inv e (held xs) \<Longrightarrow> \<forall>(a, sm) \<in> set xs. sm = ea_operation_id a \<Longrightarrow>
   waiting_actions (eng_scheduler (put_back_all now xs e)) = waiting_actions (eng_scheduler e) + mset (map fst xs) \<and>
   eng_registry (put_back_all now xs e) = eng_registry e \<and> active_actions (put_back_all now xs e) = active_actions e"
proof (induction xs arbitrary: e)
  case (Cons x xs)
  obtain a sm where x: "x = (a, sm)" by (cases x)
  let ?e = "e\<lparr>eng_scheduler := put_back now a sm (eng_scheduler e)\<rparr>"
  have "engine_inv ?e (held xs)"
    using engine_put_back [of e a "held xs" now] Cons.prems x by (simp add: held_def)
  from Cons.IH [OF this] Cons.prems(2) x show ?case
    using all_items_put_back [OF engine_inv_sched [OF Cons.prems(1)], of now a sm]
    by (simp add: put_back_all_def waiting_all_items active_actions_def)
qed (simp add: put_back_all_def)

lemma dispatch_pass:
  assumes inv: "engine_inv e {#}" and send: "\<And>tx x. send tx x"
    and d: "dispatch_ready hex_encode send score now e = (n, e')"
  shows "(\<forall>a. a \<in># waiting_actions (eng_scheduler e') \<longrightarrow> select_worker (ea_requirements a) (eng_registry e') = None) \<and>
     (\<exists>D. waiting_actions (eng_scheduler e) = waiting_actions (eng_scheduler e') + D \<and>
        active_actions e' = active_actions e + D \<and> size D = n)"
proof -
  obtain u e1 where l: "dispatch_loop hex_encode send score now (queued_len (eng_scheduler e)) 0 [] e = (n, u, e1)"
    and e': "e' = put_back_all now (rev u) e1"
    using d by (auto simp: dispatch_ready_def split: prod.splits)
  have "\<exists>j. pass_ok e j n e1 u \<and> (j = 0 \<or> select_worker \<lparr>req_worker_type = None, req_labels = []\<rparr> (eng_registry e1) = None \<or>
    fst (dequeue score now (eng_scheduler e1)) = None)"
  proof (rule dispatch_loop_rule [OF l])
    show "pass_ok e (queued_len (eng_scheduler e)) 0 e []" using inv by (simp add: pass_ok_def held_def)
    show "s = eng_scheduler e2" if "pass_ok e (Suc j) n e2 u" "dequeue score now (eng_scheduler e2) = (None, s)" for j n e2 u s
      using that by (auto simp: pass_ok_def dest: dequeue_None engine_inv_sched)
    show "pass_ok e j (if fst d then n + 1 else n) (snd d) u"
      if "pass_ok e (Suc j) n e2 u" "dequeue score now (eng_scheduler e2) = (Some (a, sm), s)"
        "d = dispatch hex_encode send now w a sm (e2\<lparr>eng_scheduler := s\<rparr>)" for j n e2 u a sm s w d
      using pass_ok_sent [where e' = "snd d", OF that(1,2) send] that(3) by simp
  qed (rule pass_ok_unmatched)
  then obtain j where j: "pass_ok e j n e1 u" and stop: "j = 0 \<or>
      select_worker \<lparr>req_worker_type = None, req_labels = []\<rparr> (eng_registry e1) = None \<or>
      fst (dequeue score now (eng_scheduler e1)) = None" by blast
  have e1: "engine_inv e1 (held u)" "\<forall>(a, sm) \<in> set u. sm = ea_operation_id a" "j = queued_len (eng_scheduler e1)"
    "\<forall>(a, sm) \<in> set u. select_worker (ea_requirements a) (eng_registry e1) = None"
    using j by (simp_all add: pass_ok_def)
  have pb: "waiting_actions (eng_scheduler e') = waiting_actions (eng_scheduler e1) + mset (map fst u)"
    "eng_registry e' = eng_registry e1" "active_actions e' = active_actions e1"
    unfolding e' using put_back_all_waiting [of e1 "rev u" now] e1(1,2) by (simp_all add: held_def rev_map [symmetric])
  have "waiting_actions (eng_scheduler e1) = {#} \<or> (\<forall>reqs. select_worker reqs (eng_registry e1) = None)"
    using stop e1(3) engine_inv_sched [OF e1(1)]
    by (auto simp: queued_len_items waiting_all_items dest: dequeue_empty select_None_default)
  then have "\<forall>a. a \<in># waiting_actions (eng_scheduler e') \<longrightarrow> select_worker (ea_requirements a) (eng_registry e') = None"
    using e1(4) by (auto simp: pb)
  moreover have "\<exists>D. waiting_actions (eng_scheduler e) = waiting_actions (eng_scheduler e') + D \<and>
        active_actions e' = active_actions e + D \<and> size D = n"
    using j by (simp add: pass_ok_def pb)
  ultimately show ?thesis by blast
qed

section \<open>How often an operation is handed out\<close>

definition sends_ok :: "'resp engine \<Rightarrow> (execution_stage \<times> executable_action) multiset \<Rightarrow> bool" where
  "sends_ok e H \<longleftrightarrow>
     (\<forall>st a. (st, a) \<in># placed e H \<longrightarrow> ea_worker_losses a \<le> max_worker_losses e \<and>
        sends e (ea_operation_id a) = ea_worker_losses a + (if st = Assigned then 1 else 0)) \<and>
     (\<forall>op. sends e op \<le> max_worker_losses e + 1)"

lemma sends_ok_subset:
  assumes "sends_ok e H" "set_mset (placed e' H') \<subseteq> set_mset (placed e H)" "outbox e' = outbox e"
    "max_worker_losses e' = max_worker_losses e"
  shows "sends_ok e' H'"
  using assms unfolding sends_ok_def sends_def by (metis subset_iff)

lemma sends_ok_add:
  assumes "sends_ok e H" "placed e' H' = add_mset (Queued, a) (placed e H)" "outbox e' = outbox e"
    "max_worker_losses e' = max_worker_losses e" "ea_worker_losses a \<le> max_worker_losses e"
    "sends e (ea_operation_id a) = ea_worker_losses a"
  shows "sends_ok e' H'"
  using assms unfolding sends_ok_def sends_def by auto

lemma execution_id_inject [simp]: "execution_id a = execution_id b \<longleftrightarrow> a = b"
  by (simp add: execution_id_def)

lemma engine_requeue_placed:
  assumes "engine_inv e (add_mset (Assigned, a) H)" "ea_operation_id a' = ea_operation_id a"
  shows "placed (engine_requeue now a' (ea_operation_id a) e) K = add_mset (Queued, a') (placed e K)"
    "outbox (engine_requeue now a' (ea_operation_id a) e) = outbox e"
    "max_worker_losses (engine_requeue now a' (ea_operation_id a) e) = max_worker_losses e"
proof -
  obtain m where m: "transition_to now Queued (machine_at (ea_operation_id a) e) = Inr m"
    by (rule engine_stage [OF assms(1), of Queued now]) (simp_all add: terminal_stage_def)
  show "placed (engine_requeue now a' (ea_operation_id a) e) K = add_mset (Queued, a') (placed e K)"
    using all_items_requeue [OF engine_inv_sched [OF assms(1)]]
    by (simp add: engine_requeue_def m placed_def waiting_all_items active_actions_def)
qed (simp_all add: engine_requeue_def set_machine_def split: sum.splits)

lemma sends_ok_dispatch:
  assumes inv: "engine_inv e (add_mset (Queued, a) H)" and ok: "sends_ok e (add_mset (Queued, a) H)"
  shows "sends_ok (snd (dispatch hex_encode send now w a (ea_operation_id a) e)) H"
proof (cases "send (snd w) (assignment_of hex_encode a)")
  case True
  let ?e = "snd (dispatch hex_encode send now w a (ea_operation_id a) e)"
  obtain ok' where "dispatch hex_encode send now w a (ea_operation_id a) e = (ok', ?e)" by (metis prod.collapse)
  note d = dispatch_delivered [OF inv True this]
  have op: "\<And>op. sends ?e op = sends e op + (if op = ea_operation_id a then 1 else 0)"
    using d by (auto simp: sends_def assignment_of_def)
  have pl: "placed ?e H = add_mset (Assigned, a) (placed e H)" using d by (simp add: placed_def)
  have "ea_operation_id b \<noteq> ea_operation_id a" if "(st, b) \<in># placed e H" for st b
    using places_ok_other [of "eng_machines e" Queued a "placed e H" "(st, b)"] that inv
    by (simp add: engine_inv_def placed_def)
  moreover have "(Queued, a) \<in># placed e (add_mset (Queued, a) H)" by (simp add: placed_def)
  ultimately show ?thesis
    using ok d unfolding sends_ok_def op pl by (auto simp: placed_def)
next
  case False
  obtain m where m: "transition_to now Assigned (machine_at (ea_operation_id a) e) = Inr m"
    "engine_inv (set_machine (ea_operation_id a) m e) (add_mset (Assigned, a) H)"
    by (rule engine_stage [OF inv, of Assigned now]) (simp_all add: terminal_stage_def)
  let ?e = "(set_machine (ea_operation_id a) m e)\<lparr>eng_registry := mark_unhealthy (fst w) (eng_registry e)\<rparr>"
  have "engine_inv ?e (add_mset (Assigned, a) H)" using m(2) by simp
  note r = engine_requeue_placed [OF this refl, of now]
  have "snd (dispatch hex_encode send now w a (ea_operation_id a) e) = engine_requeue now a (ea_operation_id a) ?e"
    using False by (simp add: dispatch_def m(1) Let_def split_beta)
  moreover have "placed ?e H = placed e H" by (simp add: placed_def active_actions_def)
  ultimately show ?thesis
    using r by (intro sends_ok_subset [OF ok]) (simp_all add: placed_def set_machine_def)
qed

lemma finalize_placed:
  "set_mset (placed (finalize record_result now op r act e) H) \<subseteq> set_mset (placed e H)"
  "outbox (finalize record_result now op r act e) = outbox e"
  "max_worker_losses (finalize record_result now op r act e) = max_worker_losses e"
  by (auto simp: finalize_def Let_def placed_def active_actions_def waiting_all_items set_machine_def AList.delete_eq
      split: option.splits)

lemma sends_ok_lose_one:
  assumes "engine_inv e (add_mset (Assigned, ax_action x) H)" "ea_operation_id (ax_action x) = op"
    and ok: "sends_ok e (add_mset (Assigned, ax_action x) H)"
  shows "sends_ok (lose_one record_result now (op, x) e) H"
proof -
  let ?a = "(ax_action x)\<lparr>ea_worker_losses := ea_worker_losses (ax_action x) + 1\<rparr>"
  have reg: "op \<in> set (machines (eng_machines e))"
    using engine_held_ok(1) [OF assms(1)] assms(2) by (simp add: machine_ok_def)
  have sub: "sends_ok e H" using ok by (rule sends_ok_subset) (auto simp: placed_def)
  have s: "sends e op = ea_worker_losses (ax_action x) + 1"
    using ok assms(2) by (auto simp: sends_ok_def placed_def)
  have "sends_ok (finalize record_result now op r act e) H" for r act
    by (rule sends_ok_subset [OF sub]) (simp_all add: finalize_placed)
  moreover have "sends_ok (engine_requeue now ?a op e) H" if "ea_worker_losses ?a \<le> max_worker_losses e"
    using engine_requeue_placed [OF assms(1), of ?a now] assms(2) s that
    by (intro sends_ok_add [OF sub, of _ _ ?a]) simp_all
  ultimately show ?thesis using reg by (simp add: lose_one_def get_machine_def Let_def)
qed

lemma sends_ok_lose_all:
  "engine_inv e (mset (map (\<lambda>(_, x). (Assigned, ax_action x)) lost) + H) \<Longrightarrow>
   sends_ok e (mset (map (\<lambda>(_, x). (Assigned, ax_action x)) lost) + H) \<Longrightarrow>
   \<forall>(op, x) \<in> set lost. ea_operation_id (ax_action x) = op \<Longrightarrow>
   sends_ok (fold (lose_one record_result now) lost e) H"
proof (induction lost arbitrary: e)
  case (Cons p lost)
  obtain op x where p: "p = (op, x)" by (cases p)
  let ?e = "lose_one record_result now (op, x) e" and ?H = "mset (map (\<lambda>(_, x). (Assigned, ax_action x)) lost) + H"
  have "engine_inv ?e ?H" using Cons.prems p by (intro engine_inv_lose_one) simp_all
  moreover have "sends_ok ?e ?H" using Cons.prems p by (intro sends_ok_lose_one) simp_all
  ultimately show ?case using Cons p by simp
qed simp

lemma sends_ok_worker_lost:
  assumes inv: "engine_inv e {#}" and ok: "sends_ok e {#}"
  shows "sends_ok (worker_lost record_result now wid e) {#}"
proof -
  let ?lost = "filter (\<lambda>(_, x). ax_worker_id x = wid) (active_executions e)"
  let ?e = "e\<lparr>active_executions := filter (\<lambda>(_, x). ax_worker_id x \<noteq> wid) (active_executions e)\<rparr>"
  let ?H = "mset (map (\<lambda>(_, x). (Assigned, ax_action x)) ?lost) + {#}"
  have "set_mset (placed ?e ?H) \<subseteq> set_mset (placed e {#})"
    by (auto simp: placed_def active_actions_def)
  then have "sends_ok ?e ?H" by (rule sends_ok_subset [OF ok]) simp_all
  moreover have "\<forall>(op, x) \<in> set ?lost. ea_operation_id (ax_action x) = op"
    using inv by (auto simp: engine_inv_def wires_ok_def)
  ultimately show ?thesis
    unfolding worker_lost_def Let_def by (rule sends_ok_lose_all [OF engine_inv_lost [OF inv]])
qed

lemma sends_ok_process_report:
  assumes "engine_inv e {#}" "sends_ok e {#}" "report_ok e report"
  shows "sends_ok (process_report record_result now report e) {#}"
proof (cases report)
  case (Result wid r)
  let ?e = "e\<lparr>eng_registry := release now wid (er_execution_id r) (eng_registry e)\<rparr>"
  have "sends_ok ?e {#}" by (rule sends_ok_subset [OF assms(2)]) (simp_all add: placed_def active_actions_def)
  then have "sends_ok (finalize record_result now op r None ?e) {#}" for op
    by (rule sends_ok_subset) (simp_all add: finalize_placed)
  with \<open>sends_ok ?e {#}\<close> show ?thesis by (simp add: process_report_def Result Let_def split: option.split)
qed (simp add: process_report_def sends_ok_worker_lost assms)

lemma sends_ok_dispatch_ready:
  assumes inv: "engine_inv e {#}" and ok: "sends_ok e {#}"
  shows "sends_ok (snd (dispatch_ready hex_encode send score now e)) {#}"
proof -
  let ?I = "\<lambda>(_ :: nat) (_ :: nat) e u. engine_inv e (held u) \<and> sends_ok e (held u) \<and> (\<forall>(a, sm) \<in> set u. sm = ea_operation_id a)"
  obtain n u e1 where l: "dispatch_loop hex_encode send score now (queued_len (eng_scheduler e)) 0 [] e = (n, u, e1)"
    by (metis prod.exhaust)
  have "\<exists>j. ?I j n e1 u \<and> (j = 0 \<or> select_worker \<lparr>req_worker_type = None, req_labels = []\<rparr> (eng_registry e1) = None \<or>
    fst (dequeue score now (eng_scheduler e1)) = None)"
  proof (rule dispatch_loop_rule [OF l, where I = ?I])
    fix e :: "'a engine" and u s a sm
    assume I: "engine_inv e (held u) \<and> sends_ok e (held u) \<and> (\<forall>(a, sm) \<in> set u. sm = ea_operation_id a)"
      and d: "dequeue score now (eng_scheduler e) = (Some (a, sm), s)"
    let ?e = "e\<lparr>eng_scheduler := s\<rparr>"
    have e: "sm = ea_operation_id a" "engine_inv ?e (add_mset (Queued, a) (held u))"
      using engine_dequeue [OF conjunct1 [OF I] d] by auto
    obtain item where "all_items (eng_scheduler e) = add_mset item (all_items s)" "action item = a"
      by (rule all_items_dequeue [OF engine_inv_sched [OF conjunct1 [OF I]] d])
    then have "placed ?e (add_mset (Queued, a) (held u)) = placed e (held u)"
      by (simp add: placed_def waiting_all_items active_actions_def)
    then have s: "sends_ok ?e (add_mset (Queued, a) (held u))"
      using I by (auto intro: sends_ok_subset)
    show "?I 0 0 ?e (u @ [(a, sm)])" using e s I by (auto simp: held_def)
    show "?I 0 0 (snd d) u" if "d = dispatch hex_encode send now w a sm ?e" for w d
      unfolding that using engine_inv_dispatch [OF e(2)] sends_ok_dispatch [OF e(2) s] e(1) I by simp
  qed (use inv ok in \<open>auto simp: held_def dest: dequeue_None engine_inv_sched\<close>)
  then have e1: "engine_inv e1 (held (rev u))" "sends_ok e1 (held (rev u))" "\<forall>(a, sm) \<in> set (rev u). sm = ea_operation_id a"
    by (auto simp: held_def)
  have "placed (put_back_all now (rev u) e1) {#} = placed e1 (held (rev u))"
    using put_back_all_waiting [OF e1(1,3), of now]
    by (simp add: placed_def held_def image_mset.compositionality comp_def case_prod_unfold)
  moreover have "outbox (put_back_all now xs e) = outbox e \<and> max_worker_losses (put_back_all now xs e) = max_worker_losses e" for xs and e :: "'a engine"
    by (induction xs arbitrary: e) (auto simp: put_back_all_def)
  ultimately show ?thesis
    using e1(2) by (auto simp: dispatch_ready_def l intro: sends_ok_subset)
qed

lemma cancel_fold_frame:
  "waiting_actions (eng_scheduler (fold (cancel_one record_result reason now) xs e)) = waiting_actions (eng_scheduler e) \<and>
   active_executions (fold (cancel_one record_result reason now) xs e) = active_executions e \<and>
   outbox (fold (cancel_one record_result reason now) xs e) = outbox e \<and>
   max_worker_losses (fold (cancel_one record_result reason now) xs e) = max_worker_losses e"
  by (induction xs arbitrary: e) (auto simp: cancel_one_def Let_def waiting_all_items set_machine_def split: prod.splits)

lemma sends_ok_cancel_unwatched:
  assumes "sends_ok e {#}" shows "sends_ok (snd (cancel_unwatched record_result reason now e)) {#}"
proof -
  obtain rs s where r: "remove_unwatched now (unwatched_timeout e) (heap (eng_machines e)) (eng_scheduler e) = (rs, s)"
    by fastforce
  obtain out where "all_items (eng_scheduler e) = mset out + all_items s"
    by (rule all_items_remove_unwatched [OF r])
  then show ?thesis
    using cancel_fold_frame [of record_result reason now rs "e\<lparr>eng_scheduler := s\<rparr>"]
    by (intro sends_ok_subset [OF assms]) (auto simp: cancel_unwatched_def r placed_def active_actions_def waiting_all_items)
qed

lemma sends_ok_submit:
  assumes "engine_inv e {#}" "sends_ok e {#}" "sends e (ea_operation_id a) = 0" "ea_worker_losses a = 0"
    "ea_operation_id a \<notin> set (machines (eng_machines e))"
  shows "sends_ok (snd (submit now a e)) {#}"
proof -
  let ?e = "snd (submit now a e)" and ?s = "snd (enqueue now a (ea_operation_id a) (eng_scheduler e))"
  obtain m where m: "submit now a e =
      (let (owner, s) = enqueue now a (ea_operation_id a) (eng_scheduler e);
           e3 = e\<lparr>eng_machines := (eng_machines e)\<lparr>machines := machines (eng_machines e) @ [ea_operation_id a],
                  heap := (heap (eng_machines e))(ea_operation_id a := m)\<rparr>, eng_scheduler := s\<rparr>
       in if owner = ea_operation_id a then (Some (ea_operation_id a), e3)
          else (get_machine owner (remove_machine (ea_operation_id a) (eng_machines e3)),
                e3\<lparr>eng_machines := remove_machine (ea_operation_id a) (eng_machines e3)\<rparr>))"
    by (rule submit_create [OF assms(5) refl])
  have fr: "eng_scheduler ?e = ?s" "active_executions ?e = active_executions e" "outbox ?e = outbox e"
    "max_worker_losses ?e = max_worker_losses e"
    by (auto simp: m Let_def split_beta)
  have "placed ?e {#} = placed e {#} \<or> placed ?e {#} = add_mset (Queued, a) (placed e {#})"
    using all_items_enqueue [OF engine_inv_sched [OF assms(1)], of now a "ea_operation_id a"]
    by (auto simp: placed_def fr active_actions_def waiting_all_items split: if_splits)
  then show ?thesis
  proof
    assume "placed ?e {#} = placed e {#}"
    then show ?thesis using fr(3,4) by (intro sends_ok_subset [OF assms(2)]) simp_all
  next
    assume "placed ?e {#} = add_mset (Queued, a) (placed e {#})"
    then show ?thesis using fr(3,4) assms(3,4) by (intro sends_ok_add [where a = a, OF assms(2)]) simp_all
  qed
qed

lemma sends_ok_start: "sends_ok (engine_new now v1 v2 v3) {#}"
  by (simp add: sends_ok_def engine_new_def sends_def placed_def waiting_all_items all_items_def scheduler_new_def
      fq_new_def contents_def entries_mset_def active_actions_def)

lemma engine_reachable_sends_ok: "engine_reachable e \<Longrightarrow> sends_ok e {#}"
proof (induction rule: engine_reachable.induct)
  case (engine_result e record_result now)
  show ?case
  proof (cases "result_queue e")
    case (Cons report rest)
    have "engine_inv (e\<lparr>result_queue := rest\<rparr>) {#}"
      using engine_reachable_engine_inv [OF engine_result(1)] by simp
    moreover have "sends_ok (e\<lparr>result_queue := rest\<rparr>) {#}"
      using engine_result(3) by (rule sends_ok_subset) (simp_all add: placed_def active_actions_def)
    moreover have "report_ok (e\<lparr>result_queue := rest\<rparr>) report"
      using engine_result(2) Cons
      by (simp add: next_report_ok_def report_ok_def machine_at_def split: worker_report.splits option.splits)
    ultimately show ?thesis by (simp add: result_step_def Cons sends_ok_process_report)
  qed (simp add: result_step_def engine_result)
next
  case (engine_reap e now)
  from engine_reap(2) show ?case
    by (rule sends_ok_subset) (simp_all add: reap_silent_workers_def Let_def placed_def active_actions_def)
next
  case (engine_watch e op)
  from engine_watch(2) show ?case by (rule sends_ok_subset) (simp_all, simp_all add: set_machine_def)
next
  case (engine_unwatch e op now)
  from engine_unwatch(2) show ?case by (rule sends_ok_subset) (simp_all, simp_all add: set_machine_def)
qed (auto simp: sends_ok_start engine_reachable_engine_inv sends_ok_submit sends_ok_dispatch_ready sends_ok_cancel_unwatched
    placed_def active_actions_def elim!: sends_ok_subset)

lemma flow_inv_in_flight:
  assumes "flow_inv s out"
  shows "map_of (in_flight_actions s) d \<noteq> None \<longleftrightarrow> d \<in># image_mset ea_action_digest (waiting_actions s + out)"
  by (simp only: flow_inv_digests [OF assms] set_mset_mset set_map map_of_eq_None_iff not_not)


text \<open>
  C30: an action that loses its workers is not retried forever. No operation is ever handed to
  workers more than \<open>max_worker_losses + 1\<close> times.
\<close>

theorem engine_sends_bounded: "engine_reachable e \<Longrightarrow> sends e op \<le> max_worker_losses e + 1"
  using engine_reachable_sends_ok [of e] by (simp add: sends_ok_def)


lemma finalize_assigned:
  assumes inv: "engine_inv e {#}" and act: "map_of (active_executions e) op = Some x"
    and e': "e' = finalize record_result now op r None e"
  shows "results_get op (eng_results e') = Some \<lparr>fo_result = r, fo_response = record_result (Some (ax_action x)) (machine_at op e) r\<rparr>"
    "sm_state (machine_at op e') = final_stage_of r" "op \<in> set (machines (eng_machines e'))"
    "map_of (in_flight_actions (eng_scheduler e')) (ea_action_digest (ax_action x)) = None"
    "map_of (active_executions e') op = None"
proof -
  have t: "ea_operation_id (ax_action x) = op"
    "engine_inv (e\<lparr>active_executions := AList.delete op (active_executions e)\<rparr>) (add_mset (Assigned, ax_action x) {#})"
    using engine_take [OF inv act] by auto
  have ok: "op \<in> set (machines (eng_machines e))" "sm_state (machine_at op e) = Assigned"
    "action_digest (machine_at op e) = ea_action_digest (ax_action x)"
    using engine_held_ok(1) [OF t(2)] t(1) by (simp_all add: machine_ok_def machine_at_def)
  have fin: "e' = (set_machine op (attempt now (final_stage_of r) (machine_at op e))
      (e\<lparr>active_executions := AList.delete op (active_executions e), recorded := recorded e @ [(Some (ax_action x), op, r)],
         eng_results := results_put now op \<lparr>fo_result = r, fo_response = record_result (Some (ax_action x)) (machine_at op e) r\<rparr> (eng_results e)\<rparr>))
    \<lparr>eng_scheduler := complete_action (ea_action_digest (ax_action x)) (eng_scheduler e)\<rparr>"
    unfolding e' using finalize_runs [of op e r "Some (ax_action x)" None record_result now] ok act
    by (simp del: can_transition_to.simps)
  show "results_get op (eng_results e') = Some \<lparr>fo_result = r, fo_response = record_result (Some (ax_action x)) (machine_at op e) r\<rparr>"
    by (simp add: fin results_get_def results_put_def map_of_update)
  show "sm_state (machine_at op e') = final_stage_of r"
    using ok(2) by (simp add: fin machine_at_def attempt_def transition_to_eq del: can_transition_to.simps)
  show "op \<in> set (machines (eng_machines e'))" using ok(1) by (simp add: fin)
  show "map_of (active_executions e') op = None" by (simp add: fin map_of_delete)
  show "map_of (in_flight_actions (eng_scheduler e')) (ea_action_digest (ax_action x)) = None"
    by (simp add: fin complete_action_def Let_def map_of_delete)
qed

text \<open>
  C32: the first result wins. A result of an assigned operation is stored with the recorder's
  response, moves the machine to the stage the result calls for and releases the digest; every
  later result of the operation, from whatever worker, changes nothing.
\<close>

theorem first_result_wins:
  assumes "engine_reachable e" and "map_of (active_executions e) op = Some x"
  shows "let e' = finalize record_result now op r None e in
     results_get op (eng_results e') = Some \<lparr>fo_result = r, fo_response = record_result (Some (ax_action x)) (machine_at op e) r\<rparr> \<and>
     sm_state (machine_at op e') = final_stage_of r \<and>
     map_of (in_flight_actions (eng_scheduler e')) (ea_action_digest (ax_action x)) = None \<and>
     finalize record_result' later op r' act e' = e'"
proof -
  define e' where "e' = finalize record_result now op r None e"
  note f = finalize_assigned [OF engine_reachable_engine_inv [OF assms(1)] assms(2) e'_def]
  have "\<not> can_transition_to (sm_state (machine_at op e')) st" for st
    by (simp add: f(2) final_stage_of_def)
  then have "finalize record_result' later op r' act e' = e'" by (intro finalize_dropped f(3))
  then show ?thesis using f unfolding e'_def [symmetric] Let_def by simp
qed

definition demo_action :: executable_action where
  "demo_action = plain_action 1 ''i'' \<lparr>hash = [], dsize = 1\<rparr>"

definition demo_worker :: worker_info where
  "demo_worker = \<lparr>worker_id = ''w'', worker_type = ''default'', labels = [], wstate = Idle, capacity = 2,
     running = [], worker_heartbeat = 0, assignment_tx = 0\<rparr>"

definition demo_queued :: "unit engine" where
  "demo_queued = snd (submit 1 demo_action (engine_new 0 None None None))"

definition demo_assigned :: "unit engine" where
  "demo_assigned = snd (dispatch_ready lower_hex (\<lambda>_ _. True) (\<lambda>_ _. 0 :: real) 2
     (demo_queued\<lparr>eng_registry := registry_step (OpRegister demo_worker) (eng_registry demo_queued)\<rparr>))"

lemma demo_queued_reachable: "engine_reachable demo_queued"
  unfolding demo_queued_def
  by (rule engine_submit [OF engine_start]) (simp_all add: engine_new_def sends_def demo_action_def plain_action_def)

lemma demo_assigned_reachable: "engine_reachable demo_assigned"
  unfolding demo_assigned_def by (rule engine_dispatch [OF engine_fleet [OF demo_queued_reachable]])

lemmas demo_defs = demo_queued_def demo_action_def plain_action_def submit_def engine_new_def create_machine_with_id_def
  machine_at_def machine_new_def transition_to_eq terminal_stage_def set_machine_def enqueue_def scheduler_new_def
  sched_queue_def set_queue_def enqueued_stat_def fq_push_def fq_new_def invocation_of_def Let_def

lemma demo_queued_eval:
  "machines (eng_machines demo_queued) = [1]" "sm_state (machine_at 1 demo_queued) = Queued"
  "waiting_actions (eng_scheduler demo_queued) = {#demo_action#}" "active_executions demo_queued = []"
  "in_flight_actions (eng_scheduler demo_queued) =
     [(\<lparr>hash = [], dsize = 1\<rparr>, \<lparr>if_operation_id = 1, inserted_at = 1, if_invocation = ''i'', dispatched = False\<rparr>)]"
  by (simp_all add: demo_defs) (simp add: waiting_actions_def contents_def entries_mset_def)

lemma demo_assigned_eval:
  "map_of (active_executions demo_assigned) 1 = Some \<lparr>ax_worker_id = ''w'', ax_action = demo_action\<rparr>"
  by (simp add: demo_assigned_def dispatch_ready_def demo_defs queued_len_def register_def registry_new_def demo_worker_def
   select_worker_def has_free_slot_def accepts_work_def req_matches_def dequeue_def try_dequeue_def fq_pop_def head_priority_def
   mark_dispatched_def running_of_def dequeued_stat_def dispatch_def put_back_all_def alist_modify_def fq_rank_def)

text \<open>
  C33: a result is not checked against the place of its operation. When a worker given up for lost
  reports an error after all, for an operation that went back to the queue, the operation fails
  and its digest is released, but its action stays in the queue: it is no longer protected
  against a second copy, and whoever dequeues it releases the digest of that copy.
\<close>

theorem late_error_leaves_queued:
  assumes "engine_reachable e" and "a \<in># waiting_actions (eng_scheduler e)"
    and "operation_id_of (er_execution_id r) = Some (ea_operation_id a)" and "er_error r \<noteq> None"
  shows "let e' = process_report record_result now (Result wid r) e in
    a \<in># waiting_actions (eng_scheduler e') \<and> sm_state (machine_at (ea_operation_id a) e') = Failed \<and>
    map_of (in_flight_actions (eng_scheduler e')) (ea_action_digest a) = None"
proof -
  let ?op = "ea_operation_id a" and ?e = "e\<lparr>eng_registry := release now wid (er_execution_id r) (eng_registry e)\<rparr>"
  have "(Queued, a) \<in># placed e {#}" using assms(2) by (simp add: placed_def)
  then have ok: "?op \<in> set (machines (eng_machines e))" "sm_state (machine_at ?op e) = Queued"
    "action_digest (machine_at ?op e) = ea_action_digest a"
    using engine_reachable_engine_inv [OF assms(1)]
    by (auto simp: engine_inv_def places_ok_def machine_ok_def machine_at_def)
  have st: "final_stage_of r = Failed" "machine_at ?op ?e = machine_at ?op e"
    using assms(4) by (simp_all add: final_stage_of_def machine_at_def)
  have "finalize record_result now ?op r None ?e =
    (set_machine ?op (attempt now Failed (machine_at ?op e))
      (?e\<lparr>active_executions := AList.delete ?op (active_executions e),
          recorded := recorded e @ [(map_option ax_action (map_of (active_executions e) ?op), ?op, r)],
          eng_results := results_put now ?op \<lparr>fo_result = r, fo_response =
            record_result (map_option ax_action (map_of (active_executions e) ?op)) (machine_at ?op e) r\<rparr> (eng_results e)\<rparr>))
    \<lparr>eng_scheduler := complete_action (ea_action_digest a) (eng_scheduler e)\<rparr>"
    using finalize_runs [of ?op ?e r "map_option ax_action (map_of (active_executions e) ?op)" None record_result now]
    by (simp add: ok st split: option.split)
  then show ?thesis
    using assms(2,3) by (simp add: process_report_def Let_def machine_at_def attempt_def transition_to_eq ok(2) [unfolded machine_at_def]
        waiting_all_items) (simp add: complete_action_def Let_def map_of_delete)
qed

theorem late_error_leaves_queued_witness:
  "demo_action \<in># waiting_actions (eng_scheduler
     (process_report (\<lambda>_ _ _. ()) 3 (Result ''w'' (engine_failure 1 ''lost'')) demo_queued))"
proof -
  have "ea_operation_id demo_action = 1" by (simp add: demo_action_def plain_action_def)
  then show ?thesis
    using late_error_leaves_queued [OF demo_queued_reachable, of demo_action "engine_failure 1 ''lost''" "\<lambda>_ _ _. ()" 3 "''w''"]
      operation_id_of_execution_id [of 1]
    by (simp add: demo_queued_eval engine_failure_def Let_def)
qed


theorem engine_sends_bounded_witness: "sends demo_assigned 1 \<le> max_worker_losses demo_assigned + 1"
  by (rule engine_sends_bounded [OF demo_assigned_reachable])

theorem first_result_wins_witness:
  "let e' = finalize (\<lambda>_ _ _. ()) 3 1 (engine_failure 1 ''x'') None demo_assigned
   in sm_state (machine_at 1 e') = Failed \<and> finalize (\<lambda>_ _ _. ()) 4 1 (engine_failure 1 ''y'') None e' = e'"
  using first_result_wins [OF demo_assigned_reachable demo_assigned_eval, of "\<lambda>_ _ _. ()" 3 "engine_failure 1 ''x''"
      "\<lambda>_ _ _. ()" 4 "engine_failure 1 ''y''" None]
  by (simp add: Let_def final_stage_of_def engine_failure_def)


end
