(* ===== verification/Lru_State.thy ===== *)
theory Lru_State
  imports Digest
begin

text \<open>
  \<open>cache/lru.rs\<close>: the recency bookkeeping of the disk store and the two action caches.
  \<open>order\<close> is the counter-to-digest tree in counter order, the three hash maps are partial
  functions, and a mutating method returns the new state after its result. Counters are
  natural numbers: a \<open>u64\<close> counter grows by one a call and starts from a time in
  milliseconds, so it does not reach its bound. The abstraction \<open>recency\<close> lists the tracked
  digests from the least to the most recently used.
\<close>

record lru_state =
  order :: "(nat \<times> digest_info) list"
  positions :: "digest_info \<rightharpoonup> nat"
  sizes :: "digest_info \<rightharpoonup> nat"
  hash_index :: "bytes \<rightharpoonup> digest_info"
  next_counter :: nat

definition lru_new :: lru_state where
  "lru_new = \<lparr>order = [], positions = Map.empty, sizes = Map.empty, hash_index = Map.empty,
              next_counter = 1\<rparr>"

definition floor_counter :: "nat \<Rightarrow> lru_state \<Rightarrow> lru_state" where
  "floor_counter stamp s = s\<lparr>next_counter := max (next_counter s) (stamp + 1)\<rparr>"

definition track :: "digest_info \<Rightarrow> nat \<Rightarrow> nat \<Rightarrow> lru_state \<Rightarrow> lru_state" where
  "track d sz counter s =
     s\<lparr>order := bt_insert counter d (order s),
       positions := (positions s)(d \<mapsto> counter),
       sizes := (sizes s)(d \<mapsto> sz),
       hash_index := (hash_index s)(hash d \<mapsto> d)\<rparr>"

definition forget :: "digest_info \<Rightarrow> lru_state \<Rightarrow> nat option \<times> lru_state" where
  "forget d s =
     (sizes s d,
      s\<lparr>hash_index := (if hash_index s (hash d) = Some d
                       then (hash_index s)(hash d := None) else hash_index s),
        sizes := (sizes s)(d := None)\<rparr>)"

definition touch :: "digest_info \<Rightarrow> nat \<Rightarrow> lru_state \<Rightarrow> lru_state" where
  "touch d sz s =
     (let s1 = (case positions s d of
                  Some old_counter \<Rightarrow>
                    s\<lparr>positions := (positions s)(d := None),
                      order := bt_remove old_counter (order s)\<rparr>
                | None \<Rightarrow> s);
          counter = next_counter s1
      in track d sz counter (s1\<lparr>next_counter := counter + 1\<rparr>))"

definition lru_contains :: "digest_info \<Rightarrow> lru_state \<Rightarrow> bool" where
  "lru_contains d s = (positions s d \<noteq> None)"

text \<open>The loop of \<open>insert_at\<close>: the first counter from \<open>c\<close> on that the tree does not use.\<close>

function free_counter :: "(nat \<times> digest_info) list \<Rightarrow> nat \<Rightarrow> nat" where
  "free_counter ord c = (if bt_contains c ord then free_counter ord (c + 1) else c)"
  by pat_completeness auto
termination
proof (relation "measure (\<lambda>(ord, c). length (filter (\<lambda>p. c \<le> fst p) ord))"; simp)
  fix ord :: "(nat \<times> digest_info) list" and c
  assume "bt_contains c ord"
  then obtain p where p: "p \<in> set ord" "fst p = c" by (auto simp: bt_contains_iff)
  have "filter (\<lambda>p. Suc c \<le> fst p) ord = filter (\<lambda>p. fst p \<noteq> c) (filter (\<lambda>p. c \<le> fst p) ord)"
    by (auto intro: filter_cong)
  moreover have "length (filter (\<lambda>p. fst p \<noteq> c) (filter (\<lambda>p. c \<le> fst p) ord))
      < length (filter (\<lambda>p. c \<le> fst p) ord)"
    using p by (intro length_filter_less [of p]) auto
  ultimately show "length (filter (\<lambda>p. Suc c \<le> fst p) ord) < length (filter (\<lambda>p. c \<le> fst p) ord)"
    by simp
qed

declare free_counter.simps [simp del]

definition insert_at :: "digest_info \<Rightarrow> nat \<Rightarrow> nat \<Rightarrow> lru_state \<Rightarrow> bool \<times> lru_state" where
  "insert_at d sz stamp s =
     (if hash_index s (hash d) \<noteq> None then (False, s)
      else let counter = free_counter (order s) (max stamp 1);
               s1 = track d sz counter s
           in (True, s1\<lparr>next_counter := max (next_counter s1) (counter + 1)\<rparr>))"

definition lru_remove :: "digest_info \<Rightarrow> lru_state \<Rightarrow> nat option \<times> lru_state" where
  "lru_remove d s =
     (case positions s d of
        None \<Rightarrow> (None, s)
      | Some counter \<Rightarrow>
          forget d (s\<lparr>positions := (positions s)(d := None),
                      order := bt_remove counter (order s)\<rparr>))"

definition pop_lru :: "lru_state \<Rightarrow> (digest_info \<times> nat) option \<times> lru_state" where
  "pop_lru s =
     (case order s of
        [] \<Rightarrow> (None, s)
      | (c, d) # rest \<Rightarrow>
          (let (sz, s1) = forget d (s\<lparr>order := rest, positions := (positions s)(d := None)\<rparr>)
           in (Some (d, case sz of Some z \<Rightarrow> z | None \<Rightarrow> 0), s1)))"

lemma order_pop_lru:
  "pop_lru s = (r, s') \<Longrightarrow> order s' = tl (order s)"
  by (auto simp: pop_lru_def forget_def split: list.splits prod.splits)

lemma pop_lru_shrinks: "pop_lru s = (Some r, s') \<Longrightarrow> length (order s') < length (order s)"
  using order_pop_lru [of s "Some r" s'] by (cases "order s") (auto simp: pop_lru_def)

function evict :: "nat \<Rightarrow> lru_state \<Rightarrow> (digest_info \<times> nat) list \<times> lru_state" where
  "evict free_bytes s =
     (if free_bytes = 0 then ([], s)
      else case pop_lru s of
             (None, s') \<Rightarrow> ([], s')
           | (Some (d, sz), s') \<Rightarrow>
               (case evict (free_bytes - sz) s' of (removed, s'') \<Rightarrow> ((d, sz) # removed, s'')))"
  by pat_completeness auto
termination
  by (relation "measure (\<lambda>(f, s). length (order s))") (auto dest: pop_lru_shrinks [OF sym])

declare evict.simps [simp del]

definition lru_len :: "lru_state \<Rightarrow> nat" where
  "lru_len s = length (order s)"

definition lru_is_empty :: "lru_state \<Rightarrow> bool" where
  "lru_is_empty s = (order s = [])"

section \<open>Invariant and abstraction\<close>

definition recency :: "lru_state \<Rightarrow> digest_info list" where
  "recency s = map snd (order s)"

definition lru_inv :: "lru_state \<Rightarrow> bool" where
  "lru_inv s \<longleftrightarrow>
     bt_sorted (order s) \<and>
     (\<forall>c d. (c, d) \<in> set (order s) \<longleftrightarrow> positions s d = Some c) \<and>
     dom (sizes s) = dom (positions s) \<and>
     (\<forall>c d. (c, d) \<in> set (order s) \<longrightarrow> c < next_counter s) \<and>
     (\<forall>h d. hash_index s h = Some d \<longrightarrow> hash d = h \<and> positions s d \<noteq> None)"

text \<open>No content hash is tracked under two keys, and the hash index knows every key.\<close>

definition lru_unique :: "lru_state \<Rightarrow> bool" where
  "lru_unique s \<longleftrightarrow> lru_inv s \<and> (\<forall>d. positions s d \<noteq> None \<longrightarrow> hash_index s (hash d) = Some d)"

lemma lru_invI:
  assumes "bt_sorted (order s)" "\<And>c d. (c, d) \<in> set (order s) \<longleftrightarrow> positions s d = Some c"
    "dom (sizes s) = dom (positions s)" "\<And>c d. positions s d = Some c \<Longrightarrow> c < next_counter s"
    "\<And>h d. hash_index s h = Some d \<Longrightarrow> hash d = h \<and> positions s d \<noteq> None"
  shows "lru_inv s"
  using assms unfolding lru_inv_def by blast

lemma lru_inv_parts:
  assumes "lru_inv s"
  shows lru_inv_sorted: "bt_sorted (order s)"
    and lru_inv_at: "(c, d) \<in> set (order s) \<longleftrightarrow> positions s d = Some c"
    and lru_inv_dom: "dom (sizes s) = dom (positions s)"
    and lru_inv_less: "positions s d = Some c \<Longrightarrow> c < next_counter s"
    and lru_inv_hash: "hash_index s h = Some d \<Longrightarrow> hash d = h \<and> positions s d \<noteq> None"
  using assms unfolding lru_inv_def by blast+

lemma lru_inv_new [inv_intros]: "lru_inv lru_new"
  by (simp add: lru_inv_def lru_new_def)

lemma lru_inv_floor [inv_intros]: "lru_inv s \<Longrightarrow> lru_inv (floor_counter stamp s)"
  by (auto simp: lru_inv_def floor_counter_def less_max_iff_disj)

lemma lru_inv_order_distinct: "lru_inv s \<Longrightarrow> distinct (map fst (order s))"
  by (simp add: lru_inv_def strict_sorted_iff)

lemma lru_inv_recency_distinct:
  assumes "lru_inv s" shows "distinct (recency s)"
proof -
  have at: "positions s (snd p) = Some (fst p)" if "p \<in> set (order s)" for p
    using lru_inv_at [OF assms] that by (cases p) simp
  have "inj_on snd (set (order s))"
  proof (rule inj_onI)
    fix p q assume "p \<in> set (order s)" "q \<in> set (order s)" "snd p = snd q"
    then show "p = q" using at [of p] at [of q] by (simp add: prod_eq_iff)
  qed
  moreover have "distinct (order s)"
    using lru_inv_order_distinct [OF assms] by (simp add: distinct_map)
  ultimately show ?thesis by (simp add: recency_def distinct_map)
qed

lemma lru_inv_inj:
  assumes "lru_inv s" "positions s d = Some c" "positions s e = Some c"
  shows "d = e"
proof -
  have "(c, d) \<in> set (order s)" "(c, e) \<in> set (order s)"
    using lru_inv_at [OF assms(1)] assms(2,3) by simp_all
  then show ?thesis using eq_key_imp_eq_value [OF lru_inv_order_distinct [OF assms(1)]] by blast
qed

lemma set_recency:
  assumes "lru_inv s" shows "set (recency s) = dom (positions s)"
proof -
  have "d \<in> set (recency s) \<longleftrightarrow> (\<exists>c. (c, d) \<in> set (order s))" for d
    by (auto simp: recency_def intro: rev_image_eqI)
  then show ?thesis using lru_inv_at [OF assms] by auto
qed

lemma bt_remove_at:
  assumes "lru_inv s" and "positions s d = Some c"
  shows "map snd (bt_remove c (order s)) = filter (\<lambda>e. e \<noteq> d) (recency s)"
proof -
  have "fst p \<noteq> c \<longleftrightarrow> snd p \<noteq> d" if "p \<in> set (order s)" for p
  proof -
    from that have "positions s (snd p) = Some (fst p)"
      using lru_inv_at [OF assms(1), of "fst p" "snd p"] by simp
    with assms show ?thesis using lru_inv_inj [OF assms(1)] by auto
  qed
  then show ?thesis
    by (simp add: bt_remove_def recency_def filter_map comp_def cong: filter_cong)
qed

lemma recency_track_top:
  assumes "\<forall>j \<in> fst ` set (order s). j < c"
  shows "recency (track d sz c s) = recency s @ [d]"
  using bt_insert_top [OF assms] by (simp add: recency_def track_def)

lemma recency_touch:
  assumes "lru_inv s"
  shows "recency (touch d sz s) = filter (\<lambda>e. e \<noteq> d) (recency s) @ [d]"
proof (cases "positions s d")
  case None
  then have "d \<notin> set (recency s)" using set_recency [OF assms] by auto
  then have "filter (\<lambda>e. e \<noteq> d) (recency s) = recency s" by simp
  moreover have "recency (touch d sz s) = recency (s\<lparr>next_counter := next_counter s + 1\<rparr>) @ [d]"
    unfolding touch_def Let_def None option.case
    by (rule recency_track_top) (use assms in \<open>auto simp: lru_inv_def\<close>)
  ultimately show ?thesis by (simp add: recency_def)
next
  case (Some c)
  have "recency (touch d sz s) = map snd (bt_remove c (order s)) @ [d]"
    unfolding touch_def Let_def Some option.case
    by (subst recency_track_top) (use assms in \<open>auto simp: lru_inv_def recency_def\<close>)
  with bt_remove_at [OF assms Some] show ?thesis by simp
qed

lemma sizes_touch [simp]: "sizes (touch d sz s) = (sizes s)(d \<mapsto> sz)"
  by (simp add: touch_def track_def Let_def split: option.splits)

lemma hash_index_touch [simp]: "hash_index (touch d sz s) = (hash_index s)(hash d \<mapsto> d)"
  by (simp add: touch_def track_def Let_def split: option.splits)

lemma dom_positions_touch [simp]: "dom (positions (touch d sz s)) = insert d (dom (positions s))"
  by (auto simp: touch_def track_def Let_def split: option.splits if_splits)

lemma lru_inv_track:
  assumes inv: "lru_inv s" and new: "positions s d = None" "c \<notin> fst ` set (order s)"
    and less: "c < next_counter t" "next_counter s \<le> next_counter t"
    and f: "order t = bt_insert c d (order s)" "positions t = (positions s)(d \<mapsto> c)"
      "sizes t = (sizes s)(d \<mapsto> sz)" "hash_index t = (hash_index s)(hash d \<mapsto> d)"
  shows "lru_inv t"
proof (rule lru_invI)
  show "(k, e) \<in> set (order t) \<longleftrightarrow> positions t e = Some k" for k e
    using lru_inv_at [OF inv, of k e] new by (auto simp: f set_bt_insert_fresh)
  show "k < next_counter t" if "positions t e = Some k" for k e
    using that less lru_inv_less [OF inv, of e k] by (auto simp: f split: if_splits)
  show "hash e = h \<and> positions t e \<noteq> None" if "hash_index t h = Some e" for h e
    using that lru_inv_hash [OF inv, of h e] by (auto simp: f split: if_splits)
qed (use inv in \<open>simp_all add: f lru_inv_sorted lru_inv_dom\<close>)

lemma lru_inv_dropped:
  assumes inv: "lru_inv s" and at: "positions s d = Some c"
    and f: "positions t = (positions s)(d := None)" "order t = bt_remove c (order s)"
      "sizes t = (sizes s)(d := None)" "next_counter t = next_counter s"
    and hi: "hash_index t = (if hash_index s (hash d) = Some d then (hash_index s)(hash d := None)
                    else hash_index s)"
  shows "lru_inv t"
proof (rule lru_invI)
  show "(k, e) \<in> set (order t) \<longleftrightarrow> positions t e = Some k" for k e
    using at lru_inv_inj [OF inv, of d k e] lru_inv_at [OF inv, of k e] unfolding f
    by (cases "e = d"; cases "k = c") auto
  show "k < next_counter t" if "positions t e = Some k" for k e
    using that lru_inv_less [OF inv, of e k] by (auto simp: f split: if_splits)
  show "hash e = h \<and> positions t e \<noteq> None" if "hash_index t h = Some e" for h e
    using that lru_inv_hash [OF inv, of h e] by (auto simp: f hi split: if_splits)
qed (use inv in \<open>simp_all add: f lru_inv_sorted lru_inv_dom\<close>)

lemma free_counter_fresh: "free_counter ord c \<notin> fst ` set ord"
  by (induction ord c rule: free_counter.induct)
    (subst free_counter.simps, simp add: bt_contains_iff)

lemma free_counter_least:
  "c \<le> free_counter ord c \<and> (\<forall>k. c \<le> k \<and> k < free_counter ord c \<longrightarrow> k \<in> fst ` set ord)"
proof (induction ord c rule: free_counter.induct)
  case (1 ord c)
  show ?case
  proof (cases "bt_contains c ord")
    case True
    then have eq: "free_counter ord c = free_counter ord (c + 1)"
      by (simp add: free_counter.simps [of ord c])
    have "c \<in> fst ` set ord" using True by (simp add: bt_contains_iff)
    with 1 [OF True] show ?thesis unfolding eq
      by (metis Suc_eq_plus1 Suc_leD Suc_leI le_neq_implies_less)
  qed (auto simp: free_counter.simps [of ord c])
qed

lemma lru_inv_pre_touch:
  assumes inv: "lru_inv s" and at: "positions s d = Some c"
  shows "lru_inv (snd (forget d (s\<lparr>positions := (positions s)(d := None),
     order := bt_remove c (order s)\<rparr>)))"
  by (rule lru_inv_dropped [OF assms]) (simp_all add: forget_def)

lemma lru_inv_remove [inv_intros]: "lru_inv s \<Longrightarrow> lru_inv (snd (lru_remove d s))"
  using lru_inv_pre_touch by (simp add: lru_remove_def split: option.splits)


lemma lru_inv_touch [inv_intros]:
  assumes "lru_inv s" shows "lru_inv (touch d sz s)"
proof (cases "positions s d")
  case None
  have "next_counter s \<notin> fst ` set (order s)"
    using lru_inv_at [OF assms] lru_inv_less [OF assms] by fastforce
  then show ?thesis
    by (intro lru_inv_track [OF assms None, where c = "next_counter s" and sz = sz])
      (simp_all add: touch_def Let_def None track_def)
next
  case (Some c)
  let ?r = "snd (lru_remove d s)"
  have inv: "lru_inv ?r" using assms by (rule lru_inv_remove)
  have n: "next_counter ?r = next_counter s" "positions ?r d = None"
    by (simp_all add: lru_remove_def Some forget_def)
  have "next_counter s \<notin> fst ` set (order ?r)"
    using lru_inv_at [OF inv] lru_inv_less [OF inv] n by fastforce
  then show ?thesis
    by (intro lru_inv_track [OF inv n(2), where c = "next_counter s" and sz = sz])
      (simp_all add: touch_def Let_def lru_remove_def Some forget_def track_def)
qed

lemma pop_lru_Nil: "order s = [] \<Longrightarrow> pop_lru s = (None, s)"
  by (simp add: pop_lru_def)

lemma pop_lru_Cons:
  assumes "lru_inv s" and "order s = (c, d) # rest"
  shows "pop_lru s = (Some (d, the (sizes s d)), snd (lru_remove d s))"
proof -
  have at: "positions s d = Some c" using lru_inv_at [OF assms(1), of c d] assms(2) by simp
  then have "sizes s d \<noteq> None" using lru_inv_dom [OF assms(1)] by auto
  moreover have "bt_remove c (order s) = rest"
    using lru_inv_order_distinct [OF assms(1)] assms(2)
    by (auto simp: bt_remove_def filter_id_conv image_iff)
  ultimately show ?thesis
    by (auto simp: pop_lru_def lru_remove_def at assms(2) forget_def)
qed

lemma lru_inv_pop [inv_intros]: "lru_inv s \<Longrightarrow> lru_inv (snd (pop_lru s))"
  by (cases "order s") (auto simp: pop_lru_Nil pop_lru_Cons lru_inv_remove)

lemma lru_inv_insert_at [inv_intros]:
  assumes "lru_inv s" and "positions s d = None"
  shows "lru_inv (snd (insert_at d sz stamp s))"
proof (cases "hash_index s (hash d)")
  case None
  show ?thesis
    by (rule lru_inv_track [OF assms free_counter_fresh [of "order s" "max stamp 1"], where sz = sz])
      (simp_all add: insert_at_def None Let_def track_def)
qed (simp add: insert_at_def assms(1))

lemma recency_remove:
  assumes "lru_inv s"
  shows "recency (snd (lru_remove d s)) = filter (\<lambda>e. e \<noteq> d) (recency s)"
proof (cases "positions s d")
  case None
  then have "d \<notin> set (recency s)" using set_recency [OF assms] by auto
  then show ?thesis by (simp add: lru_remove_def None)
next
  case (Some c)
  then show ?thesis
    using bt_remove_at [OF assms Some] by (simp add: lru_remove_def forget_def recency_def)
qed

lemma sizes_remove [simp]:
  assumes "lru_inv s" shows "sizes (snd (lru_remove d s)) = (sizes s)(d := None)"
proof (cases "positions s d")
  case None
  then have "sizes s d = None" using lru_inv_dom [OF assms] by (metis domIff)
  then show ?thesis by (simp add: lru_remove_def None fun_upd_idem)
qed (simp add: lru_remove_def forget_def)

lemma recency_pop: "lru_inv s \<Longrightarrow> recency (snd (pop_lru s)) = tl (recency s)"
  using order_pop_lru [of s "fst (pop_lru s)" "snd (pop_lru s)"]
  by (simp add: recency_def map_tl)

lemma pop_lru_hd:
  assumes "lru_inv s" and "recency s = d # ds"
  shows "fst (pop_lru s) = Some (d, the (sizes s d))" "sizes (snd (pop_lru s)) = (sizes s)(d := None)"
  using assms by (auto simp: recency_def pop_lru_Cons)

lemma evict_stop: "n = 0 \<or> recency s = [] \<Longrightarrow> evict n s = ([], s)"
  by (auto simp: evict.simps [of n s] recency_def pop_lru_Nil)

lemma evict_step:
  assumes "lru_inv s" "recency s = d # ds" "n \<noteq> 0" "evict (n - the (sizes s d)) (snd (pop_lru s)) = (rs, s')"
  shows "evict n s = ((d, the (sizes s d)) # rs, s')"
proof -
  obtain t where "pop_lru s = (Some (d, the (sizes s d)), t)"
    using pop_lru_hd(1) [OF assms(1,2)] by (cases "pop_lru s") simp
  then show ?thesis using assms(3,4) by (simp add: evict.simps [of n s])
qed

lemma evict_spec:
  assumes "lru_inv s" and "evict n s = (rs, s')"
  shows "lru_inv s' \<and> recency s = map fst rs @ recency s' \<and>
     (\<forall>(d, z) \<in> set rs. sizes s d = Some z) \<and> (\<forall>d \<in> set (recency s'). sizes s' d = sizes s d) \<and>
     (n \<le> sum_list (map snd rs) \<or> recency s' = []) \<and>
     (rs \<noteq> [] \<longrightarrow> sum_list (map snd (butlast rs)) < n)"
  using assms
proof (induction "recency s" arbitrary: n s rs)
  case Nil
  then show ?case using evict_stop [of n s] by simp
next
  case (Cons d ds)
  note ds = Cons.hyps(2) [symmetric]
  show ?case
  proof (cases "n = 0")
    case True
    then show ?thesis using Cons.prems evict_stop [of n s] by simp
  next
    case False
    let ?s = "snd (pop_lru s)" and ?z = "the (sizes s d)"
    obtain rs' s'' where ev: "evict (n - ?z) ?s = (rs', s'')" by fastforce
    from evict_step [OF Cons.prems(1) ds False ev] Cons.prems(2)
    have rs: "rs = (d, ?z) # rs'" "s'' = s'" by simp_all
    have rec: "ds = recency ?s" using recency_pop [OF Cons.prems(1)] ds by simp
    note IH = Cons.hyps(1) [OF rec lru_inv_pop [OF Cons.prems(1)] ev [unfolded rs(2)]]
    have dist: "d \<notin> set ds" using lru_inv_recency_distinct [OF Cons.prems(1)] ds by simp
    have sz: "sizes s d = Some ?z"
      using lru_inv_dom [OF Cons.prems(1)] set_recency [OF Cons.prems(1)] ds
      by (metis domD list.set_intros(1) option.sel)
    have upd: "sizes ?s = (sizes s)(d := None)" by (rule pop_lru_hd(2) [OF Cons.prems(1) ds])
    have "e \<noteq> d" if "e \<in> set (recency s') \<or> e \<in> fst ` set rs'" for e
      using that IH rec dist by auto
    then have "\<forall>(e, z) \<in> set rs'. sizes s e = Some z" "\<forall>e \<in> set (recency s'). sizes s' e = sizes s e"
      using IH upd by (force split: if_splits)+
    moreover have "rs' = [] \<Longrightarrow> ?z < n \<Longrightarrow> recency s' = []"
      using IH by auto
    ultimately show ?thesis
      using IH rec ds sz False unfolding rs by (auto split: if_splits)
  qed
qed

lemma lru_unique_inv: "lru_unique s \<Longrightarrow> lru_inv s"
  by (simp add: lru_unique_def)

lemma lru_unique_touch:
  assumes "lru_unique s" and "\<And>e. positions s e \<noteq> None \<Longrightarrow> hash e = hash d \<Longrightarrow> e = d"
  shows "lru_unique (touch d sz s)"
proof -
  have "hash_index (touch d sz s) (hash e) = Some e" if "e \<in> insert d (dom (positions s))" for e
    using that assms by (auto simp: lru_unique_def)
  then show ?thesis
    using assms(1) lru_inv_touch [of s d sz] dom_positions_touch [of d sz s]
    unfolding lru_unique_def by blast
qed

lemma lru_unique_inj:
  "lru_unique s \<Longrightarrow> positions s d \<noteq> None \<Longrightarrow> positions s e \<noteq> None \<Longrightarrow> hash d = hash e \<Longrightarrow> d = e"
  unfolding lru_unique_def by (metis option.inject)

lemma lru_unique_remove:
  assumes "lru_unique s" shows "lru_unique (snd (lru_remove d s))"
proof -
  have "lru_inv (snd (lru_remove d s))" using assms by (auto simp: lru_unique_def intro: lru_inv_remove)
  moreover have "hash_index (snd (lru_remove d s)) (hash e) = Some e"
    if "positions (snd (lru_remove d s)) e \<noteq> None" for e
    using that assms lru_unique_inj [OF assms, of d e]
    by (auto simp: lru_remove_def forget_def lru_unique_def split: option.splits if_splits)
  ultimately show ?thesis by (simp add: lru_unique_def)
qed

lemma lru_unique_insert_at:
  assumes "lru_unique s" shows "lru_unique (snd (insert_at d sz stamp s))"
proof (cases "hash_index s (hash d)")
  case None
  with assms have fresh: "hash e \<noteq> hash d" if "positions s e \<noteq> None" for e
    using that unfolding lru_unique_def by (metis option.distinct(1))
  have "positions s d = None" using fresh [of d] by (cases "positions s d") auto
  then have "lru_inv (snd (insert_at d sz stamp s))"
    by (rule lru_inv_insert_at [OF lru_unique_inv [OF assms]])
  with assms fresh show ?thesis
    by (auto simp: lru_unique_def insert_at_def None Let_def track_def)
qed (simp add: insert_at_def assms)

lemma lru_unique_pop: "lru_unique s \<Longrightarrow> lru_unique (snd (pop_lru s))"
  by (cases "order s") (auto simp: pop_lru_Nil pop_lru_Cons [OF lru_unique_inv] lru_unique_remove)

lemma insert_at_tracked_iff:
  "fst (insert_at d sz stamp s) \<longleftrightarrow> hash_index s (hash d) = None"
  by (simp add: insert_at_def Let_def)

section \<open>The contract of a recency tracker\<close>

locale recency_tracker =
  fixes inv :: "'s \<Rightarrow> bool"
    and order_of :: "'s \<Rightarrow> 'k list"
    and touch_op :: "'k \<Rightarrow> nat \<Rightarrow> 's \<Rightarrow> 's"
    and drop_op :: "'k \<Rightarrow> 's \<Rightarrow> 's"
    and pop_op :: "'s \<Rightarrow> ('k \<times> nat) option \<times> 's"
  assumes distinct_order: "inv s \<Longrightarrow> distinct (order_of s)"
    and inv_touch: "inv s \<Longrightarrow> inv (touch_op k z s)"
    and inv_drop: "inv s \<Longrightarrow> inv (drop_op k s)"
    and inv_pop: "inv s \<Longrightarrow> inv (snd (pop_op s))"
    and order_touch: "inv s \<Longrightarrow> order_of (touch_op k z s) = filter (\<lambda>e. e \<noteq> k) (order_of s) @ [k]"
    and order_drop: "inv s \<Longrightarrow> order_of (drop_op k s) = filter (\<lambda>e. e \<noteq> k) (order_of s)"
    and order_pop: "inv s \<Longrightarrow> order_of (snd (pop_op s)) = tl (order_of s)"
begin

lemma inv_touches: "inv s \<Longrightarrow> inv (fold (\<lambda>(k, z). touch_op k z) xs s)"
  by (induction xs arbitrary: s) (auto simp: inv_touch)

lemma order_touches:
  "inv s \<Longrightarrow> order_of (fold (\<lambda>(k, z). touch_op k z) xs s) =
     filter (\<lambda>e. e \<notin> fst ` set xs) (order_of s) @ remdups (map fst xs)"
proof (induction xs rule: rev_induct)
  case (snoc x xs)
  have "order_of (fold (\<lambda>(k, z). touch_op k z) (xs @ [x]) s)
      = filter (\<lambda>e. e \<noteq> fst x) (order_of (fold (\<lambda>(k, z). touch_op k z) xs s)) @ [fst x]"
    using order_touch [OF inv_touches [OF snoc.prems]] by (simp add: split_beta)
  also have "\<dots> = filter (\<lambda>e. e \<notin> fst ` set (xs @ [x])) (order_of s) @ remdups (map fst (xs @ [x]))"
    using snoc by (auto simp: remdups_snoc intro: filter_cong)
  finally show ?case .
qed simp

lemma inv_pops: "inv s \<Longrightarrow> inv (((\<lambda>s. snd (pop_op s)) ^^ n) s)"
  by (induction n) (auto simp: inv_pop)

lemma order_pops: "inv s \<Longrightarrow> order_of (((\<lambda>s. snd (pop_op s)) ^^ n) s) = drop n (order_of s)"
  by (induction n) (auto simp: order_pop inv_pops drop_Suc tl_drop)

lemma touched_survives:
  "inv s \<Longrightarrow> n < length (order_of (touch_op k z s)) \<Longrightarrow>
   k \<in> set (order_of (((\<lambda>s. snd (pop_op s)) ^^ n) (touch_op k z s)))"
  by (simp add: order_pops inv_touch order_touch)

end

interpretation lru: recency_tracker lru_inv recency touch "\<lambda>d s. snd (lru_remove d s)" pop_lru
  by unfold_locales
    (auto intro: inv_intros simp: lru_inv_recency_distinct recency_touch recency_remove recency_pop)

section \<open>Reachable states\<close>

text \<open>
  What every use of the tracker keeps, also one that leaves a slot behind: \<open>positions\<close> points
  into the tree, sizes and positions have the same keys, the hash index points at a tracked key
  and new counters sort after all the used ones.
\<close>

definition lru_sound :: "lru_state \<Rightarrow> bool" where
  "lru_sound s \<longleftrightarrow>
     bt_sorted (order s) \<and> (\<forall>d c. positions s d = Some c \<longrightarrow> (c, d) \<in> set (order s)) \<and>
     dom (sizes s) = dom (positions s) \<and> (\<forall>c \<in> fst ` set (order s). c < next_counter s) \<and>
     (\<forall>h d. hash_index s h = Some d \<longrightarrow> hash d = h \<and> positions s d \<noteq> None)"

lemma lru_soundI:
  assumes "bt_sorted (order s)" "\<And>c d. positions s d = Some c \<Longrightarrow> (c, d) \<in> set (order s)"
    "dom (sizes s) = dom (positions s)" "\<And>c d. (c, d) \<in> set (order s) \<Longrightarrow> c < next_counter s"
    "\<And>h d. hash_index s h = Some d \<Longrightarrow> hash d = h \<and> positions s d \<noteq> None"
  shows "lru_sound s"
  using assms unfolding lru_sound_def by (auto simp: image_iff)

lemma lru_sound_parts:
  assumes "lru_sound s"
  shows lru_sound_sorted: "bt_sorted (order s)"
    and lru_sound_at: "positions s d = Some c \<Longrightarrow> (c, d) \<in> set (order s)"
    and lru_sound_dom: "dom (sizes s) = dom (positions s)"
    and lru_sound_less: "(c, d) \<in> set (order s) \<Longrightarrow> c < next_counter s"
    and lru_sound_hash: "hash_index s h = Some d \<Longrightarrow> hash d = h \<and> positions s d \<noteq> None"
  using assms unfolding lru_sound_def by (blast, blast, blast, force, blast)

lemma lru_sound_inj:
  assumes "lru_sound s" "positions s d = Some c" "(c, e) \<in> set (order s)"
  shows "d = e"
proof -
  have "(c, d) \<in> set (order s)" using assms by (simp add: lru_sound_at)
  moreover have "distinct (map fst (order s))"
    using lru_sound_sorted [OF assms(1)] by (simp add: strict_sorted_iff)
  ultimately show ?thesis using eq_key_imp_eq_value assms(3) by fast
qed

lemma lru_sound_track:
  assumes s: "lru_sound s" and new: "c \<notin> fst ` set (order s)"
    and less: "c < next_counter t" "next_counter s \<le> next_counter t"
    and f: "order t = bt_insert c d (order s)" "positions t = (positions s)(d \<mapsto> c)"
      "sizes t = (sizes s)(d \<mapsto> sz)" "hash_index t = (hash_index s)(hash d \<mapsto> d)"
  shows "lru_sound t"
proof (rule lru_soundI)
  show "(k, e) \<in> set (order t)" if "positions t e = Some k" for k e
    using that lru_sound_at [OF s, of e k] new by (auto simp: f set_bt_insert_fresh split: if_splits)
  show "k < next_counter t" if "(k, e) \<in> set (order t)" for k e
    using that less lru_sound_less [OF s, of k e] new by (auto simp: f set_bt_insert_fresh)
  show "hash e = h \<and> positions t e \<noteq> None" if "hash_index t h = Some e" for h e
    using that lru_sound_hash [OF s, of h e] by (auto simp: f split: if_splits)
qed (use s in \<open>simp_all add: f lru_sound_sorted lru_sound_dom\<close>)

lemma lru_sound_dropped:
  assumes s: "lru_sound s" and c: "(c, d) \<in> set (order s)"
    and f: "positions t = (positions s)(d := None)" "order t = bt_remove c (order s)"
      "sizes t = (sizes s)(d := None)" "next_counter t = next_counter s"
    and hi: "hash_index t = (if hash_index s (hash d) = Some d then (hash_index s)(hash d := None)
                    else hash_index s)"
  shows "lru_sound t"
proof (rule lru_soundI)
  show "(k, e) \<in> set (order t)" if "positions t e = Some k" for k e
    using that lru_sound_at [OF s, of e k] lru_sound_inj [OF s, of e k d] c
    by (auto simp: f bt_remove_def split: if_splits)
  show "k < next_counter t" if "(k, e) \<in> set (order t)" for k e
    using that lru_sound_less [OF s, of k e] by (auto simp: f bt_remove_def)
  show "hash e = h \<and> positions t e \<noteq> None" if "hash_index t h = Some e" for h e
    using that lru_sound_hash [OF s, of h e] by (auto simp: f hi split: if_splits)
qed (use s in \<open>simp_all add: f lru_sound_sorted lru_sound_dom\<close>)

lemma lru_sound_remove:
  assumes "lru_sound s" shows "lru_sound (snd (lru_remove d s))"
proof (cases "positions s d")
  case (Some c)
  show ?thesis
    by (rule lru_sound_dropped [OF assms lru_sound_at [OF assms Some]])
      (simp_all add: lru_remove_def Some forget_def)
qed (simp add: lru_remove_def assms)

lemma lru_sound_floor: "lru_sound s \<Longrightarrow> lru_sound (floor_counter stamp s)"
  by (auto simp: lru_sound_def floor_counter_def less_max_iff_disj)

lemma lru_sound_touch:
  assumes "lru_sound s" shows "lru_sound (touch d sz s)"
proof -
  let ?r = "snd (lru_remove d s)"
  have r: "lru_sound ?r" "next_counter ?r = next_counter s"
    using lru_sound_remove [OF assms] by (simp_all add: lru_remove_def forget_def split: option.splits)
  have n: "next_counter s \<notin> fst ` set (order ?r)"
    using lru_sound_less [OF r(1)] r(2) by fastforce
  show ?thesis
    by (rule lru_sound_track [OF r(1) n, where d = d and sz = sz])
      (use lru_sound_dom [OF assms] in \<open>auto simp: touch_def Let_def lru_remove_def forget_def track_def r(2)
         split: option.splits\<close>)
qed

lemma lru_sound_insert_at:
  assumes "lru_sound s" shows "lru_sound (snd (insert_at d sz stamp s))"
proof (cases "hash_index s (hash d)")
  case None
  show ?thesis
    by (rule lru_sound_track [OF assms free_counter_fresh [of "order s" "max stamp 1"], where sz = sz])
      (simp_all add: insert_at_def None Let_def track_def)
qed (simp add: insert_at_def assms)

lemma lru_sound_pop:
  assumes "lru_sound s" shows "lru_sound (snd (pop_lru s))"
proof (cases "order s")
  case (Cons p rest)
  obtain c d where p: "p = (c, d)" by (cases p)
  have r: "bt_remove c (order s) = rest"
    using lru_sound_sorted [OF assms] Cons p
    by (auto simp: bt_remove_def filter_id_conv strict_sorted_iff image_iff)
  show ?thesis
    by (rule lru_sound_dropped [OF assms, of c d])
      (simp_all add: Cons p r [unfolded Cons p] pop_lru_def forget_def split_beta)
qed (simp add: pop_lru_def assms)

lemma evict_keeps:
  assumes pop: "\<And>s. P s \<Longrightarrow> P (snd (pop_lru s))" and "P s"
  shows "P (snd (evict n s))"
  using assms(2)
proof (induction n s rule: evict.induct)
  case (1 n s)
  obtain r s1 where p: "pop_lru s = (r, s1)" by fastforce
  have s1: "P s1" using pop [OF "1.prems"] p by simp
  show ?case
  proof (cases "n = 0 \<or> r = None")
    case True
    then show ?thesis using "1.prems" s1 p by (auto simp: evict.simps [of n s])
  next
    case False
    then obtain d z where r: "r = Some (d, z)" by auto
    have "P (snd (evict (n - z) s1))" using "1.IH" False p r s1 by simp
    then show ?thesis using False p r by (simp add: evict.simps [of n s] split_beta)
  qed
qed

text \<open>
  The states a use of the tracker reaches, with the digests it was called with. Nothing is asked
  of the calls. In a use that names every hash with one size the hash index knows every key.
\<close>

inductive lru_reachable :: "digest_info set \<Rightarrow> lru_state \<Rightarrow> bool" where
  reach_new: "lru_reachable {} lru_new"
| reach_floor: "lru_reachable D s \<Longrightarrow> lru_reachable D (floor_counter stamp s)"
| reach_touch: "lru_reachable D s \<Longrightarrow> lru_reachable (insert d D) (touch d sz s)"
| reach_remove: "lru_reachable D s \<Longrightarrow> lru_reachable (insert d D) (snd (lru_remove d s))"
| reach_pop: "lru_reachable D s \<Longrightarrow> lru_reachable D (snd (pop_lru s))"
| reach_evict: "lru_reachable D s \<Longrightarrow> lru_reachable D (snd (evict n s))"
| reach_insert: "lru_reachable D s \<Longrightarrow> lru_reachable (insert d D) (snd (insert_at d sz stamp s))"

definition one_size :: "digest_info set \<Rightarrow> bool" where
  "one_size D \<longleftrightarrow> inj_on hash D"

lemma dom_positions_lru:
  "dom (positions (snd (lru_remove d s))) \<subseteq> dom (positions s)"
  "dom (positions (snd (pop_lru s))) \<subseteq> dom (positions s)"
  "dom (positions (snd (insert_at d sz stamp s))) \<subseteq> insert d (dom (positions s))"
  "positions (floor_counter n s) = positions s"
  by (auto simp: lru_remove_def forget_def pop_lru_def insert_at_def Let_def track_def floor_counter_def
      split: option.splits list.splits if_splits)

lemma lru_reachable_dom: "lru_reachable D s \<Longrightarrow> dom (positions s) \<subseteq> D"
proof (induction rule: lru_reachable.induct)
  case (reach_evict D s n)
  show ?case
  proof (rule evict_keeps [where P = "\<lambda>s. dom (positions s) \<subseteq> D"])
    show "dom (positions (snd (pop_lru t))) \<subseteq> D" if "dom (positions t) \<subseteq> D" for t
      using that dom_positions_lru(2) by (rule order.trans [rotated])
  qed (rule reach_evict.IH)
next
  case (reach_remove D s d)
  then show ?case using dom_positions_lru(1) by fast
next
  case (reach_pop D s)
  then show ?case using dom_positions_lru(2) by fast
next
  case (reach_insert D s d sz stamp)
  then show ?case using dom_positions_lru(3) by fast
qed (auto simp: dom_positions_lru(4) lru_new_def)

lemma lru_unique_evict: "lru_unique s \<Longrightarrow> lru_unique (snd (evict n s))"
  by (rule evict_keeps) (rule lru_unique_pop)

lemma lru_unique_floor: "lru_unique s \<Longrightarrow> lru_unique (floor_counter n s)"
  using lru_inv_floor [of s n] by (simp add: lru_unique_def) (simp add: floor_counter_def)

lemma lru_unique_new: "lru_unique lru_new"
  using lru_inv_new by (simp add: lru_unique_def lru_new_def)

lemma lru_reachable_sound: "lru_reachable D s \<Longrightarrow> lru_sound s"
proof (induction rule: lru_reachable.induct)
  case reach_new
  show ?case by (simp add: lru_sound_def lru_new_def)
qed (auto intro: lru_sound_floor lru_sound_touch lru_sound_remove lru_sound_pop lru_sound_insert_at
    evict_keeps [where P = lru_sound])

lemma lru_reachable_unique: "lru_reachable D s \<Longrightarrow> one_size D \<Longrightarrow> lru_unique s"
proof (induction rule: lru_reachable.induct)
  case (reach_touch D s d sz)
  have "e = d" if "positions s e \<noteq> None" "hash e = hash d" for e
    using reach_touch.prems lru_reachable_dom [OF reach_touch.hyps] that
    unfolding one_size_def by (metis domI insertCI inj_on_def not_None_eq subsetD)
  then show ?case
    using reach_touch by (intro lru_unique_touch) (auto simp: one_size_def)
qed (auto simp: one_size_def lru_unique_new intro: lru_unique_floor lru_unique_remove lru_unique_pop
    lru_unique_evict lru_unique_insert_at)

text \<open>
  C0: on every state the tracker can reach, whatever it was called with, each tracked digest has
  one size and a slot of its own in the recency order, the hash index points at tracked digests,
  and new counters sort after all the used ones. When the calls named every hash with one size,
  the slots and the tracked digests are in bijection, no digest is listed twice and the hash
  index knows every tracked digest.
\<close>

theorem lru_reachable_inv:
  "lru_reachable D s \<Longrightarrow>
     lru_sound s \<and> (one_size D \<longrightarrow> lru_unique s \<and> distinct (map hash (recency s)))"
proof -
  assume r: "lru_reachable D s"
  have "distinct (map hash (recency s))" if "lru_unique s"
    using that lru_inv_recency_distinct [OF lru_unique_inv] set_recency [OF lru_unique_inv]
      lru_unique_inj [OF that] by (auto simp: distinct_map inj_on_def)
  then show ?thesis using lru_reachable_sound [OF r] lru_reachable_unique [OF r] by blast
qed

theorem lru_reachable_inv_witness:
  "let s = snd (insert_at \<lparr>hash = [1], dsize = 2\<rparr> 9 9 (touch \<lparr>hash = [1], dsize = 2\<rparr> 2 lru_new))
   in lru_sound s \<and> lru_unique s \<and> distinct (map hash (recency s))"
  using lru_reachable_inv [OF reach_insert [OF reach_touch [OF reach_new]]]
  by (simp add: one_size_def Let_def)

text \<open>
  Touching a series of digests ranks them by their last touch, whatever was touched in
  between: a fresh tracker then evicts them exactly in that order.
\<close>

theorem lru_touch_order: "recency (fold (\<lambda>(d, z). touch d z) xs lru_new) = remdups (map fst xs)"
  using lru.order_touches [OF lru_inv_new, of xs] by (simp add: recency_def lru_new_def)

text \<open>
  Eviction removes the least recently used digests, in order, reports their recorded
  sizes, stops as soon as they add up to the bytes asked for (the last victim was needed) and
  falls short only when nothing is left; the survivors keep their order and sizes.
\<close>

theorem lru_evict_prefix:
  assumes "lru_inv s" and "evict n s = (rs, s')"
  shows "recency s = map fst rs @ recency s' \<and> (\<forall>(d, z) \<in> set rs. sizes s d = Some z) \<and>
     (n \<le> sum_list (map snd rs) \<or> recency s' = []) \<and>
     (rs \<noteq> [] \<longrightarrow> sum_list (map snd (butlast rs)) < n) \<and>
     (\<forall>d \<in> set (recency s'). sizes s' d = sizes s d)"
  using evict_spec [OF assms] by blast

theorem lru_evict_prefix_witness:
  "let s = touch \<lparr>hash = [2], dsize = 5\<rparr> 5 (touch \<lparr>hash = [1], dsize = 4\<rparr> 4 lru_new)
   in recency s = map fst (fst (evict 3 s)) @ recency (snd (evict 3 s))"
  unfolding Let_def
  by (rule lru_evict_prefix [OF lru_inv_touch [OF lru_inv_touch [OF lru_inv_new]]
        prod.collapse [symmetric], THEN conjunct1])

text \<open>
  A gap in the hash index. When one content hash is touched under two sizes and the second
  key is removed, the index forgets the hash although the first key is still tracked, so
  restoring the entry from disk counts it again: the digest then holds two slots.
\<close>

theorem lru_hash_index_gap:
  assumes "hash d2 = hash d1" and "d1 \<noteq> d2"
  shows "let s = snd (lru_remove d2 (touch d2 z2 (touch d1 z1 lru_new)))
         in recency s = [d1] \<and> recency (snd (insert_at d1 z stamp s)) = [d1, d1]"
  using assms free_counter_fresh [of "[(1, d1)]" "max stamp 1"]
    free_counter_least [of "max stamp 1" "[(1, d1)]"]
  by (auto simp: insert_at_def Let_def touch_def track_def lru_new_def lru_remove_def forget_def
      bt_remove_def recency_def)

theorem lru_hash_index_gap_witness:
  "recency (snd (insert_at \<lparr>hash = [1], dsize = 4\<rparr> 4 9 (snd (lru_remove \<lparr>hash = [1], dsize = 5\<rparr>
     (touch \<lparr>hash = [1], dsize = 5\<rparr> 4 (touch \<lparr>hash = [1], dsize = 4\<rparr> 4 lru_new))))))
   = [\<lparr>hash = [1], dsize = 4\<rparr>, \<lparr>hash = [1], dsize = 4\<rparr>]"
  using lru_hash_index_gap [of "\<lparr>hash = [1], dsize = 5\<rparr>" "\<lparr>hash = [1], dsize = 4\<rparr>"]
  by (simp add: Let_def)

end
