(* ===== verification/Sharded_Layout.thy ===== *)
theory Sharded_Layout
  imports Lru_State
begin

text \<open>
  \<open>cache/sharded_layout.rs\<close>: the directory layout that the disk CAS and the disk action cache
  share. A directory tree is the list of its files with their paths below the root, in the order
  a walk meets them; a path is the list of its components. File names are byte strings, so the
  check of \<open>to_str\<close> always succeeds.
\<close>

type_synonym path = "string list"

record file_node =
  content :: bytes
  mtime :: millis

type_synonym file_tree = "(path \<times> file_node) list"

definition file_len :: "file_node \<Rightarrow> nat" where
  "file_len f = length (content f)"

definition STAGING_DIR :: string where
  "STAGING_DIR = ''.tmp''"

definition STALE_STAGING_AGE :: millis where
  "STALE_STAGING_AGE = 3600000"

definition MERGE_CHUNK :: nat where
  "MERGE_CHUNK = 10000"

record scanned_entry =
  se_digest :: digest_info
  file_size :: nat
  mtime_millis :: millis

record restored_totals =
  rt_entries :: nat
  rt_bytes :: nat

definition entry_path :: "(bytes \<Rightarrow> string) \<Rightarrow> digest_info \<Rightarrow> path" where
  "entry_path hex_encode d =
     (let h = hash_to_string hex_encode d in [take 2 h, take 2 (drop 2 h), drop 4 h])"

text \<open>The staging name is \<open>tmp-\<close> and a fresh UUID, here an argument.\<close>

definition staging_path :: "string \<Rightarrow> path" where
  "staging_path uuid = [STAGING_DIR, ''tmp-'' @ uuid]"

text \<open>
  A \<open>StagingFile\<close> that goes out of scope removes its file unless it was disarmed; the removal of
  a file that is not there fails silently.
\<close>

definition drop_staging :: "bool \<Rightarrow> string \<Rightarrow> file_tree \<Rightarrow> file_tree" where
  "drop_staging armed uuid t = (if armed then AList.delete (staging_path uuid) t else t)"

text \<open>
  The sweep removes the files directly in the staging directory that were last modified more
  than \<open>older_than\<close> ago; a modification time in the future has no age. \<open>unlink_ok\<close> says which
  removals succeed.
\<close>

definition stale_staging :: "millis \<Rightarrow> millis \<Rightarrow> path \<times> file_node \<Rightarrow> bool" where
  "stale_staging now older_than p =
     (case p of (q, f) \<Rightarrow> length q = 2 \<and> hd q = STAGING_DIR \<and> now - mtime f > older_than)"

definition sweep_staging ::
  "(path \<Rightarrow> bool) \<Rightarrow> millis \<Rightarrow> millis \<Rightarrow> file_tree \<Rightarrow> (nat \<times> nat) \<times> file_tree" where
  "sweep_staging unlink_ok now older_than t =
     (let gone = filter (\<lambda>p. stale_staging now older_than p \<and> unlink_ok (fst p)) t
      in ((length gone, sum_list (map (file_len \<circ> snd) gone)),
          filter (\<lambda>p. \<not> (stale_staging now older_than p \<and> unlink_ok (fst p))) t))"

definition digest_from_path :: "path \<Rightarrow> digest_info option" where
  "digest_from_path components =
     (case (case components of [flat] \<Rightarrow> Some flat | [a, b, rest] \<Rightarrow> Some (a @ b @ rest) | _ \<Rightarrow> None) of
        None \<Rightarrow> None
      | Some h \<Rightarrow> if length h \<noteq> 64 then None
                  else (case digest_new h 0 of Inr d \<Rightarrow> Some d | Inl e \<Rightarrow> None))"

text \<open>
  The walk enters no directory and reads no file whose name starts with a dot. It is given the
  directories below the root, and the root itself as \<open>[]\<close>, whose reading fails, and what the
  \<open>stat\<close> of each file answers: a file that disappeared since its directory was read is left
  out, any other failure ends the scan.
\<close>

datatype stat_answer = StatFound | StatGone | StatFailed

definition hidden_name :: "string \<Rightarrow> bool" where
  "hidden_name name = (case name of c # _ \<Rightarrow> c = CHR ''.'' | [] \<Rightarrow> False)"

fun scan_dir_blocking :: "(path \<Rightarrow> stat_answer) \<Rightarrow> file_tree \<Rightarrow> scanned_entry list option" where
  "scan_dir_blocking stat [] = Some []"
| "scan_dir_blocking stat ((q, f) # t) =
     (if list_ex hidden_name q then scan_dir_blocking stat t
      else case digest_from_path q of
             None \<Rightarrow> scan_dir_blocking stat t
           | Some d \<Rightarrow>
               (case stat q of
                  StatGone \<Rightarrow> scan_dir_blocking stat t
                | StatFailed \<Rightarrow> None
                | StatFound \<Rightarrow>
                    map_option (Cons \<lparr>se_digest = d, file_size = file_len f, mtime_millis = mtime f\<rparr>)
                      (scan_dir_blocking stat t)))"

definition scan :: "path list \<Rightarrow> (path \<Rightarrow> stat_answer) \<Rightarrow> file_tree \<Rightarrow> scanned_entry list option" where
  "scan unreadable stat t =
     (if list_ex (\<lambda>dir. \<not> list_ex hidden_name dir) unreadable then None
      else scan_dir_blocking stat t)"

text \<open>What a scan without failures finds.\<close>

definition scan_entry :: "path \<times> file_node \<Rightarrow> scanned_entry option" where
  "scan_entry p =
     (case p of (q, f) \<Rightarrow>
        if list_ex hidden_name q then None
        else map_option (\<lambda>d. \<lparr>se_digest = d, file_size = file_len f, mtime_millis = mtime f\<rparr>)
               (digest_from_path q))"

definition listing :: "file_tree \<Rightarrow> scanned_entry list" where
  "listing t = List.map_filter scan_entry t"

text \<open>
  Entries are folded in the order of their stamps; the sort of the standard library is unstable,
  a stable one is one of its outcomes. Counts are the \<open>u64\<close> totals, which the sizes of files on
  one disk do not exceed. The lock is released between chunks of \<open>MERGE_CHUNK\<close> entries, which
  does not change what one restore does.
\<close>

fun restore_loop ::
  "(digest_info \<times> nat \<times> nat) list \<Rightarrow> nat \<Rightarrow> restored_totals \<Rightarrow> lru_state \<Rightarrow> restored_totals \<times> lru_state" where
  "restore_loop [] next_free totals lru = (totals, lru)"
| "restore_loop ((d, sz, st) # entries) next_free totals lru =
     (let stamp = max st next_free in
      case insert_at d sz stamp lru of
        (True, lru') \<Rightarrow>
          restore_loop entries (stamp + 1)
            \<lparr>rt_entries = rt_entries totals + 1, rt_bytes = rt_bytes totals + sz\<rparr> lru'
      | (False, lru') \<Rightarrow> restore_loop entries next_free totals lru')"

definition restore_recency ::
  "(digest_info \<times> nat \<times> nat) list \<Rightarrow> lru_state \<Rightarrow> restored_totals \<times> lru_state" where
  "restore_recency entries lru =
     restore_loop (sort_key (\<lambda>(_, _, stamp). stamp) entries) 0 \<lparr>rt_entries = 0, rt_bytes = 0\<rparr> lru"

section \<open>Paths and digests\<close>

lemma hex_char_not_dot: "unat n < 16 \<Longrightarrow> hex_char n \<noteq> CHR ''.''"
  using hex_value_hex_char [of n] by (auto simp: hex_value_def)

lemma set_lower_hex: "c \<in> set (lower_hex bs) \<Longrightarrow> \<exists>n. unat n < 16 \<and> c = hex_char n"
proof (induction bs)
  case (Cons b bs)
  then show ?case using high_nibble_less [of b] low_nibble_less [of b] by (auto simp: byte_hex_def)
qed simp

lemma lower_hex_not_dot: "CHR ''.'' \<notin> set (lower_hex bs)"
  using set_lower_hex hex_char_not_dot by metis

lemma entry_path_parts:
  assumes "lower_hex_codec hex_encode" and "length (hash d) = 32"
  obtains a b c where "entry_path hex_encode d = [a, b, c]" "a @ b @ c = lower_hex (hash d)"
    "length a = 2" "length b = 2" "length c = 60"
proof -
  let ?h = "lower_hex (hash d)"
  have "take 2 ?h @ take 2 (drop 2 ?h) @ drop 4 ?h = ?h"
    using take_add [of 2 2 ?h] append_take_drop_id [of 4 ?h] by simp
  then show thesis
    using assms by (intro that [of "take 2 ?h" "take 2 (drop 2 ?h)" "drop 4 ?h"])
      (simp_all add: entry_path_def hash_to_string_def lower_hex_codec_def Let_def)
qed

lemma entry_path_digest:
  assumes "lower_hex_codec hex_encode" and "length (hash d) = 32"
  shows "digest_from_path (entry_path hex_encode d) = Some \<lparr>hash = hash d, dsize = 0\<rparr>"
  by (rule entry_path_parts [OF assms])
    (use assms(2) in \<open>simp add: digest_from_path_def digest_new_def parse_lower_hex\<close>)

lemma entry_path_inject:
  assumes "lower_hex_codec hex_encode" "length (hash d) = 32" "length (hash e) = 32"
  shows "entry_path hex_encode d = entry_path hex_encode e \<longleftrightarrow> hash d = hash e"
proof
  assume "entry_path hex_encode d = entry_path hex_encode e"
  then show "hash d = hash e"
    using entry_path_digest [OF assms(1,2)] entry_path_digest [OF assms(1,3)] by simp
qed (simp add: entry_path_def hash_to_string_def)

lemma entry_path_visible:
  assumes "lower_hex_codec hex_encode" and "length (hash d) = 32"
  shows "\<not> list_ex hidden_name (entry_path hex_encode d)"
proof (rule entry_path_parts [OF assms])
  fix a b c assume p: "entry_path hex_encode d = [a, b, c]" "a @ b @ c = lower_hex (hash d)"
  have "CHR ''.'' \<notin> set (a @ b @ c)" unfolding p(2) by (rule lower_hex_not_dot)
  then show ?thesis by (auto simp: p(1) hidden_name_def split: list.splits)
qed

lemma entry_path_not_staging:
  assumes "lower_hex_codec hex_encode" and "length (hash d) = 32"
  shows "entry_path hex_encode d \<noteq> staging_path uuid"
  by (rule entry_path_parts [OF assms]) (simp add: staging_path_def)

section \<open>Scanning\<close>

lemma scan_dir_listing: "scan_dir_blocking (\<lambda>_. StatFound) t = Some (listing t)"
proof (induction t)
  case (Cons x t)
  then show ?case
    by (cases x) (simp add: listing_def scan_entry_def map_filter_simps split: option.splits)
qed (simp add: listing_def map_filter_simps)

lemma scan_fault_free [simp]: "scan [] (\<lambda>_. StatFound) t = Some (listing t)"
  by (simp add: scan_def scan_dir_listing)

lemma is_hex_char_lower: "is_hex_char (ascii_lower c) \<Longrightarrow> is_hex_char c"
  by (auto simp: is_hex_char_def ascii_lower_def Let_def split: if_splits)

lemma parse_sha256_iff:
  "parse_sha256 s = Inr h \<longleftrightarrow> length h = 32 \<and> map ascii_lower s = lower_hex h"
proof (intro iffI parse_sha256_print [of s h, unfolded eq_commute [of "lower_hex h"]])
  assume h: "length h = 32 \<and> map ascii_lower s = lower_hex h"
  then have "list_all is_hex_char (map ascii_lower s)"
    using parse_sha256_Inr_iff [of "lower_hex h"] parse_lower_hex [of h] by simp
  then have "list_all is_hex_char s" by (auto simp: list_all_iff intro: is_hex_char_lower)
  moreover have "length s = length (lower_hex h)" using h length_map by metis
  then have "length s = 64" using h by simp
  ultimately obtain g where g: "parse_sha256 s = Inr g" using \<open>length s = 64\<close> parse_sha256_Inr_iff by blast
  have "lower_hex g = lower_hex h" "length g = 32" using parse_sha256_print [OF g] h by auto
  then have "g = h" using parse_lower_hex [of g] parse_lower_hex [of h] h by (metis sum.inject(2))
  with g show "parse_sha256 s = Inr h" by simp
qed

text \<open>The paths that name a digest: one component or three that spell its hash in either case.\<close>

lemma digest_from_path_iff:
  "digest_from_path q = Some d \<longleftrightarrow>
     dsize d = 0 \<and> length (hash d) = 32 \<and> length q \<in> {1, 3} \<and> map ascii_lower (concat q) = lower_hex (hash d)"
proof -
  have *: "(if length h \<noteq> 64 then None else case digest_new h 0 of Inr d \<Rightarrow> Some d | Inl e \<Rightarrow> None) = Some d
      \<longleftrightarrow> dsize d = 0 \<and> length (hash d) = 32 \<and> map ascii_lower h = lower_hex (hash d)" for h
    using parse_sha256_iff [of h "hash d"] parse_sha256_Inr_iff [of h]
    by (cases d) (auto simp: digest_new_def split: sum.splits)
  have eq: "digest_from_path q = (if length q \<in> {1, 3} then
      (if length (concat q) \<noteq> 64 then None else case digest_new (concat q) 0 of Inr d \<Rightarrow> Some d | Inl e \<Rightarrow> None)
      else None)"
    by (auto simp: digest_from_path_def split: list.splits)
  show ?thesis
  proof (cases "length q \<in> {1, 3}")
    case True
    show ?thesis unfolding eq by (simp only: True * if_True simp_thms)
  qed (simp add: eq)
qed

lemma scan_dir_None:
  "scan_dir_blocking stat t = None \<longleftrightarrow>
     (\<exists>(q, f) \<in> set t. \<not> list_ex hidden_name q \<and> digest_from_path q \<noteq> None \<and> stat q = StatFailed)"
  by (induction stat t rule: scan_dir_blocking.induct)
    (auto split: option.splits stat_answer.splits)

lemma scan_dir_Some:
  "scan_dir_blocking stat t = Some es \<Longrightarrow> es = listing (filter (\<lambda>(q, f). stat q = StatFound) t)"
proof (induction t arbitrary: es)
  case (Cons p t)
  obtain q f where p: "p = (q, f)" by (cases p)
  have skip: "listing ((q, f) # t) = (case scan_entry (q, f) of None \<Rightarrow> listing t | Some x \<Rightarrow> x # listing t)" for t
    unfolding listing_def by simp
  show ?case
  proof (cases "list_ex hidden_name q \<or> digest_from_path q = None \<or> stat q = StatGone")
    case True
    then have "scan_dir_blocking stat t = Some es" using Cons.prems by (auto simp: p split: option.splits if_splits)
    moreover have "stat q = StatFound \<Longrightarrow> scan_entry (q, f) = None" using True by (auto simp: scan_entry_def)
    ultimately show ?thesis using Cons.IH by (simp add: p skip)
  next
    case False
    then obtain d where d: "digest_from_path q = Some d" by auto
    have "stat q = StatFound" using False Cons.prems d by (cases "stat q") (auto simp: p)
    then show ?thesis using False Cons.prems Cons.IH d by (auto simp: p skip scan_entry_def)
  qed
qed (simp add: listing_def)

lemma set_listing: "x \<in> set (listing t) \<longleftrightarrow> (\<exists>p \<in> set t. scan_entry p = Some x)"
  by (induction t) (auto simp: listing_def map_filter_simps split: option.splits)

lemma scan_dir_set:
  "scan_dir_blocking stat t = Some es \<Longrightarrow>
   x \<in> set es \<longleftrightarrow> (\<exists>(q, f) \<in> set t. stat q = StatFound \<and> scan_entry (q, f) = Some x)"
  using scan_dir_Some [of stat t es] by (auto simp: set_listing)

text \<open>
  C0: a scan that ends well reports exactly the entries: the files whose path, of one component
  or of three and none of them starting with a dot, spells a hash, each under that hash with its
  length and modification time, except the files that were gone when it looked at them. It fails
  exactly when a directory it visits cannot be read or such a file cannot be examined. Every
  stored digest has such a path, the path tells the hash, and a staging file has none.
\<close>

theorem layout_scan_roundtrip:
  assumes "lower_hex_codec hex_encode" "digest_wf d" "digest_wf e"
  shows "(scan unreadable stat t = None \<longleftrightarrow>
            (\<exists>dir \<in> set unreadable. \<not> list_ex hidden_name dir) \<or>
            (\<exists>(q, f) \<in> set t. \<not> list_ex hidden_name q \<and> digest_from_path q \<noteq> None \<and> stat q = StatFailed)) \<and>
         (scan unreadable stat t = Some es \<longrightarrow>
            (\<lparr>se_digest = g, file_size = z, mtime_millis = m\<rparr> \<in> set es \<longleftrightarrow>
               dsize g = 0 \<and> length (hash g) = 32 \<and>
               (\<exists>(q, f) \<in> set t. stat q = StatFound \<and> z = length (content f) \<and> m = mtime f \<and>
                  length q \<in> {1, 3} \<and> \<not> list_ex hidden_name q \<and>
                  map ascii_lower (concat q) = lower_hex (hash g)))) \<and>
         length (entry_path hex_encode d) = 3 \<and> \<not> list_ex hidden_name (entry_path hex_encode d) \<and>
         map ascii_lower (concat (entry_path hex_encode d)) = lower_hex (hash d) \<and>
         (entry_path hex_encode d = entry_path hex_encode e \<longleftrightarrow> hash d = hash e) \<and>
         list_ex hidden_name (staging_path uuid)"
proof -
  have len: "length (hash d) = 32" "length (hash e) = 32" using assms(2,3) by (simp_all add: digest_wf_def)
  have "map ascii_lower (concat (entry_path hex_encode d)) = lower_hex (hash d)" "length (entry_path hex_encode d) = 3"
    using entry_path_digest [OF assms(1) len(1)] by (simp_all add: digest_from_path_iff entry_path_def Let_def)
  moreover have e: "scan_entry (q, f) = Some \<lparr>se_digest = g, file_size = z, mtime_millis = m\<rparr> \<longleftrightarrow>
      \<not> list_ex hidden_name q \<and> z = length (content f) \<and> m = mtime f \<and> digest_from_path q = Some g" for q f
    by (auto simp: scan_entry_def file_len_def)
  moreover have "\<lparr>se_digest = g, file_size = z, mtime_millis = m\<rparr> \<in> set es \<longleftrightarrow>
       dsize g = 0 \<and> length (hash g) = 32 \<and>
       (\<exists>(q, f) \<in> set t. stat q = StatFound \<and> z = length (content f) \<and> m = mtime f \<and>
          length q \<in> {1, 3} \<and> \<not> list_ex hidden_name q \<and> map ascii_lower (concat q) = lower_hex (hash g))"
    if "scan unreadable stat t = Some es"
  proof -
    have "scan_dir_blocking stat t = Some es" using that by (simp add: scan_def split: if_splits)
    from scan_dir_set [OF this, of "\<lparr>se_digest = g, file_size = z, mtime_millis = m\<rparr>"]
    show ?thesis unfolding e digest_from_path_iff by auto
  qed
  moreover have "scan unreadable stat t = None \<longleftrightarrow> (\<exists>dir \<in> set unreadable. \<not> list_ex hidden_name dir) \<or>
      scan_dir_blocking stat t = None" by (auto simp: scan_def list_ex_iff)
  moreover have "list_ex hidden_name (staging_path uuid)"
    by (simp add: staging_path_def STAGING_DIR_def hidden_name_def)
  ultimately show ?thesis
    using entry_path_inject [OF assms(1) len] entry_path_visible [OF assms(1) len(1)]
    unfolding scan_dir_None by blast
qed

theorem layout_scan_roundtrip_witness:
  "let d = \<lparr>hash = replicate 32 171, dsize = 2\<rparr>; f = \<lparr>content = [1, 2], mtime = 7\<rparr>
   in \<lparr>se_digest = \<lparr>hash = replicate 32 171, dsize = 0\<rparr>, file_size = Suc (Suc 0), mtime_millis = 7\<rparr>
        \<in> set (listing [(entry_path lower_hex d, f)])"
  using layout_scan_roundtrip [of lower_hex "\<lparr>hash = replicate 32 171, dsize = 2\<rparr>" "\<lparr>hash = replicate 32 171, dsize = 2\<rparr>"
      "[]" "\<lambda>_. StatFound" "[(entry_path lower_hex \<lparr>hash = replicate 32 171, dsize = 2\<rparr>, \<lparr>content = [1, 2], mtime = 7\<rparr>)]"
      "listing [(entry_path lower_hex \<lparr>hash = replicate 32 171, dsize = 2\<rparr>, \<lparr>content = [1, 2], mtime = 7\<rparr>)]"
      "\<lparr>hash = replicate 32 171, dsize = 0\<rparr>" "Suc (Suc 0)" 7 "''a''"]
  by (simp add: lower_hex_codec_def digest_wf_def Let_def)

section \<open>Restoring the recency order\<close>

lemma bt_insert_between:
  "\<forall>j \<in> fst ` set r. j < c \<Longrightarrow> \<forall>j \<in> fst ` set l. c < j \<Longrightarrow> bt_insert c d (r @ l) = r @ (c, d) # l"
proof (induction r)
  case Nil
  then show ?case by (cases l) auto
qed auto

text \<open>Restored slots \<open>r\<close> lie below the next one to use, and the live ones \<open>l\<close> above all of them.\<close>

definition slots_below :: "(nat \<times> digest_info) list \<Rightarrow> nat \<Rightarrow> bool" where
  "slots_below r next_free \<longleftrightarrow> (\<forall>j \<in> fst ` set r. 1 \<le> j \<and> j \<le> next_free)"

lemma free_counter_between:
  assumes "slots_below r next_free" "next_free \<le> stamp" "\<forall>j \<in> fst ` set l. stamp + 1 < j"
    and c: "c = free_counter (r @ l) (max stamp 1)"
  shows "c \<le> stamp + 1" "\<forall>j \<in> fst ` set r. j < c" "1 \<le> c"
proof -
  note least = free_counter_least [of "max stamp 1" "r @ l"] and fresh = free_counter_fresh [of "r @ l" "max stamp 1"]
  show "1 \<le> c" using least by (simp add: c)
  show le: "c \<le> stamp + 1"
  proof (rule ccontr)
    assume "\<not> c \<le> stamp + 1"
    then have "stamp + 1 \<in> fst ` set (r @ l)" using least by (auto simp: c)
    then show False using assms(1-3) by (force simp: slots_below_def)
  qed
  show "\<forall>j \<in> fst ` set r. j < c"
  proof
    fix j assume j: "j \<in> fst ` set r"
    then have "1 \<le> j" "j \<le> stamp" using assms(1,2) by (auto simp: slots_below_def)
    moreover have "j \<noteq> c" using fresh j unfolding c by (metis UnCI image_Un set_append)
    ultimately show "j < c" using least by (auto simp: c)
  qed
qed

lemma restore_loop_spec:
  assumes "lru_unique s" "order s = r @ l" "slots_below r next_free"
    "sorted (map (\<lambda>(_, _, st). st) es)" "distinct (map (\<lambda>x. hash (fst x)) es)"
    "\<forall>j \<in> fst ` set l. next_free + length es < j \<and> (\<forall>(_, _, st) \<in> set es. st + length es < j)"
    and "restore_loop es next_free tot s = (tot', s')"
  shows "recency s' = map snd r @ map fst (filter (\<lambda>x. hash_index s (hash (fst x)) = None) es) @ map snd l \<and>
    rt_entries tot' = rt_entries tot + length (filter (\<lambda>x. hash_index s (hash (fst x)) = None) es) \<and>
    rt_bytes tot' = rt_bytes tot + sum_list (map (\<lambda>x. fst (snd x)) (filter (\<lambda>x. hash_index s (hash (fst x)) = None) es)) \<and>
    lru_unique s'"
  using assms
proof (induction es arbitrary: r next_free tot s)
  case Nil
  then show ?case by (simp add: recency_def)
next
  case (Cons x es)
  obtain d z st where x: "x = (d, z, st)" by (cases x)
  show ?case
  proof (cases "hash_index s (hash d)")
    case (Some e)
    have "restore_loop es next_free tot s = (tot', s')"
      using Cons.prems(7) Some by (simp add: x insert_at_def Let_def)
    moreover have "\<forall>j \<in> fst ` set l. next_free + length es < j \<and> (\<forall>(_, _, st) \<in> set es. st + length es < j)"
      using Cons.prems(6) by fastforce
    ultimately show ?thesis
      using Cons.IH [OF Cons.prems(1-3), of tot] Cons.prems(4,5) Some x by simp
  next
    case None
    define stamp where "stamp = max st next_free"
    define c where "c = free_counter (r @ l) (max stamp 1)"
    define s1 where "s1 = snd (insert_at d z stamp s)"
    have l: "\<forall>j \<in> fst ` set l. stamp + 1 + length es < j"
      using Cons.prems(6) by (auto simp: x stamp_def)
    have b: "c \<le> stamp + 1" "\<forall>j \<in> fst ` set r. j < c" "1 \<le> c"
      by (rule free_counter_between [OF Cons.prems(3), of stamp l c]; use l in \<open>auto simp: stamp_def c_def\<close>)+
    have "\<forall>j \<in> fst ` set l. c < j" using l b(1) by fastforce
    from bt_insert_between [OF b(2) this, of d]
    have s1: "order s1 = (r @ [(c, d)]) @ l" "hash_index s1 = (hash_index s)(hash d \<mapsto> d)" "lru_unique s1"
      using lru_unique_insert_at [OF Cons.prems(1), of d z stamp]
      by (simp_all add: s1_def) (simp_all add: insert_at_def None Let_def track_def Cons.prems(2) c_def)
    have run: "restore_loop es (stamp + 1) \<lparr>rt_entries = rt_entries tot + 1, rt_bytes = rt_bytes tot + z\<rparr> s1 = (tot', s')"
      using Cons.prems(7) None by (simp add: x s1_def insert_at_def Let_def stamp_def)
    have sb: "slots_below (r @ [(c, d)]) (stamp + 1)"
      using Cons.prems(3) b(1,3) by (auto simp: slots_below_def stamp_def)
    have "\<forall>j \<in> fst ` set l. stamp + 1 + length es < j \<and> (\<forall>(_, _, st) \<in> set es. st + length es < j)"
      using Cons.prems(6) l by fastforce
    moreover have "filter (\<lambda>x. hash_index s1 (hash (fst x)) = None) es = filter (\<lambda>x. hash_index s (hash (fst x)) = None) es"
      using Cons.prems(5) by (intro filter_cong) (force simp: s1(2) x)+
    ultimately show ?thesis
      using Cons.IH [OF s1(3,1) sb _ _ _ run] Cons.prems(4,5) None by (simp add: x)
  qed
qed



text \<open>
  The counters of digests touched before \<open>floor_counter\<close> do not exceed the modification times:
  such a digest is ranked below the files that are restored after it.
\<close>

theorem early_touch_outranked:
  assumes "hash e \<noteq> hash d" and "1 < st"
  shows "recency (snd (restore_recency [(e, z, st)] (floor_counter now (touch d y lru_new)))) = [d, e]"
proof -
  have "free_counter [(1, d)] st = st" using assms(2) by (simp add: free_counter.simps [of _ st] bt_contains_iff)
  then show ?thesis
    using assms by (simp add: restore_recency_def insert_at_def touch_def track_def lru_new_def
        floor_counter_def Let_def recency_def max_def)
qed

end
