(* ===== verification/Disk_Cas.thy ===== *)
theory Disk_Cas
  imports Sharded_Layout
begin

text \<open>
  \<open>cas/mod.rs\<close>, \<open>cas/error.rs\<close> and \<open>cas/backends/disk.rs\<close>: blobs stored by SHA-256 on the local
  file system, with a size budget and eviction of the least recently used. An operation takes a
  function \<open>io\<close> that says which of its calls into the file system fail with an error other than
  the ones the state decides (\<open>NotFound\<close>, \<open>AlreadyExists\<close>), and returns its result with the new
  state. \<open>hex_encode\<close> and \<open>sha256\<close> are the packages \<open>hex\<close> and \<open>sha2\<close>. The two counters are
  words of 64 bits: atomic addition and subtraction wrap.
\<close>

section \<open>Errors\<close>

datatype cas_error =
    NotFound string
  | Io
  | DigestMismatch string string
  | InvalidDigest string
  | InvalidData string
  | Storage string

type_synonym 'a cas_result = "cas_error + 'a"

definition digest_mismatch :: "string \<Rightarrow> string \<Rightarrow> cas_error" where
  "digest_mismatch expected actual = DigestMismatch expected actual"

text \<open>The calls into the file system that may fail.\<close>

datatype fs_call =
    Stat | ReadFile | OpenFile | SetMtime | MakeDirs | CreateStaged | WriteStaged | FlushStaged
  | Link | Rename | Copy | UnlinkStaged | Unlink path | ReadStaging | ReadDir
  | StatEntry path | Vanished path

section \<open>The backend\<close>

definition DEFAULT_MAX_SIZE_GB :: u64 where
  "DEFAULT_MAX_SIZE_GB = 100"

definition READ_CHUNK_BYTES :: nat where
  "READ_CHUNK_BYTES = 65536"

definition MTIME_REFRESH_AFTER :: millis where
  "MTIME_REFRESH_AFTER = 21600000"

record disk =
  disk_files :: file_tree
  max_size :: u64
  current_size :: u64
  current_entries :: u64
  disk_lru :: lru_state
  ready :: bool
  fsync :: bool

text \<open>The files are those already below the root.\<close>

definition disk_with_max_size_bytes :: "file_tree \<Rightarrow> u64 \<Rightarrow> disk" where
  "disk_with_max_size_bytes files max_bytes =
     \<lparr>disk_files = files, max_size = max_bytes, current_size = 0, current_entries = 0,
      disk_lru = lru_new, ready = False, fsync = True\<rparr>"

definition disk_with_max_size :: "file_tree \<Rightarrow> u64 \<Rightarrow> disk" where
  "disk_with_max_size files max_gb = disk_with_max_size_bytes files (max_gb * 1024 * 1024 * 1024)"

definition disk_new :: "file_tree \<Rightarrow> disk" where
  "disk_new files = disk_with_max_size files DEFAULT_MAX_SIZE_GB"

definition without_fsync :: "disk \<Rightarrow> disk" where
  "without_fsync k = k\<lparr>fsync := False\<rparr>"

definition sweep_staging_logged :: "(fs_call \<Rightarrow> bool) \<Rightarrow> millis \<Rightarrow> file_tree \<Rightarrow> file_tree" where
  "sweep_staging_logged io now t =
     (if io ReadStaging then t else snd (sweep_staging (\<lambda>p. \<not> io (Unlink p)) now STALE_STAGING_AGE t))"

text \<open>\<open>file_size as i64\<close> reads the length as a signed number.\<close>

definition signed64 :: "nat \<Rightarrow> int" where
  "signed64 n = sint (of_nat n :: 64 word)"

definition warm_up_entry :: "scanned_entry \<Rightarrow> digest_info \<times> nat \<times> nat" where
  "warm_up_entry x =
     ((se_digest x)\<lparr>dsize := signed64 (file_size x)\<rparr>, file_size x, mtime_millis x)"

text \<open>
  What the walk over the store meets: with \<open>ReadDir\<close> a directory that cannot be read, with
  \<open>Vanished q\<close> a file that another operation removed since its directory was read, and with
  \<open>StatEntry q\<close> a file that cannot be examined.
\<close>

definition walk_store :: "(fs_call \<Rightarrow> bool) \<Rightarrow> file_tree \<Rightarrow> scanned_entry list option" where
  "walk_store io t =
     scan (if io ReadDir then [[]] else [])
       (\<lambda>q. if io (Vanished q) then StatGone else if io (StatEntry q) then StatFailed else StatFound) t"

definition warm_up :: "(fs_call \<Rightarrow> bool) \<Rightarrow> millis \<Rightarrow> disk \<Rightarrow> unit cas_result \<times> disk" where
  "warm_up io now k =
     (let k1 = k\<lparr>disk_files := sweep_staging_logged io now (disk_files k),
                 disk_lru := floor_counter now (disk_lru k)\<rparr>
      in case walk_store io (disk_files k1) of
           None \<Rightarrow> (Inl Io, k1)
         | Some scanned \<Rightarrow>
              (let (restored, lru) = restore_recency (map warm_up_entry scanned) (disk_lru k1)
               in (Inr (), k1\<lparr>disk_lru := lru,
                             current_size := current_size k1 + of_nat (rt_bytes restored),
                             current_entries := current_entries k1 + of_nat (rt_entries restored),
                             ready := True\<rparr>)))"

definition is_ready :: "disk \<Rightarrow> bool" where
  "is_ready k = ready k"

definition blob_path :: "(bytes \<Rightarrow> string) \<Rightarrow> digest_info \<Rightarrow> path" where
  "blob_path hex_encode d = entry_path hex_encode d"

definition compute_digest :: "(bytes \<Rightarrow> string) \<Rightarrow> (bytes \<Rightarrow> bytes) \<Rightarrow> bytes \<Rightarrow> string" where
  "compute_digest hex_encode sha256 data = hex_encode (sha256 data)"

definition verify_digest ::
  "(bytes \<Rightarrow> string) \<Rightarrow> (bytes \<Rightarrow> bytes) \<Rightarrow> bytes \<Rightarrow> digest_info \<Rightarrow> unit cas_result" where
  "verify_digest hex_encode sha256 data expected =
     (let computed = compute_digest hex_encode sha256 data;
          expected_hash = hash_to_string hex_encode expected
      in if computed \<noteq> expected_hash then Inl (digest_mismatch expected_hash computed) else Inr ())"

definition finish_write :: "(fs_call \<Rightarrow> bool) \<Rightarrow> disk \<Rightarrow> unit cas_result" where
  "finish_write io k = (if io FlushStaged then Inl Io else Inr ())"

definition ensure_fits :: "nat \<Rightarrow> disk \<Rightarrow> unit cas_result" where
  "ensure_fits sz k =
     (if max_size k > 0 \<and> sz > unat (max_size k)
      then Inl (Storage (''Blob size '' @ show_nat sz @ '' exceeds max cache size '' @ show_nat (unat (max_size k))))
      else Inr ())"

definition touch_lru :: "digest_info \<Rightarrow> nat \<Rightarrow> disk \<Rightarrow> disk" where
  "touch_lru d sz k = k\<lparr>disk_lru := touch d sz (disk_lru k)\<rparr>"

text \<open>Removing one victim: only a file that was there is taken off the counters.\<close>

definition evict_one ::
  "(fs_call \<Rightarrow> bool) \<Rightarrow> (bytes \<Rightarrow> string) \<Rightarrow> digest_info \<times> nat \<Rightarrow> disk \<Rightarrow> disk" where
  "evict_one io hex_encode v k =
     (case v of (d, sz) \<Rightarrow>
        let p = blob_path hex_encode d in
        if map_of (disk_files k) p \<noteq> None \<and> \<not> io (Unlink p)
        then k\<lparr>disk_files := AList.delete p (disk_files k), current_size := current_size k - of_nat sz,
               current_entries := current_entries k - 1\<rparr>
        else k)"

definition evict_if_needed :: "(fs_call \<Rightarrow> bool) \<Rightarrow> (bytes \<Rightarrow> string) \<Rightarrow> disk \<Rightarrow> disk" where
  "evict_if_needed io hex_encode k =
     (if max_size k = 0 \<or> current_size k \<le> max_size k then k
      else (let (victims, lru) = evict (unat (current_size k - max_size k)) (disk_lru k)
            in fold (evict_one io hex_encode) victims (k\<lparr>disk_lru := lru\<rparr>)))"

definition account_stored ::
  "(fs_call \<Rightarrow> bool) \<Rightarrow> (bytes \<Rightarrow> string) \<Rightarrow> digest_info \<Rightarrow> nat \<Rightarrow> disk \<Rightarrow> disk" where
  "account_stored io hex_encode d sz k =
     evict_if_needed io hex_encode
       (touch_lru d sz (k\<lparr>current_size := current_size k + of_nat sz,
                          current_entries := current_entries k + 1\<rparr>))"

text \<open>Removal of the staging file is best effort (\<open>.ok()\<close>).\<close>

definition unlink_staged :: "(fs_call \<Rightarrow> bool) \<Rightarrow> string \<Rightarrow> disk \<Rightarrow> disk" where
  "unlink_staged io uuid k =
     (if io UnlinkStaged then k else k\<lparr>disk_files := AList.delete (staging_path uuid) (disk_files k)\<rparr>)"

text \<open>The link fails when the staged file is gone or the blob exists; a rename replaces the blob.\<close>

definition publish ::
  "(fs_call \<Rightarrow> bool) \<Rightarrow> (bytes \<Rightarrow> string) \<Rightarrow> string \<Rightarrow> digest_info \<Rightarrow> nat \<Rightarrow> disk \<Rightarrow>
   path cas_result \<times> disk" where
  "publish io hex_encode uuid d sz k =
     (let final_path = blob_path hex_encode d in
      case map_of (disk_files k) (staging_path uuid) of
        None \<Rightarrow> (Inl Io, k)
      | Some node \<Rightarrow>
          if io Link then (Inl Io, unlink_staged io uuid k)
          else case map_of (disk_files k) final_path of
             None \<Rightarrow>
               (Inr final_path,
                account_stored io hex_encode d sz
                  (unlink_staged io uuid (k\<lparr>disk_files := AList.update final_path node (disk_files k)\<rparr>)))
           | Some f \<Rightarrow>
               (if \<not> io Stat \<and> file_len f = sz
                then (Inr final_path, touch_lru d sz (unlink_staged io uuid k))
                else if io Rename then (Inl Io, unlink_staged io uuid k)
                else (Inr final_path,
                      touch_lru d sz
                        (k\<lparr>disk_files := AList.update final_path node
                             (AList.delete (staging_path uuid) (disk_files k))\<rparr>))))"

definition refresh_mtime_if_stale :: "(fs_call \<Rightarrow> bool) \<Rightarrow> millis \<Rightarrow> path \<Rightarrow> disk \<Rightarrow> disk" where
  "refresh_mtime_if_stale io now p k =
     k\<lparr>disk_files := alist_modify p
         (\<lambda>f. if now - mtime f > MTIME_REFRESH_AFTER \<and> \<not> io SetMtime then f\<lparr>mtime := now\<rparr> else f) (disk_files k)\<rparr>"

definition disk_contains ::
  "(fs_call \<Rightarrow> bool) \<Rightarrow> (bytes \<Rightarrow> string) \<Rightarrow> millis \<Rightarrow> digest_info \<Rightarrow> disk \<Rightarrow> bool cas_result \<times> disk" where
  "disk_contains io hex_encode now d k =
     (let p = blob_path hex_encode d in
      if io Stat then (Inl Io, k)
      else case map_of (disk_files k) p of
             None \<Rightarrow> (Inr False, k)
           | Some f \<Rightarrow>
               if int (file_len f) \<noteq> uint (word_of_int (dsize d) :: u64) then (Inr False, k)
               else (Inr True, refresh_mtime_if_stale io now p (touch_lru d (file_len f) k)))"

text \<open>
  The text of an I/O error is not modelled: the message of \<open>adopt_link\<close> ends where it would
  follow. \<open>src\<close> is the file to adopt. The copy goes to the path of the blob itself: one that fails
  has either not created the file (\<open>None\<close>) or left the first \<open>written\<close> bytes there.
\<close>

definition adopt_link ::
  "(fs_call \<Rightarrow> bool) \<Rightarrow> (bytes \<Rightarrow> string) \<Rightarrow> millis \<Rightarrow> digest_info \<Rightarrow> file_node \<Rightarrow> nat option \<Rightarrow> disk \<Rightarrow>
    unit cas_result \<times> disk" where
  "adopt_link io hex_encode now d src written k =
     (let sz = nat (max (dsize d) 0); dest = blob_path hex_encode d in
      case disk_contains io hex_encode now d k of
        (Inl e, k1) \<Rightarrow> (Inl e, k1)
      | (Inr True, k1) \<Rightarrow> (Inr (), touch_lru d sz k1)
      | (Inr False, k1) \<Rightarrow>
          if io MakeDirs then (Inl Io, k1)
          else if \<not> io Link \<and> map_of (disk_files k1) dest \<noteq> None then (Inr (), touch_lru d sz k1)
          else if io Link \<and> io Copy
          then (Inl (Storage ''adopting blob into CAS: ''),
                case written of
                  None \<Rightarrow> k1
                | Some n \<Rightarrow> k1\<lparr>disk_files := AList.update dest
                                  (src\<lparr>content := take n (content src), mtime := now\<rparr>) (disk_files k1)\<rparr>)
          else (Inr (), account_stored io hex_encode d sz
                          (k1\<lparr>disk_files := AList.update dest
                               (if io Link then src\<lparr>mtime := now\<rparr> else src) (disk_files k1)\<rparr>)))"

definition size_bytes :: "disk \<Rightarrow> u64" where
  "size_bytes k = current_size k"

definition max_size_bytes :: "disk \<Rightarrow> u64" where
  "max_size_bytes k = max_size k"

definition disk_count_entries :: "disk \<Rightarrow> u64" where
  "disk_count_entries k = current_entries k"

definition disk_read ::
  "(fs_call \<Rightarrow> bool) \<Rightarrow> (bytes \<Rightarrow> string) \<Rightarrow> (bytes \<Rightarrow> bytes) \<Rightarrow> digest_info \<Rightarrow> disk \<Rightarrow> bytes option cas_result \<times> disk" where
  "disk_read io hex_encode sha256 d k =
     (let p = blob_path hex_encode d in
      if io ReadFile then (Inl Io, k)
      else case map_of (disk_files k) p of
             None \<Rightarrow> (Inr None, k)
           | Some f \<Rightarrow>
               (case verify_digest hex_encode sha256 (content f) d of
                  Inl e \<Rightarrow>
                    (Inr None,
                     k\<lparr>disk_files := (if io (Unlink p) then disk_files k else AList.delete p (disk_files k)),
                       current_size := current_size k - of_nat (file_len f),
                       disk_lru := snd (lru_remove d (disk_lru k))\<rparr>)
                | Inr _ \<Rightarrow> (Inr (Some (content f)), touch_lru d (file_len f) k)))"

text \<open>The chunks of a streamed read.\<close>

function chunks_of :: "nat \<Rightarrow> 'a list \<Rightarrow> 'a list list" where
  "chunks_of n xs = (if n = 0 \<or> xs = [] then [] else take n xs # chunks_of n (drop n xs))"
  by pat_completeness auto
termination
  by (relation "measure (\<lambda>(n, xs). length xs)") auto

declare chunks_of.simps [simp del]

type_synonym blob_stream = "bytes cas_result list"

text \<open>The stream is read to its end at once, from the file as it is when the stream is made.\<close>

definition disk_read_stream ::
  "(fs_call \<Rightarrow> bool) \<Rightarrow> (bytes \<Rightarrow> string) \<Rightarrow> (bytes \<Rightarrow> bytes) \<Rightarrow> digest_info \<Rightarrow> nat \<Rightarrow> nat option \<Rightarrow> disk \<Rightarrow>
   blob_stream option cas_result \<times> disk" where
  "disk_read_stream io hex_encode sha256 d offset limit k =
     (let p = blob_path hex_encode d in
      if io Stat then (Inl Io, k)
      else case map_of (disk_files k) p of
             None \<Rightarrow> (Inr None, k)
           | Some f \<Rightarrow>
               (let k1 = touch_lru d (file_len f) k in
                if offset \<ge> file_len f then (Inr (Some []), k1)
                else
                  (let remaining = file_len f - offset;
                       read_size = (case limit of None \<Rightarrow> remaining | Some l \<Rightarrow> min l remaining);
                       verify_whole_blob = (offset = 0 \<and> limit = None);
                       data = take read_size (drop offset (content f))
                   in (Inr (Some
                        (if io OpenFile \<or> (io ReadFile \<and> read_size > 0) then [Inl Io]
                         else map Inr (chunks_of READ_CHUNK_BYTES data) @
                              (if verify_whole_blob
                               then (case verify_digest hex_encode sha256 data d of Inl e \<Rightarrow> [Inl e] | Inr _ \<Rightarrow> [])
                               else []))), k1))))"

definition check_streamed ::
  "(bytes \<Rightarrow> string) \<Rightarrow> (bytes \<Rightarrow> bytes) \<Rightarrow> digest_info \<Rightarrow> bytes \<Rightarrow> unit cas_result" where
  "check_streamed hex_encode sha256 d data =
     (let computed_hash = hex_encode (sha256 data) in
      if computed_hash \<noteq> hash_to_string hex_encode d
      then Inl (digest_mismatch (hash_to_string hex_encode d) computed_hash)
      else if int (length data) \<noteq> uint (word_of_int (dsize d) :: u64)
      then Inl (InvalidDigest (''Size mismatch: expected '' @ show_int (dsize d) @ '', got '' @ show_nat (length data)))
      else Inr ())"

text \<open>
  A write stages the bytes and publishes them. The file of a write that fails before it is
  published is removed when its \<open>StagingFile\<close> goes out of scope.
\<close>

definition stage_file :: "string \<Rightarrow> bytes \<Rightarrow> millis \<Rightarrow> disk \<Rightarrow> disk" where
  "stage_file uuid data now k =
     k\<lparr>disk_files := AList.update (staging_path uuid) \<lparr>content = data, mtime = now\<rparr> (disk_files k)\<rparr>"

definition abandon :: "(fs_call \<Rightarrow> bool) \<Rightarrow> string \<Rightarrow> cas_error \<Rightarrow> disk \<Rightarrow> unit cas_result \<times> disk" where
  "abandon io uuid e k = (Inl e, unlink_staged io uuid k)"

definition publish_staged ::
  "(fs_call \<Rightarrow> bool) \<Rightarrow> (bytes \<Rightarrow> string) \<Rightarrow> string \<Rightarrow> digest_info \<Rightarrow> nat \<Rightarrow> disk \<Rightarrow> unit cas_result \<times> disk" where
  "publish_staged io hex_encode uuid d sz k =
     (case publish io hex_encode uuid d sz k of (Inl e, k1) \<Rightarrow> (Inl e, k1) | (Inr _, k1) \<Rightarrow> (Inr (), k1))"

definition disk_write ::
  "(fs_call \<Rightarrow> bool) \<Rightarrow> (bytes \<Rightarrow> string) \<Rightarrow> (bytes \<Rightarrow> bytes) \<Rightarrow> millis \<Rightarrow> string \<Rightarrow> digest_info \<Rightarrow> bytes \<Rightarrow> disk \<Rightarrow>
   unit cas_result \<times> disk" where
  "disk_write io hex_encode sha256 now uuid d data k =
     (case disk_contains io hex_encode now d k of
        (Inl e, k1) \<Rightarrow> (Inl e, k1)
      | (Inr True, k1) \<Rightarrow> (Inr (), k1)
      | (Inr False, k1) \<Rightarrow>
          (case verify_digest hex_encode sha256 data d of
             Inl e \<Rightarrow> (Inl e, k1)
           | Inr _ \<Rightarrow>
               (case ensure_fits (length data) k1 of
                  Inl e \<Rightarrow> (Inl e, k1)
                | Inr _ \<Rightarrow>
                    if io MakeDirs \<or> io CreateStaged then abandon io uuid Io k1
                    else if io WriteStaged then abandon io uuid Io (stage_file uuid [] now k1)
                    else (let k2 = stage_file uuid data now k1 in
                          case finish_write io k2 of
                            Inl e \<Rightarrow> abandon io uuid e k2
                          | Inr _ \<Rightarrow> publish_staged io hex_encode uuid d (length data) k2))))"

fun drain_stream :: "(fs_call \<Rightarrow> bool) \<Rightarrow> blob_stream \<Rightarrow> bytes \<Rightarrow> cas_error option \<times> bytes" where
  "drain_stream io [] data = (None, data)"
| "drain_stream io (Inl e # stream) data = (Some e, data)"
| "drain_stream io (Inr chunk # stream) data =
     (if io WriteStaged then (Some Io, data) else drain_stream io stream (data @ chunk))"

definition disk_write_stream ::
  "(fs_call \<Rightarrow> bool) \<Rightarrow> (bytes \<Rightarrow> string) \<Rightarrow> (bytes \<Rightarrow> bytes) \<Rightarrow> millis \<Rightarrow> string \<Rightarrow> digest_info \<Rightarrow> blob_stream \<Rightarrow> disk \<Rightarrow>
   unit cas_result \<times> disk" where
  "disk_write_stream io hex_encode sha256 now uuid d stream k =
     (case disk_contains io hex_encode now d k of
        (Inl e, k1) \<Rightarrow> (Inl e, k1)
      | (Inr True, k1) \<Rightarrow> (Inr (), k1)
      | (Inr False, k1) \<Rightarrow>
          if io MakeDirs \<or> io CreateStaged then abandon io uuid Io k1
          else
            (let (failed, data) = drain_stream io stream [];
                 k2 = stage_file uuid data now k1
             in case failed of
                  Some e \<Rightarrow> abandon io uuid e k2
                | None \<Rightarrow>
                    (case finish_write io k2 of
                       Inl e \<Rightarrow> abandon io uuid e k2
                     | Inr _ \<Rightarrow>
                         (case check_streamed hex_encode sha256 d data of
                            Inl e \<Rightarrow> abandon io uuid e k2
                          | Inr _ \<Rightarrow>
                              (case ensure_fits (length data) k2 of
                                 Inl e \<Rightarrow> abandon io uuid e k2
                               | Inr _ \<Rightarrow> publish_staged io hex_encode uuid d (length data) k2)))))"

definition disk_delete ::
  "(fs_call \<Rightarrow> bool) \<Rightarrow> (bytes \<Rightarrow> string) \<Rightarrow> digest_info \<Rightarrow> disk \<Rightarrow> unit cas_result \<times> disk" where
  "disk_delete io hex_encode d k =
     (let p = blob_path hex_encode d in
      case map_of (disk_files k) p of
        None \<Rightarrow> (Inr (), k)
      | Some f \<Rightarrow>
          if io (Unlink p) then (Inl Io, k)
          else (Inr (), k\<lparr>disk_files := AList.delete p (disk_files k),
                          current_size := current_size k - of_nat (if io Stat then 0 else file_len f),
                          current_entries := current_entries k - 1,
                          disk_lru := snd (lru_remove d (disk_lru k))\<rparr>))"

definition disk_local_path ::
  "(fs_call \<Rightarrow> bool) \<Rightarrow> (bytes \<Rightarrow> string) \<Rightarrow> digest_info \<Rightarrow> disk \<Rightarrow> path option cas_result \<times> disk" where
  "disk_local_path io hex_encode d k =
     (let p = blob_path hex_encode d in
      if io Stat then (Inl Io, k)
      else case map_of (disk_files k) p of
             None \<Rightarrow> (Inr None, k)
           | Some f \<Rightarrow>
               if int (file_len f) \<noteq> max (dsize d) 0 then (Inr None, k)
               else (Inr (Some p), touch_lru d (file_len f) k))"

section \<open>The batch operations of the trait\<close>

text \<open>The defaults of \<open>CasBackend\<close>, over the operations of a backend with state \<open>'s\<close>.\<close>

fun find_missing :: "(digest_info \<Rightarrow> 's \<Rightarrow> bool cas_result \<times> 's) \<Rightarrow> digest_info list \<Rightarrow> 's \<Rightarrow> digest_info list cas_result \<times> 's" where
  "find_missing contains_op [] s = (Inr [], s)"
| "find_missing contains_op (d # ds) s =
     (case contains_op d s of
        (Inl e, s1) \<Rightarrow> (Inl e, s1)
      | (Inr present, s1) \<Rightarrow>
          (case find_missing contains_op ds s1 of
             (Inl e, s2) \<Rightarrow> (Inl e, s2)
           | (Inr missing, s2) \<Rightarrow> (Inr (if present then missing else d # missing), s2)))"

fun batch_read :: "(digest_info \<Rightarrow> 's \<Rightarrow> bytes option cas_result \<times> 's) \<Rightarrow> digest_info list \<Rightarrow> 's \<Rightarrow>
    (digest_info \<times> bytes option) list cas_result \<times> 's" where
  "batch_read read_op [] s = (Inr [], s)"
| "batch_read read_op (d # ds) s =
     (case read_op d s of
        (Inl e, s1) \<Rightarrow> (Inl e, s1)
      | (Inr data, s1) \<Rightarrow>
          (case batch_read read_op ds s1 of
             (Inl e, s2) \<Rightarrow> (Inl e, s2)
           | (Inr rest, s2) \<Rightarrow> (Inr ((d, data) # rest), s2)))"

fun batch_write :: "(digest_info \<Rightarrow> bytes \<Rightarrow> 's \<Rightarrow> unit cas_result \<times> 's) \<Rightarrow> (digest_info \<times> bytes) list \<Rightarrow> 's \<Rightarrow>
    (digest_info \<times> unit cas_result) list \<times> 's" where
  "batch_write write_op [] s = ([], s)"
| "batch_write write_op ((d, data) # items) s =
     (case write_op d data s of (r, s1) \<Rightarrow>
        (case batch_write write_op items s1 of (rest, s2) \<Rightarrow> ((d, r) # rest, s2)))"

section \<open>Stored blobs match their digests\<close>

lemma walk_store_fault_free [simp]: "walk_store (\<lambda>_. False) t = Some (listing t)"
  by (simp add: walk_store_def)

lemma walk_store_found: "walk_store io t = Some es \<Longrightarrow> set es \<subseteq> set (listing t)"
  by (auto simp: walk_store_def scan_def set_listing dest!: scan_dir_Some split: if_splits)

text \<open>\<open>S\<close> holds the hashes whose files may be anything.\<close>

definition intact_but :: "bytes set \<Rightarrow> (bytes \<Rightarrow> string) \<Rightarrow> (bytes \<Rightarrow> bytes) \<Rightarrow> file_tree \<Rightarrow> bool" where
  "intact_but S hex_encode sha256 t \<longleftrightarrow> distinct (map fst t) \<and>
     (\<forall>d f. length (hash d) = 32 \<longrightarrow> hash d \<notin> S \<longrightarrow> map_of t (entry_path hex_encode d) = Some f \<longrightarrow>
        sha256 (content f) = hash d)"

abbreviation intact :: "(bytes \<Rightarrow> string) \<Rightarrow> (bytes \<Rightarrow> bytes) \<Rightarrow> file_tree \<Rightarrow> bool" where
  "intact \<equiv> intact_but {}"

lemma intact_def:
  "intact hex_encode sha256 t \<longleftrightarrow> distinct (map fst t) \<and>
     (\<forall>d f. length (hash d) = 32 \<longrightarrow> map_of t (entry_path hex_encode d) = Some f \<longrightarrow> sha256 (content f) = hash d)"
  by (simp add: intact_but_def)

lemma intact_mono: "intact_but S hex_encode sha256 t \<Longrightarrow> S \<subseteq> T \<Longrightarrow> intact_but T hex_encode sha256 t"
  unfolding intact_but_def by (metis subset_iff)

lemma intact_delete: "intact_but S hex_encode sha256 t \<Longrightarrow> intact_but S hex_encode sha256 (AList.delete p t)"
  by (auto simp: intact_but_def map_of_delete distinct_map_fst_filter AList.delete_eq split: if_splits)

lemma map_of_filter_distinct:
  "distinct (map fst t) \<Longrightarrow> map_of (filter P t) p = Some f \<Longrightarrow> map_of t p = Some f"
  by (simp add: map_of_Some_iff distinct_map_fst_filter)

lemma intact_filter: "intact_but S hex_encode sha256 t \<Longrightarrow> intact_but S hex_encode sha256 (filter P t)"
  unfolding intact_but_def by (auto simp: distinct_map_fst_filter dest: map_of_filter_distinct)

lemma intact_update:
  assumes "intact_but S hex_encode sha256 t" "\<And>d. length (hash d) = 32 \<Longrightarrow> hash d \<notin> S \<Longrightarrow> p = entry_path hex_encode d \<Longrightarrow> sha256 (content f) = hash d"
  shows "intact_but S hex_encode sha256 (AList.update p f t)"
proof -
  have "sha256 (content g) = hash d" if "length (hash d) = 32" "hash d \<notin> S" "map_of (AList.update p f t) (entry_path hex_encode d) = Some g" for d g
    using that assms by (cases "p = entry_path hex_encode d") (auto simp: intact_but_def map_of_update)
  moreover have "distinct (map fst (AList.update p f t))" using assms(1) by (simp add: intact_but_def distinct_update)
  ultimately show ?thesis unfolding intact_but_def by blast
qed

lemma intact_mtime:
  assumes "intact_but S hex_encode sha256 t" "\<And>f. content (g f) = content f"
  shows "intact_but S hex_encode sha256 (alist_modify p g t)"
proof -
  have "\<exists>f. map_of t q = Some f \<and> content h = content f" if "map_of (alist_modify p g t) q = Some h" for q h
    using that assms(2) by (cases "q = p") auto
  then have "sha256 (content h) = hash d"
    if "length (hash d) = 32" "hash d \<notin> S" "map_of (alist_modify p g t) (entry_path hex_encode d) = Some h" for d h
    using that assms(1) by (force simp: intact_but_def)
  then show ?thesis using assms(1) unfolding intact_but_def map_fst_alist_modify by blast
qed

lemma hex_inject:
  assumes "lower_hex_codec hex_encode" "hex_encode a = hex_encode b"
  shows "a = b"
proof -
  have eq: "lower_hex a = lower_hex b" using assms by (simp add: lower_hex_codec_def)
  then have len: "length a = length b" using length_lower_hex [of a] length_lower_hex [of b] by simp
  have "parse_pairs (lower_hex b) [0..<length b] = Inr a"
    unfolding eq [symmetric] len [symmetric] by (rule parse_pairs_lower_hex)
  then show ?thesis unfolding parse_pairs_lower_hex by (rule Inr_inject [symmetric])
qed

lemma touch_lru_files [simp]: "disk_files (touch_lru d n k) = disk_files k"
  by (simp add: touch_lru_def)

lemma intact_unlink: "intact_but S hex_encode sha256 (disk_files k) \<Longrightarrow> intact_but S hex_encode sha256 (disk_files (unlink_staged io uuid k))"
  by (simp add: unlink_staged_def intact_delete)

lemma intact_evict_fold:
  "intact_but S hex_encode sha256 (disk_files k) \<Longrightarrow> intact_but S hex_encode sha256 (disk_files (fold (evict_one io hex_encode) vs k))"
proof (induction vs arbitrary: k)
  case (Cons v vs)
  have "intact_but S hex_encode sha256 (disk_files (evict_one io hex_encode v k))"
    using Cons.prems by (auto simp: evict_one_def Let_def intact_delete split: prod.splits)
  from Cons.IH [OF this] show ?case by simp
qed simp

lemma intact_account:
  "intact_but S hex_encode sha256 (disk_files k) \<Longrightarrow> intact_but S hex_encode sha256 (disk_files (account_stored io hex_encode d n k))"
  by (simp add: account_stored_def evict_if_needed_def split_beta intact_evict_fold)

lemma intact_contains:
  "intact_but S hex_encode sha256 (disk_files k) \<Longrightarrow> intact_but S hex_encode sha256 (disk_files (snd (disk_contains io hex_encode now d k)))"
  by (simp add: disk_contains_def Let_def refresh_mtime_if_stale_def intact_mtime split: option.split)

text \<open>Two digests with one path have one hash, so what is stored under a path fits it.\<close>

lemma intact_store:
  assumes "lower_hex_codec hex_encode" "length (hash d) = 32" "sha256 (content f) = hash d"
    "intact_but S hex_encode sha256 t"
  shows "intact_but S hex_encode sha256 (AList.update (blob_path hex_encode d) f t)"
proof (rule intact_update [OF assms(4)])
  fix e assume "length (hash e) = 32" "blob_path hex_encode d = entry_path hex_encode e"
  then show "sha256 (content f) = hash e"
    using entry_path_inject [OF assms(1,2)] assms(3) by (simp add: blob_path_def)
qed

lemma intact_publish:
  assumes "lower_hex_codec hex_encode" "length (hash d) = 32" "intact_but S hex_encode sha256 (disk_files k)"
    and "\<And>f. map_of (disk_files k) (staging_path uuid) = Some f \<Longrightarrow> sha256 (content f) = hash d"
  shows "intact_but S hex_encode sha256 (disk_files (snd (publish_staged io hex_encode uuid d n k)))"
proof -
  have "intact_but S hex_encode sha256 (disk_files (snd (publish io hex_encode uuid d n k)))"
    using assms by (simp add: publish_def Let_def intact_store intact_delete intact_account intact_unlink split: option.split)
  moreover have "snd (publish_staged io hex_encode uuid d n k) = snd (publish io hex_encode uuid d n k)"
    by (simp add: publish_staged_def split: prod.split sum.split)
  ultimately show ?thesis by simp
qed

lemma intact_stage:
  assumes "lower_hex_codec hex_encode" "intact_but S hex_encode sha256 (disk_files k)"
  shows "intact_but S hex_encode sha256 (disk_files (stage_file uuid data now k))"
proof -
  have "staging_path uuid \<noteq> entry_path hex_encode d" if "length (hash d) = 32" for d
    using entry_path_not_staging [OF assms(1) that, of uuid] by simp
  then have "intact_but S hex_encode sha256 (AList.update (staging_path uuid) \<lparr>content = data, mtime = now\<rparr> (disk_files k))"
    by (intro intact_update [OF assms(2)]) metis
  then show ?thesis by (simp add: stage_file_def)
qed

lemma map_of_stage [simp]:
  "map_of (disk_files (stage_file uuid data now k)) (staging_path uuid) = Some \<lparr>content = data, mtime = now\<rparr>"
  by (simp add: stage_file_def map_of_update)

lemma verify_digest_Inr:
  assumes "lower_hex_codec hex_encode"
  shows "verify_digest hex_encode sha256 data d = Inr u \<longleftrightarrow> sha256 data = hash d"
  using hex_inject [OF assms, of "sha256 data" "hash d"]
  by (auto simp: verify_digest_def compute_digest_def hash_to_string_def Let_def)

lemma intact_abandon:
  "intact_but S hex_encode sha256 (disk_files k) \<Longrightarrow> intact_but S hex_encode sha256 (disk_files (snd (abandon io uuid e k)))"
  by (simp add: abandon_def intact_unlink)

lemma intact_write:
  assumes "lower_hex_codec hex_encode" "length (hash d) = 32" "intact_but S hex_encode sha256 (disk_files k)"
  shows "intact_but S hex_encode sha256 (disk_files (snd (disk_write io hex_encode sha256 now uuid d data k)))"
proof -
  obtain r k1 where c: "disk_contains io hex_encode now d k = (r, k1)" by fastforce
  have k1: "intact_but S hex_encode sha256 (disk_files k1)" using intact_contains [OF assms(3), of io now d] c by simp
  have pub: "intact_but S hex_encode sha256 (disk_files (snd (publish_staged io hex_encode uuid d n (stage_file uuid data now k1))))"
    if "verify_digest hex_encode sha256 data d = Inr ()" for n
    using that by (intro intact_publish [OF assms(1,2) intact_stage [OF assms(1) k1]])
      (auto simp: verify_digest_Inr [OF assms(1)])
  show ?thesis
    by (simp add: disk_write_def c k1 pub Let_def intact_abandon intact_stage [OF assms(1)]
        split: sum.split bool.split)
qed

lemma check_streamed_Inr:
  assumes "check_streamed hex_encode sha256 d data = Inr u"
  shows "verify_digest hex_encode sha256 data d = Inr () \<and> int (length data) = uint (word_of_int (dsize d) :: u64)"
  using assms by (simp add: check_streamed_def verify_digest_def compute_digest_def Let_def split: if_splits)

lemma intact_write_stream:
  assumes "lower_hex_codec hex_encode" "length (hash d) = 32" "intact_but S hex_encode sha256 (disk_files k)"
  shows "intact_but S hex_encode sha256 (disk_files (snd (disk_write_stream io hex_encode sha256 now uuid d stream k)))"
proof -
  obtain r k1 where c: "disk_contains io hex_encode now d k = (r, k1)" by fastforce
  obtain failed data where dr: "drain_stream io stream [] = (failed, data)" by fastforce
  have k1: "intact_but S hex_encode sha256 (disk_files k1)" using intact_contains [OF assms(3), of io now d] c by simp
  have pub: "intact_but S hex_encode sha256 (disk_files (snd (publish_staged io hex_encode uuid d n (stage_file uuid data now k1))))"
    if "check_streamed hex_encode sha256 d data = Inr ()" for n
    using check_streamed_Inr [OF that] by (intro intact_publish [OF assms(1,2) intact_stage [OF assms(1) k1]])
      (auto simp: verify_digest_Inr [OF assms(1)])
  show ?thesis
    by (simp add: disk_write_stream_def c dr k1 pub Let_def intact_abandon intact_stage [OF assms(1)]
        split: sum.split bool.split option.split)
qed

text \<open>The hash whose file a failed copy may have left incomplete.\<close>

definition half_copied :: "(fs_call \<Rightarrow> bool) \<Rightarrow> digest_info \<Rightarrow> nat option \<Rightarrow> bytes set" where
  "half_copied io d written = (if io Link \<and> io Copy \<and> written \<noteq> None then {hash d} else {})"

lemma intact_partial:
  assumes "lower_hex_codec hex_encode" "length (hash d) = 32" "intact_but S hex_encode sha256 t"
  shows "intact_but (insert (hash d) S) hex_encode sha256 (AList.update (blob_path hex_encode d) f t)"
proof (rule intact_update [OF intact_mono [OF assms(3)]])
  fix e assume e: "length (hash e) = 32" "hash e \<notin> insert (hash d) S" "blob_path hex_encode d = entry_path hex_encode e"
  then have "hash d = hash e" using entry_path_inject [OF assms(1,2) e(1)] by (simp add: blob_path_def)
  with e(2) show "sha256 (content f) = hash e" by simp
qed blast

lemma intact_adopt:
  assumes "lower_hex_codec hex_encode" "length (hash d) = 32" "intact_but S hex_encode sha256 (disk_files k)"
    "sha256 (content src) = hash d"
  shows "intact_but (S \<union> half_copied io d written) hex_encode sha256
     (disk_files (snd (adopt_link io hex_encode now d src written k)))"
proof -
  obtain r k1 where c: "disk_contains io hex_encode now d k = (r, k1)" by fastforce
  have k1: "intact_but S hex_encode sha256 (disk_files k1)" using intact_contains [OF assms(3), of io now d] c by simp
  note k1' = intact_mono [OF k1 Un_upper1]
  show ?thesis
  proof (cases "half_copied io d written = {}")
    case True
    then show ?thesis
      using assms k1 by (auto simp: adopt_link_def c Let_def intact_account intact_store half_copied_def
          split: sum.split bool.split if_splits)
  next
    case False
    then have h: "half_copied io d written = {hash d}" "io Link" "io Copy" by (auto simp: half_copied_def split: if_splits)
    show ?thesis
      using k1' [of "{hash d}"] intact_partial [OF assms(1,2) k1]
      by (simp add: adopt_link_def c Let_def h split: sum.split bool.split option.split)
  qed
qed

lemma intact_warm_up:
  assumes "intact_but S hex_encode sha256 (disk_files k)"
  shows "intact_but S hex_encode sha256 (disk_files (snd (warm_up io now k)))"
proof -
  have "intact_but S hex_encode sha256 (sweep_staging_logged io now (disk_files k))"
    using assms by (simp add: sweep_staging_logged_def sweep_staging_def Let_def intact_filter)
  then show ?thesis by (simp add: warm_up_def Let_def split: prod.split option.split)
qed

section \<open>Runs of the backend\<close>

datatype disk_op =
    DContains digest_info | DRead digest_info | DReadStream digest_info nat "nat option"
  | DWrite string digest_info bytes | DWriteStream string digest_info blob_stream
  | DDelete digest_info | DLocalPath digest_info | DAdopt digest_info file_node "nat option" | DWarmUp

fun disk_step ::
  "(bytes \<Rightarrow> string) \<Rightarrow> (bytes \<Rightarrow> bytes) \<Rightarrow> (fs_call \<Rightarrow> bool) \<Rightarrow> millis \<Rightarrow> disk_op \<Rightarrow> disk \<Rightarrow> disk" where
  "disk_step hex_encode sha256 io now (DContains d) k = snd (disk_contains io hex_encode now d k)"
| "disk_step hex_encode sha256 io now (DRead d) k = snd (disk_read io hex_encode sha256 d k)"
| "disk_step hex_encode sha256 io now (DReadStream d off lm) k = snd (disk_read_stream io hex_encode sha256 d off lm k)"
| "disk_step hex_encode sha256 io now (DWrite uuid d data) k = snd (disk_write io hex_encode sha256 now uuid d data k)"
| "disk_step hex_encode sha256 io now (DWriteStream uuid d stream) k =
     snd (disk_write_stream io hex_encode sha256 now uuid d stream k)"
| "disk_step hex_encode sha256 io now (DDelete d) k = snd (disk_delete io hex_encode d k)"
| "disk_step hex_encode sha256 io now (DLocalPath d) k = snd (disk_local_path io hex_encode d k)"
| "disk_step hex_encode sha256 io now (DAdopt d src written) k = snd (adopt_link io hex_encode now d src written k)"
| "disk_step hex_encode sha256 io now DWarmUp k = snd (warm_up io now k)"

fun op_digest :: "disk_op \<Rightarrow> digest_info option" where
  "op_digest (DContains d) = Some d" | "op_digest (DRead d) = Some d" | "op_digest (DReadStream d _ _) = Some d"
| "op_digest (DWrite _ d _) = Some d" | "op_digest (DWriteStream _ d _) = Some d" | "op_digest (DDelete d) = Some d"
| "op_digest (DLocalPath d) = Some d" | "op_digest (DAdopt d _ _) = Some d" | "op_digest DWarmUp = None"

text \<open>Digests have 32 bytes, and an adopted file has the content its digest names.\<close>

definition op_fair :: "(bytes \<Rightarrow> bytes) \<Rightarrow> disk_op \<Rightarrow> bool" where
  "op_fair sha256 op \<longleftrightarrow> (\<forall>d. op_digest op = Some d \<longrightarrow> length (hash d) = 32) \<and>
     (\<forall>d src written. op = DAdopt d src written \<longrightarrow> sha256 (content src) = hash d)"

fun failed_copy :: "(fs_call \<Rightarrow> bool) \<Rightarrow> disk_op \<Rightarrow> bytes set" where
  "failed_copy io (DAdopt d src written) = half_copied io d written"
| "failed_copy io op = {}"

text \<open>The states of a store, with the hashes whose files a failed copy may have left incomplete.\<close>

inductive disk_reachable :: "(bytes \<Rightarrow> string) \<Rightarrow> (bytes \<Rightarrow> bytes) \<Rightarrow> bytes set \<Rightarrow> disk \<Rightarrow> bool"
  for hex_encode sha256 where
  disk_start: "intact hex_encode sha256 files \<Longrightarrow>
    disk_reachable hex_encode sha256 {} (disk_with_max_size_bytes files max_bytes)"
| disk_run: "disk_reachable hex_encode sha256 S k \<Longrightarrow> op_fair sha256 op \<Longrightarrow>
    disk_reachable hex_encode sha256 (S \<union> failed_copy io op) (disk_step hex_encode sha256 io now op k)"

lemma intact_disk_step:
  assumes "lower_hex_codec hex_encode" "op_fair sha256 op" "intact_but S hex_encode sha256 (disk_files k)"
  shows "intact_but (S \<union> failed_copy io op) hex_encode sha256 (disk_files (disk_step hex_encode sha256 io now op k))"
proof (cases op)
  case (DRead d)
  then show ?thesis using assms(3) by (simp add: disk_read_def Let_def intact_delete split: option.split sum.split)
next
  case (DReadStream d off lm)
  then show ?thesis using assms(3) by (simp add: disk_read_stream_def Let_def split: option.split)
next
  case (DDelete d)
  then show ?thesis using assms(3) by (simp add: disk_delete_def Let_def intact_delete split: option.split)
next
  case (DLocalPath d)
  then show ?thesis using assms(3) by (simp add: disk_local_path_def Let_def split: option.split)
next
  case (DAdopt d src written)
  then show ?thesis using assms by (simp add: op_fair_def intact_adopt)
qed (use assms in \<open>simp_all add: op_fair_def intact_contains intact_write intact_write_stream intact_warm_up\<close>)

lemma disk_reachable_intact:
  assumes "lower_hex_codec hex_encode" "disk_reachable hex_encode sha256 S k"
  shows "intact_but S hex_encode sha256 (disk_files k)"
  using assms(2)
proof induction
  case (disk_run S k op io now)
  then show ?case using intact_disk_step [OF assms(1)] by blast
qed (simp add: disk_with_max_size_bytes_def)



text \<open>
  A copy that fails midway leaves the truncated file at the path of the blob, unaccounted. The
  next adoption of the digest, without any failure, finds the path taken and reports success
  over the truncated file, and the digest is not present.
\<close>

theorem failed_adopt_leaves_partial:
  assumes "map_of (disk_files k) (blob_path hex_encode d) = None" "n < length (content src)"
    and "dsize d = int (length (content src))" "length (content src) < 2 ^ 63"
    and "io = (\<lambda>c. c = Link \<or> c = Copy)"
  shows "let k1 = snd (adopt_link io hex_encode now d src (Some n) k);
             k2 = snd (adopt_link (\<lambda>_. False) hex_encode now d src w k1)
         in current_size k1 = current_size k \<and>
            map_option content (map_of (disk_files k1) (blob_path hex_encode d)) = Some (take n (content src)) \<and>
            fst (adopt_link (\<lambda>_. False) hex_encode now d src w k1) = Inr () \<and>
            disk_files k2 = disk_files k1 \<and> fst (disk_contains (\<lambda>_. False) hex_encode now d k2) = Inr False"
proof -
  have "uint (word_of_int (dsize d) :: u64) = int (length (content src))"
    using assms(3,4) by (simp add: unsigned_of_nat take_bit_nat_eq_self)
  then show ?thesis
    using assms by (simp add: adopt_link_def disk_contains_def Let_def file_len_def map_of_update)
qed

theorem failed_adopt_leaves_partial_witness:
  "let d = \<lparr>hash = replicate 32 7, dsize = 2\<rparr>; src = \<lparr>content = [1, 2], mtime = 5\<rparr>;
       k1 = snd (adopt_link (\<lambda>c. c = Link \<or> c = Copy) lower_hex 9 d src (Some 1) (disk_with_max_size_bytes [] 100))
   in fst (adopt_link (\<lambda>_. False) lower_hex 9 d src None k1) = Inr ()"
  using failed_adopt_leaves_partial [of "disk_with_max_size_bytes [] 100" lower_hex "\<lparr>hash = replicate 32 7, dsize = 2\<rparr>"
      1 "\<lparr>content = [1, 2], mtime = 5\<rparr>" "\<lambda>c. c = Link \<or> c = Copy" 9 None]
  by (simp add: disk_with_max_size_bytes_def Let_def)

section \<open>A failed write leaves nothing behind\<close>

lemma delete_update_fresh: "p \<notin> fst ` set t \<Longrightarrow> AList.delete p (AList.update p v t) = t"
  by (induction t) (auto simp: AList.delete_eq)

lemma unlink_stage:
  assumes "staging_path uuid \<notin> fst ` set (disk_files k)" "\<not> io UnlinkStaged"
  shows "unlink_staged io uuid (stage_file uuid data now k) = k" "unlink_staged io uuid k = k"
  using assms by (simp_all add: unlink_staged_def stage_file_def delete_update_fresh delete_absent)

lemma disk_contains_False: "disk_contains io hex_encode now d k = (Inr False, k') \<Longrightarrow> k' = k"
  by (auto simp: disk_contains_def Let_def split: if_splits option.splits)

lemma disk_contains_Inl: "disk_contains io hex_encode now d k = (Inl e, k') \<Longrightarrow> k' = k"
  by (auto simp: disk_contains_def Let_def split: if_splits option.splits)

lemma publish_staged_Inl:
  assumes "publish_staged io hex_encode uuid d n (stage_file uuid data now k) = (Inl e, k')"
    "staging_path uuid \<notin> fst ` set (disk_files k)" "\<not> io UnlinkStaged"
  shows "k' = k"
  using assms unlink_stage(1) [where io = io and data = data and now = now, OF assms(2,3)]
  by (auto simp: publish_staged_def publish_def Let_def split: prod.splits sum.splits option.splits if_splits)

text \<open>
  C4: a write that fails, for whatever reason and at whatever step, leaves the backend exactly
  as it was, provided the staging file can be removed and its name was not in use; and content
  that does not hash to its digest is refused.
\<close>

theorem disk_failed_write_leaves_nothing:
  assumes "staging_path uuid \<notin> fst ` set (disk_files k)" "\<not> io UnlinkStaged"
  shows "(disk_write io hex_encode sha256 now uuid d data k = (Inl e, k') \<longrightarrow> k' = k) \<and>
    (disk_write_stream io hex_encode sha256 now uuid d stream k = (Inl e, k') \<longrightarrow> k' = k) \<and>
    (\<not> io Stat \<and> map_of (disk_files k) (blob_path hex_encode d) = None \<and> hex_encode (sha256 data) \<noteq> hash_to_string hex_encode d \<longrightarrow>
       disk_write io hex_encode sha256 now uuid d data k =
         (Inl (DigestMismatch (hash_to_string hex_encode d) (hex_encode (sha256 data))), k))"
proof -
  note un = unlink_stage [where io = io, OF assms] and pub = publish_staged_Inl [where io = io, OF _ assms]
  have "k' = k" if "disk_write io hex_encode sha256 now uuid d data k = (Inl e, k')"
    using that un
    by (auto simp: disk_write_def abandon_def Let_def dest: disk_contains_False disk_contains_Inl pub
        split: prod.splits sum.splits bool.splits if_splits)
  moreover have "k' = k" if "disk_write_stream io hex_encode sha256 now uuid d stream k = (Inl e, k')"
    using that un
    by (auto simp: disk_write_stream_def abandon_def Let_def dest: disk_contains_False disk_contains_Inl pub
        split: prod.splits sum.splits bool.splits if_splits option.splits)
  ultimately show ?thesis
    by (auto simp: disk_write_def disk_contains_def verify_digest_def compute_digest_def digest_mismatch_def Let_def)
qed

theorem disk_failed_write_leaves_nothing_witness:
  "let k = disk_with_max_size_bytes [] 100; d = \<lparr>hash = [8], dsize = 2\<rparr>
   in disk_write (\<lambda>_. False) lower_hex (\<lambda>_. [7]) 9 ''u'' d [1, 2] k = (Inl (DigestMismatch (lower_hex [8]) (lower_hex [7])), k)"
  using disk_failed_write_leaves_nothing [of "''u''" "disk_with_max_size_bytes [] 100" "\<lambda>_. False" lower_hex "\<lambda>_. [7]" 9 "\<lparr>hash = [8], dsize = 2\<rparr>" "[1, 2]",
      THEN conjunct2, THEN conjunct2]
  by (simp add: disk_with_max_size_bytes_def hash_to_string_def lower_hex_def byte_hex_def hex_char_def Let_def)

end
