(* ===== verification/Disk_Accounting.thy ===== *)
theory Disk_Accounting
  imports Disk_Cas
begin

text \<open>
  The counters, the recency order and the size budget of the disk CAS: in a run without I/O
  errors whose digests declare the length of the content, the counters are exact after
  \<open>warm_up\<close>, every blob is tracked once, and a write that stores a blob ends within the budget
  and keeps the blob it stored.
\<close>

section \<open>Bytes and files of a directory tree\<close>

definition is_entry :: "path \<Rightarrow> bool" where
  "is_entry q \<longleftrightarrow> \<not> list_ex hidden_name q \<and> digest_from_path q \<noteq> None"

definition blob_total :: "file_tree \<Rightarrow> nat" where
  "blob_total t = sum_list (map (file_len \<circ> snd) (filter (is_entry \<circ> fst) t))"

definition blob_count :: "file_tree \<Rightarrow> nat" where
  "blob_count t = length (filter (is_entry \<circ> fst) t)"

lemma is_entry_path: "lower_hex_codec hex_encode \<Longrightarrow> length (hash d) = 32 \<Longrightarrow> is_entry (entry_path hex_encode d)"
  using entry_path_visible [of hex_encode d] by (simp add: is_entry_def entry_path_digest)

lemma is_entry_staging: "\<not> is_entry (staging_path uuid)"
  by (simp add: is_entry_def staging_path_def STAGING_DIR_def hidden_name_def)

lemma blob_update_other:
  "\<not> is_entry p \<Longrightarrow> blob_total (AList.update p f t) = blob_total t \<and> blob_count (AList.update p f t) = blob_count t"
  by (induction t) (auto simp: blob_total_def blob_count_def)

lemma blob_delete_other:
  "\<not> is_entry p \<Longrightarrow> blob_total (AList.delete p t) = blob_total t \<and> blob_count (AList.delete p t) = blob_count t"
  by (induction t) (auto simp: blob_total_def blob_count_def)

lemma blob_update_fresh:
  "is_entry p \<Longrightarrow> map_of t p = None \<Longrightarrow>
   blob_total (AList.update p f t) = blob_total t + file_len f \<and> blob_count (AList.update p f t) = blob_count t + 1"
  by (simp add: update_fresh blob_total_def blob_count_def)

lemma blob_delete:
  "is_entry p \<Longrightarrow> distinct (map fst t) \<Longrightarrow> map_of t p = Some f \<Longrightarrow>
   blob_total t = blob_total (AList.delete p t) + file_len f \<and> blob_count t = blob_count (AList.delete p t) + 1"
proof (induction t)
  case (Cons x t)
  show ?case
  proof (cases "fst x = p")
    case True
    then have "AList.delete p t = t" using Cons.prems(2) by (auto intro: delete_absent)
    then show ?thesis using Cons.prems True by (cases x) (auto simp: blob_total_def blob_count_def)
  next
    case False
    then show ?thesis using Cons by (cases x) (auto simp: blob_total_def blob_count_def)
  qed
qed simp

lemma blob_modify:
  assumes "\<And>f. content (g f) = content f"
  shows "blob_total (alist_modify p g t) = blob_total t \<and> blob_count (alist_modify p g t) = blob_count t"
  using assms by (induction t) (auto simp: blob_total_def blob_count_def alist_modify_def file_len_def)

lemma blob_filter_staging:
  assumes "\<And>q f. (q, f) \<in> set t \<Longrightarrow> is_entry q \<Longrightarrow> P (q, f)"
  shows "blob_total (filter P t) = blob_total t \<and> blob_count (filter P t) = blob_count t"
proof -
  have "filter (is_entry \<circ> fst) (filter P t) = filter (is_entry \<circ> fst) t"
    using assms by (auto intro!: filter_cong)
  then show ?thesis by (simp only: blob_total_def blob_count_def)
qed

lemma scan_totals:
  "sum_list (map file_size (listing t)) = blob_total t \<and> length (listing t) = blob_count t"
  by (induction t) (auto simp: listing_def List.map_filter_simps blob_total_def blob_count_def scan_entry_def is_entry_def
      split: option.splits if_splits)

section \<open>Exact accounting\<close>

text \<open>
  The counters are the totals of the files; every blob is tracked under one key, its digest, with
  its length. \<open>V\<close> are victims already dropped from the recency order and not yet removed.
\<close>

definition blob_key :: "(bytes \<Rightarrow> string) \<Rightarrow> file_tree \<Rightarrow> digest_info \<Rightarrow> nat \<Rightarrow> bool" where
  "blob_key hex_encode t d z \<longleftrightarrow> length (hash d) = 32 \<and>
     (\<exists>f. map_of t (entry_path hex_encode d) = Some f \<and> z = file_len f \<and> dsize d = int z)"

definition tree_ok :: "(bytes \<Rightarrow> string) \<Rightarrow> file_tree \<Rightarrow> bool" where
  "tree_ok hex_encode t \<longleftrightarrow> distinct (map fst t) \<and>
     (\<forall>q f. (q, f) \<in> set t \<longrightarrow> is_entry q \<longrightarrow>
        file_len f < 2 ^ 63 \<and> (\<exists>d. length (hash d) = 32 \<and> q = entry_path hex_encode d))"

definition exact :: "(bytes \<Rightarrow> string) \<Rightarrow> (digest_info \<times> nat) list \<Rightarrow> disk \<Rightarrow> bool" where
  "exact hex_encode V k \<longleftrightarrow>
     tree_ok hex_encode (disk_files k) \<and> lru_unique (disk_lru k) \<and>
     current_size k = of_nat (blob_total (disk_files k)) \<and> current_entries k = of_nat (blob_count (disk_files k)) \<and>
     (\<forall>d z. (sizes (disk_lru k) d = Some z \<or> (d, z) \<in> set V) \<longleftrightarrow> blob_key hex_encode (disk_files k) d z) \<and>
     distinct (map fst V) \<and> (\<forall>d \<in> fst ` set V. sizes (disk_lru k) d = None)"

lemma blob_key_inj:
  assumes "lower_hex_codec hex_encode" "blob_key hex_encode t d z" "blob_key hex_encode t e y" "hash d = hash e"
  shows "d = e \<and> z = y"
proof -
  have "entry_path hex_encode d = entry_path hex_encode e" using assms(4) by (simp add: entry_path_def hash_to_string_def)
  then have "dsize d = dsize e" "z = y" using assms(2,3) by (auto simp: blob_key_def)
  then show ?thesis using assms(4) by (simp add: digest_info.equality)
qed

lemma tree_ok_update:
  assumes "tree_ok hex_encode t" "is_entry p \<Longrightarrow> file_len f < 2 ^ 63 \<and> (\<exists>d. length (hash d) = 32 \<and> p = entry_path hex_encode d)"
  shows "tree_ok hex_encode (AList.update p f t)"
proof -
  have "(q, g) = (p, f) \<or> (q, g) \<in> set t" if "(q, g) \<in> set (AList.update p f t)" for q g
    using that set_update_cases [of q g p f t] assms(1) unfolding tree_ok_def by blast
  moreover have "distinct (map fst (AList.update p f t))" using assms(1) by (simp add: tree_ok_def distinct_update)
  ultimately show ?thesis using assms unfolding tree_ok_def by blast
qed

lemma tree_ok_filter: "tree_ok hex_encode t \<Longrightarrow> tree_ok hex_encode (filter P t)"
  by (auto simp: tree_ok_def distinct_map_fst_filter)

lemma tree_ok_delete: "tree_ok hex_encode t \<Longrightarrow> tree_ok hex_encode (AList.delete p t)"
  by (simp add: AList.delete_eq tree_ok_filter)

lemma exact_staging:
  assumes "lower_hex_codec hex_encode" "exact hex_encode V k"
  shows "exact hex_encode V (stage_file uuid data now k)" "exact hex_encode V (unlink_staged io uuid k)"
proof -
  have other: "entry_path hex_encode d \<noteq> staging_path uuid" if "length (hash d) = 32" for d
    by (rule entry_path_not_staging [OF assms(1) that])
  have key: "blob_key hex_encode (AList.update (staging_path uuid) x t) = blob_key hex_encode t"
    "blob_key hex_encode (AList.delete (staging_path uuid) t) = blob_key hex_encode t" for x t
    using other by (auto simp: blob_key_def map_of_update map_of_delete fun_eq_iff)
  have "tree_ok hex_encode (AList.update (staging_path uuid) \<lparr>content = data, mtime = now\<rparr> (disk_files k))"
    by (rule tree_ok_update) (use assms(2) is_entry_staging [of uuid] in \<open>auto simp: exact_def\<close>)
  then show "exact hex_encode V (stage_file uuid data now k)"
    using assms(2) by (simp add: exact_def stage_file_def key blob_update_other is_entry_staging tree_ok_update)
  show "exact hex_encode V (unlink_staged io uuid k)"
    using assms(2) by (simp add: exact_def unlink_staged_def key blob_delete_other is_entry_staging tree_ok_delete)
qed

lemma exact_key: "exact hex_encode [] k \<Longrightarrow> sizes (disk_lru k) d = Some z \<longleftrightarrow> blob_key hex_encode (disk_files k) d z"
  by (simp add: exact_def)

lemma tracked_iff_sized: "lru_inv s \<Longrightarrow> positions s d \<noteq> None \<longleftrightarrow> sizes s d \<noteq> None"
  using lru_inv_dom [of s] by (metis domIff)

lemma exact_touch:
  assumes hex: "lower_hex_codec hex_encode" and ex: "exact hex_encode [] k" and key: "blob_key hex_encode (disk_files k) d z"
  shows "exact hex_encode [] (touch_lru d z k)"
proof -
  have u: "lru_unique (disk_lru k)" using ex by (simp add: exact_def)
  have "lru_unique (touch d z (disk_lru k))"
  proof (rule lru_unique_touch [OF u])
    fix e assume "positions (disk_lru k) e \<noteq> None" "hash e = hash d"
    then obtain y where "sizes (disk_lru k) e = Some y" using tracked_iff_sized [OF lru_unique_inv [OF u]] by auto
    then have "blob_key hex_encode (disk_files k) e y" using exact_key [OF ex] by simp
    then show "e = d" using blob_key_inj [OF hex _ key] \<open>hash e = hash d\<close> by blast
  qed
  moreover have "sizes (disk_lru k) d = Some z" using exact_key [OF ex] key by simp
  then have "sizes (touch d z (disk_lru k)) = sizes (disk_lru k)" by (simp add: fun_upd_idem)
  ultimately show ?thesis using ex by (simp add: exact_def touch_lru_def)
qed

abbreviation no_fault :: "fs_call \<Rightarrow> bool" where
  "no_fault \<equiv> \<lambda>_. False"

section \<open>Eviction\<close>

lemma exact_evict_start:
  assumes ex: "exact hex_encode [] k" and ev: "evict n (disk_lru k) = (rs, lru)"
  shows "exact hex_encode rs (k\<lparr>disk_lru := lru\<rparr>)"
proof -
  let ?s = "disk_lru k"
  have u: "lru_unique ?s" "lru_unique lru"
    using ex lru_unique_evict [of ?s n] ev by (simp_all add: exact_def)
  note inv = lru_unique_inv [OF u(1)] and inv' = lru_unique_inv [OF u(2)]
  note sp = evict_spec [OF inv ev]
  have rec: "recency ?s = map fst rs @ recency lru" "distinct (map fst rs @ recency lru)"
    using sp lru_inv_recency_distinct [OF inv] by auto
  have dom: "sizes ?s d \<noteq> None \<longleftrightarrow> d \<in> set (recency ?s)" "sizes lru d \<noteq> None \<longleftrightarrow> d \<in> set (recency lru)" for d
    using set_recency [OF inv] set_recency [OF inv'] tracked_iff_sized [OF inv, of d] tracked_iff_sized [OF inv', of d]
    by auto
  have "sizes lru d = Some z \<or> (d, z) \<in> set rs \<longleftrightarrow> sizes ?s d = Some z" for d z
  proof (cases "d \<in> set (recency lru)")
    case True
    then have "sizes lru d = sizes ?s d" "d \<notin> fst ` set rs" using sp rec(2) by auto
    then show ?thesis by force
  next
    case False
    then have n: "sizes lru d = None" using dom(2) by blast
    show ?thesis
    proof (cases "d \<in> fst ` set rs")
      case True
      then obtain y where y: "(d, y) \<in> set rs" "sizes ?s d = Some y" using sp by fastforce
      moreover have "(d, z) \<in> set rs \<Longrightarrow> sizes ?s d = Some z" using sp by fastforce
      ultimately show ?thesis using n by auto
    next
      case out: False
      then have "sizes ?s d = None" using dom(1) [of d] rec(1) False by simp
      then show ?thesis using n out by force
    qed
  qed
  moreover have "sizes lru d = None" if "d \<in> fst ` set rs" for d using that dom(2) [of d] rec(2) by auto
  ultimately show ?thesis using ex u(2) rec(2) by (simp add: exact_def)
qed

lemma exact_evict_one:
  assumes hex: "lower_hex_codec hex_encode" and ex: "exact hex_encode (v # V) k"
  shows "exact hex_encode V (evict_one no_fault hex_encode v k) \<and>
    blob_total (disk_files k) = blob_total (disk_files (evict_one no_fault hex_encode v k)) + snd v \<and>
    max_size (evict_one no_fault hex_encode v k) = max_size k \<and> disk_lru (evict_one no_fault hex_encode v k) = disk_lru k"
proof -
  obtain d z where v: "v = (d, z)" by (cases v)
  let ?p = "entry_path hex_encode d" and ?t = "disk_files k"
  have key: "blob_key hex_encode ?t d z" using ex by (auto simp: exact_def v)
  then obtain f where f: "map_of ?t ?p = Some f" "z = file_len f" "length (hash d) = 32" by (auto simp: blob_key_def)
  have t: "tree_ok hex_encode ?t" using ex by (simp add: exact_def)
  note del = blob_delete [OF is_entry_path [OF hex f(3)] _ f(1)]
  have tot: "blob_total ?t = blob_total (AList.delete ?p ?t) + z" "blob_count ?t = blob_count (AList.delete ?p ?t) + 1"
    using del t f(2) by (auto simp: tree_ok_def)
  have e: "evict_one no_fault hex_encode v k = k\<lparr>disk_files := AList.delete ?p ?t,
      current_size := current_size k - of_nat z, current_entries := current_entries k - 1\<rparr>"
    using f(1) by (simp add: evict_one_def v blob_path_def Let_def)
  have keys: "blob_key hex_encode (AList.delete ?p ?t) e y \<longleftrightarrow> blob_key hex_encode ?t e y \<and> e \<noteq> d" for e y
  proof (cases "hash e = hash d")
    case True
    then have "entry_path hex_encode e = ?p" by (simp add: entry_path_def hash_to_string_def)
    moreover have "blob_key hex_encode ?t e y \<Longrightarrow> e = d" using blob_key_inj [OF hex _ key True] by blast
    ultimately show ?thesis by (auto simp: blob_key_def map_of_delete)
  next
    case False
    then have "entry_path hex_encode e \<noteq> ?p" if "length (hash e) = 32" using entry_path_inject [OF hex that f(3)] by simp
    then show ?thesis using False by (auto simp: blob_key_def map_of_delete)
  qed
  have "(sizes (disk_lru k) e = Some y \<or> (e, y) \<in> set V) \<longleftrightarrow> blob_key hex_encode (AList.delete ?p ?t) e y" for e y
  proof (cases "e = d")
    case True
    then show ?thesis using ex keys [of e y] by (force simp: exact_def v)
  next
    case False
    then show ?thesis using ex keys [of e y] by (auto simp: exact_def v)
  qed
  then have "exact hex_encode V (evict_one no_fault hex_encode v k)"
    unfolding e using ex tot by (simp add: exact_def tree_ok_delete v)
  then show ?thesis unfolding e using tot(1) by (simp add: v)
qed

lemma exact_evict_fold:
  "lower_hex_codec hex_encode \<Longrightarrow> exact hex_encode V k \<Longrightarrow>
   exact hex_encode [] (fold (evict_one no_fault hex_encode) V k) \<and>
   blob_total (disk_files k) = blob_total (disk_files (fold (evict_one no_fault hex_encode) V k)) + sum_list (map snd V) \<and>
   max_size (fold (evict_one no_fault hex_encode) V k) = max_size k \<and>
   disk_lru (fold (evict_one no_fault hex_encode) V k) = disk_lru k"
proof (induction V arbitrary: k)
  case (Cons v V)
  note one = exact_evict_one [OF Cons.prems]
  from Cons.IH [OF Cons.prems(1), of "evict_one no_fault hex_encode v k"] one show ?case by simp
qed simp

text \<open>Without tracked digests there are no blobs.\<close>

lemma exact_empty:
  assumes "lower_hex_codec hex_encode" "exact hex_encode [] k" "recency (disk_lru k) = []"
  shows "blob_total (disk_files k) = 0"
proof -
  have "sizes (disk_lru k) d = None" for d
    using assms set_recency [of "disk_lru k"] tracked_iff_sized [of "disk_lru k" d]
    by (auto simp: exact_def lru_unique_inv)
  then have none: "\<not> blob_key hex_encode (disk_files k) d z" for d z using exact_key [OF assms(2), of d z] by simp
  have "filter (is_entry \<circ> fst) (disk_files k) = []"
  proof (rule ccontr)
    assume "filter (is_entry \<circ> fst) (disk_files k) \<noteq> []"
    then obtain q f where qf: "(q, f) \<in> set (disk_files k)" "is_entry q" by (fastforce simp: filter_empty_conv)
    then obtain d where d: "length (hash d) = 32" "q = entry_path hex_encode d" "distinct (map fst (disk_files k))"
      using assms(2) by (auto simp: exact_def tree_ok_def)
    let ?d = "\<lparr>hash = hash d, dsize = int (file_len f)\<rparr>"
    have "map_of (disk_files k) (entry_path hex_encode ?d) = Some f"
      using qf d by (simp add: map_of_Some_iff entry_path_def hash_to_string_def)
    then show False using none [of ?d "file_len f"] d(1) by (simp add: blob_key_def)
  qed
  then show ?thesis by (simp add: blob_total_def)
qed

lemma unat_of_nat_u64: "n < 2 ^ 64 \<Longrightarrow> unat (of_nat n :: u64) = n"
  by (simp add: unat_of_nat take_bit_nat_eq_self)

section \<open>Storing a blob\<close>

definition store_blob :: "(bytes \<Rightarrow> string) \<Rightarrow> digest_info \<Rightarrow> file_node \<Rightarrow> disk \<Rightarrow> disk" where
  "store_blob hex_encode d f k =
     touch_lru d (file_len f) (k\<lparr>disk_files := AList.update (entry_path hex_encode d) f (disk_files k),
       current_size := current_size k + of_nat (file_len f), current_entries := current_entries k + 1\<rparr>)"

lemma exact_store:
  assumes hex: "lower_hex_codec hex_encode" and ex: "exact hex_encode [] k" and d: "length (hash d) = 32"
    and none: "map_of (disk_files k) (entry_path hex_encode d) = None"
    and f: "dsize d = int (file_len f)" "file_len f < 2 ^ 63"
  shows "exact hex_encode [] (store_blob hex_encode d f k)"
proof -
  let ?t = "disk_files k" and ?p = "entry_path hex_encode d"
  let ?t' = "AList.update ?p f ?t"
  have no_key: "\<not> blob_key hex_encode ?t e y" if "hash e = hash d" for e y
    using none that by (auto simp: blob_key_def entry_path_def hash_to_string_def)
  have keys: "blob_key hex_encode ?t' e y \<longleftrightarrow> (if e = d then y = file_len f else blob_key hex_encode ?t e y)" for e y
  proof (cases "hash e = hash d")
    case True
    then have "entry_path hex_encode e = ?p" by (simp add: entry_path_def hash_to_string_def)
    then have "blob_key hex_encode ?t' e y \<longleftrightarrow> y = file_len f \<and> dsize e = dsize d"
      using True d f(1) by (auto simp: blob_key_def map_of_update)
    then show ?thesis using True no_key [OF True] by (auto simp: digest_info.equality)
  next
    case False
    then have "entry_path hex_encode e \<noteq> ?p" if "length (hash e) = 32" using entry_path_inject [OF hex that d] by simp
    then show ?thesis using False by (auto simp: blob_key_def map_of_update)
  qed
  have u: "lru_unique (disk_lru k)" using ex by (simp add: exact_def)
  have "lru_unique (touch d (file_len f) (disk_lru k))"
  proof (rule lru_unique_touch [OF u])
    fix e assume "positions (disk_lru k) e \<noteq> None" "hash e = hash d"
    then show "e = d"
      using tracked_iff_sized [OF lru_unique_inv [OF u], of e] exact_key [OF ex, of e] no_key [of e] by auto
  qed
  moreover have "tree_ok hex_encode ?t'"
    by (rule tree_ok_update) (use ex d f(2) in \<open>auto simp: exact_def\<close>)
  moreover have "(sizes (touch d (file_len f) (disk_lru k)) e = Some y) = blob_key hex_encode ?t' e y" for e y
    using exact_key [OF ex, of e y] keys [of e y] by auto
  ultimately show ?thesis
    using ex blob_update_fresh [OF is_entry_path [OF hex d] none, of f]
    by (simp add: exact_def store_blob_def touch_lru_def)
qed

lemma recency_store: "lru_unique (disk_lru k) \<Longrightarrow> \<exists>xs. recency (disk_lru (store_blob hex_encode d f k)) = xs @ [d]"
  by (simp add: store_blob_def touch_lru_def recency_touch lru_unique_inv)

lemma exact_evict:
  assumes hex: "lower_hex_codec hex_encode" and ex: "exact hex_encode [] k"
    and newest: "recency (disk_lru k) = xs @ [d]" and key: "blob_key hex_encode (disk_files k) d z"
    and fits: "max_size k > 0 \<Longrightarrow> z \<le> unat (max_size k)" and cap: "blob_total (disk_files k) < 2 ^ 64"
  defines "k' \<equiv> evict_if_needed no_fault hex_encode k"
  shows "exact hex_encode [] k' \<and> blob_key hex_encode (disk_files k') d z \<and> max_size k' = max_size k \<and>
    (max_size k > 0 \<longrightarrow> unat (current_size k') \<le> unat (max_size k))"
proof (cases "max_size k = 0 \<or> current_size k \<le> max_size k")
  case True
  then have "k' = k" by (simp add: k'_def evict_if_needed_def)
  then show ?thesis using ex key True by (auto simp: word_le_nat_alt)
next
  case False
  have cur: "unat (current_size k) = blob_total (disk_files k)"
    using ex cap by (simp add: exact_def unat_of_nat_u64)
  let ?n = "unat (current_size k - max_size k)"
  have n: "?n = blob_total (disk_files k) - unat (max_size k)" "unat (max_size k) < blob_total (disk_files k)"
    using False cur by (simp_all add: unat_sub word_le_nat_alt not_le)
  obtain rs lru where ev: "evict ?n (disk_lru k) = (rs, lru)" by fastforce
  have k': "k' = fold (evict_one no_fault hex_encode) rs (k\<lparr>disk_lru := lru\<rparr>)"
    using False ev by (simp add: k'_def evict_if_needed_def)
  have fold: "exact hex_encode [] k'" "blob_total (disk_files k) = blob_total (disk_files k') + sum_list (map snd rs)"
    "max_size k' = max_size k" "disk_lru k' = lru"
    using exact_evict_fold [OF hex exact_evict_start [OF ex ev]] by (simp_all add: k')
  have inv: "lru_inv (disk_lru k)" using ex by (simp add: exact_def lru_unique_inv)
  note sp = evict_spec [OF inv ev]
  have size: "unat (current_size k') = blob_total (disk_files k')"
    using fold(1,2) cap by (simp add: exact_def unat_of_nat_u64)
  have budget: "blob_total (disk_files k') \<le> unat (max_size k)"
  proof (cases "?n \<le> sum_list (map snd rs)")
    case False
    then have "recency lru = []" using sp by auto
    then show ?thesis using exact_empty [OF hex fold(1)] fold(4) by simp
  qed (use n fold(2) in arith)
  have "recency lru \<noteq> []"
  proof
    assume "recency lru = []"
    then have all: "map fst rs = xs @ [d]" "blob_total (disk_files k') = 0"
      using sp newest exact_empty [OF hex fold(1)] fold(4) by auto
    then obtain rs' y where rs: "rs = rs' @ [(d, y)]"
      by (metis append_butlast_last_id last_map last_snoc list.map_disc_iff prod.collapse snoc_eq_iff_butlast)
    have "sizes (disk_lru k) d = Some y" using sp rs by auto
    then have "y = z" using exact_key [OF ex, of d z] key by simp
    moreover have "sum_list (map snd rs') < ?n" using sp rs by auto
    ultimately show False using fold(2) all(2) n fits False rs by (auto simp: word_gt_0)
  qed
  then have d: "d \<in> set (recency lru)" using sp newest by (metis last_appendR last_in_set last_snoc)
  then have "sizes lru d = Some z" using sp exact_key [OF ex, of d z] key by simp
  then have "blob_key hex_encode (disk_files k') d z" using exact_key [OF fold(1)] fold(4) by simp
  then show ?thesis using fold(1,3) budget size by simp
qed

lemma account_stored_store:
  "file_len f = n \<Longrightarrow>
   account_stored no_fault hex_encode d n
     (unlink_staged no_fault uuid (k\<lparr>disk_files := AList.update (blob_path hex_encode d) f (disk_files k)\<rparr>))
   = evict_if_needed no_fault hex_encode (unlink_staged no_fault uuid (store_blob hex_encode d f k))"
  by (cases k) (simp add: account_stored_def unlink_staged_def store_blob_def touch_lru_def blob_path_def)

lemma evict_fold_files:
  "map_of (disk_files (fold (evict_one io hex_encode) V k)) p = Some f \<Longrightarrow> map_of (disk_files k) p = Some f"
proof (induction V arbitrary: k)
  case (Cons v V)
  then have "map_of (disk_files (evict_one io hex_encode v k)) p = Some f" by simp
  then show ?case by (auto simp: evict_one_def Let_def map_of_delete split: prod.splits if_splits)
qed simp

lemma evict_files: "map_of (disk_files (evict_if_needed io hex_encode k)) p = Some f \<Longrightarrow> map_of (disk_files k) p = Some f"
  by (auto simp: evict_if_needed_def split_beta dest: evict_fold_files split: if_splits)

lemma evict_total_le:
  assumes hex: "lower_hex_codec hex_encode" and ex: "exact hex_encode [] k"
  shows "blob_total (disk_files (evict_if_needed no_fault hex_encode k)) \<le> blob_total (disk_files k)"
proof (cases "evict (unat (current_size k - max_size k)) (disk_lru k)")
  case (Pair rs lru)
  show ?thesis
    using exact_evict_fold [OF hex exact_evict_start [OF ex Pair]] by (simp add: evict_if_needed_def Pair)
qed

lemma publish_new:
  assumes hex: "lower_hex_codec hex_encode" and ex: "exact hex_encode [] k" and d: "length (hash d) = 32"
    and none: "map_of (disk_files k) (entry_path hex_encode d) = None"
    and len: "dsize d = int (length data)" "length data < 2 ^ 63"
    and fits: "max_size k > 0 \<Longrightarrow> length data \<le> unat (max_size k)"
    and cap: "blob_total (disk_files k) + length data < 2 ^ 64"
    and r: "publish_staged no_fault hex_encode uuid d (length data) (stage_file uuid data now k) = (r, k')"
  shows "r = Inr () \<and> exact hex_encode [] k' \<and> max_size k' = max_size k \<and>
    map_of (disk_files k') (entry_path hex_encode d) = Some \<lparr>content = data, mtime = now\<rparr> \<and>
    (max_size k > 0 \<longrightarrow> unat (current_size k') \<le> unat (max_size k)) \<and>
    blob_total (disk_files k') \<le> blob_total (disk_files k) + length data"
proof -
  let ?f = "\<lparr>content = data, mtime = now\<rparr>" and ?k = "stage_file uuid data now k"
  have exs: "exact hex_encode [] ?k" by (rule exact_staging(1) [OF hex ex])
  have ne: "entry_path hex_encode d \<noteq> staging_path uuid" by (rule entry_path_not_staging [OF hex d])
  have nos: "map_of (disk_files ?k) (entry_path hex_encode d) = None"
    using none ne by (simp add: stage_file_def map_of_update)
  have fl: "file_len ?f = length data" by (simp add: file_len_def)
  let ?s = "store_blob hex_encode d ?f ?k"
  have st: "exact hex_encode [] ?s"
    by (rule exact_store [OF hex exs d nos]) (use len in \<open>simp_all add: fl\<close>)
  let ?u = "unlink_staged no_fault uuid ?s"
  have k': "r = Inr ()" "k' = evict_if_needed no_fault hex_encode ?u"
    using r nos account_stored_store [OF fl, of hex_encode d uuid ?k]
    by (simp_all add: publish_staged_def publish_def blob_path_def Let_def)
  have exu: "exact hex_encode [] ?u" by (rule exact_staging(2) [OF hex st])
  obtain xs where "recency (disk_lru ?s) = xs @ [d]"
    using recency_store [of ?k hex_encode d ?f] exs by (auto simp: exact_def)
  then have rec: "recency (disk_lru ?u) = xs @ [d]" by (simp add: unlink_staged_def)
  have files: "map_of (disk_files ?u) (entry_path hex_encode d) = Some ?f"
    using ne by (simp add: unlink_staged_def store_blob_def map_of_delete map_of_update)
  then have key: "blob_key hex_encode (disk_files ?u) d (length data)"
    using d len(1) by (simp add: blob_key_def fl)
  have tot: "blob_total (disk_files ?u) = blob_total (disk_files k) + length data"
    using blob_update_fresh [OF is_entry_path [OF hex d] nos, of ?f] blob_update_other [OF is_entry_staging, of uuid]
      blob_delete_other [OF is_entry_staging, of uuid]
    by (simp add: unlink_staged_def store_blob_def stage_file_def fl)
  have mx: "max_size ?u = max_size k" by (simp add: unlink_staged_def store_blob_def stage_file_def touch_lru_def)
  have ev: "exact hex_encode [] k' \<and> blob_key hex_encode (disk_files k') d (length data) \<and> max_size k' = max_size ?u \<and>
      (max_size ?u > 0 \<longrightarrow> unat (current_size k') \<le> unat (max_size ?u))"
    unfolding k'(2) by (rule exact_evict [OF hex exu rec key]) (use fits cap tot mx in simp_all)
  then obtain g where "map_of (disk_files k') (entry_path hex_encode d) = Some g" by (auto simp: blob_key_def)
  moreover have "blob_total (disk_files k') \<le> blob_total (disk_files k) + length data"
    using evict_total_le [OF hex exu] tot k'(2) by simp
  ultimately show ?thesis using evict_files [of no_fault hex_encode ?u] files ev mx k' by fastforce
qed

lemma ensure_fits_Inr: "ensure_fits n k = Inr u \<longleftrightarrow> (max_size k > 0 \<longrightarrow> n \<le> unat (max_size k))"
  by (auto simp: ensure_fits_def)

lemma disk_contains_absent:
  "map_of (disk_files k) (entry_path hex_encode d) = None \<Longrightarrow> disk_contains no_fault hex_encode now d k = (Inr False, k)"
  by (simp add: disk_contains_def blob_path_def)

lemma disk_read_key:
  assumes "lower_hex_codec hex_encode"
    and "map_of (disk_files k) (entry_path hex_encode d) = Some f" "sha256 (content f) = hash d"
  shows "fst (disk_read no_fault hex_encode sha256 d k) = Inr (Some (content f))"
proof -
  have "verify_digest hex_encode sha256 (content f) d = Inr ()" using assms(3) by (simp add: verify_digest_Inr [OF assms(1)])
  then show ?thesis using assms(2) by (simp add: disk_read_def blob_path_def)
qed

section \<open>Accounting the files found on disk\<close>

lemma restore_loop_tracked:
  "\<forall>(d, _) \<in> set es. hash_index s (hash d) \<noteq> None \<Longrightarrow> restore_loop es nf tot s = (tot, s)"
  by (induction es arbitrary: nf) (auto simp: insert_at_def Let_def)

lemma restore_loop_sizes:
  assumes "restore_loop es nf tot s = (tot', s')" "distinct (map (\<lambda>x. hash (fst x)) es)" "lru_unique s"
  shows "sizes s' d = Some z \<longleftrightarrow> sizes s d = Some z \<or> hash_index s (hash d) = None \<and> (\<exists>st. (d, z, st) \<in> set es)"
  using assms
proof (induction es arbitrary: nf tot s)
  case (Cons x es)
  obtain e y st where x: "x = (e, y, st)" by (cases x)
  show ?case
  proof (cases "hash_index s (hash e)")
    case (Some a)
    then have "restore_loop es nf tot s = (tot', s')" using Cons.prems(1) by (simp add: x insert_at_def)
    from Cons.IH [OF this] Cons.prems Some show ?thesis by (auto simp: x)
  next
    case None
    define s1 where "s1 = snd (insert_at e y (max st nf) s)"
    have s1: "sizes s1 = (sizes s)(e \<mapsto> y)" "hash_index s1 = (hash_index s)(hash e \<mapsto> e)" "lru_unique s1"
      using lru_unique_insert_at [OF Cons.prems(3)] by (simp_all add: s1_def) (simp_all add: insert_at_def None Let_def track_def)
    have "restore_loop es (max st nf + 1) \<lparr>rt_entries = rt_entries tot + 1, rt_bytes = rt_bytes tot + y\<rparr> s1 = (tot', s')"
      using Cons.prems(1) None by (simp add: x s1_def insert_at_def Let_def)
    from Cons.IH [OF this _ s1(3)] Cons.prems(2)
    have IH: "sizes s' d = Some z \<longleftrightarrow> sizes s1 d = Some z \<or> hash_index s1 (hash d) = None \<and> (\<exists>st. (d, z, st) \<in> set es)"
      by (simp add: x)
    have "sizes s e = None"
      using None Cons.prems(3) tracked_iff_sized [OF lru_unique_inv [OF Cons.prems(3)], of e]
      unfolding lru_unique_def by (metis option.distinct(1))
    moreover have "hash d = hash e \<Longrightarrow> (d, z, u) \<notin> set es" for u
      using Cons.prems(2) by (force simp: x)
    ultimately show ?thesis using IH None by (auto simp: s1 x)
  qed
qed simp

lemma signed64_small: "n < 2 ^ 63 \<Longrightarrow> signed64 n = int n"
proof -
  assume n: "n < 2 ^ 63"
  then have "unat (of_nat n :: u64) = n" by (intro unat_of_nat_u64) simp
  then have "uint (of_nat n :: u64) = int n" by (metis of_nat_unat uint_nat)
  then show ?thesis using n by (simp add: signed64_def sint_uint signed_take_bit_int_eq_self)
qed

definition path_hash :: "path \<Rightarrow> bytes" where
  "path_hash q = hash (the (digest_from_path q))"

lemma path_hash_entry: "lower_hex_codec hex_encode \<Longrightarrow> length (hash d) = 32 \<Longrightarrow> path_hash (entry_path hex_encode d) = hash d"
  by (simp add: path_hash_def entry_path_digest)

lemma scan_entries:
  assumes "tree_ok hex_encode t"
  shows "map warm_up_entry (listing t) =
    map (\<lambda>(q, f). (\<lparr>hash = path_hash q, dsize = int (file_len f)\<rparr>, file_len f, mtime f)) (filter (is_entry \<circ> fst) t)"
  using assms
proof (induction t)
  case (Cons x t)
  obtain q f where x: "x = (q, f)" by (cases x)
  have "tree_ok hex_encode t" using Cons.prems by (auto simp: tree_ok_def)
  note IH = Cons.IH [OF this]
  show ?case
  proof (cases "is_entry q")
    case True
    then obtain d where "digest_from_path q = Some d" "\<not> list_ex hidden_name q" by (auto simp: is_entry_def)
    moreover have "file_len f < 2 ^ 63" using Cons.prems True by (auto simp: tree_ok_def x)
    ultimately show ?thesis
      using IH True signed64_small [of "file_len f"]
      by (simp add: x listing_def List.map_filter_simps scan_entry_def warm_up_entry_def path_hash_def)
  qed (use IH in \<open>auto simp: x listing_def List.map_filter_simps scan_entry_def is_entry_def\<close>)
qed (simp add: listing_def List.map_filter_simps)

lemma scan_keys:
  assumes hex: "lower_hex_codec hex_encode" and t: "tree_ok hex_encode t"
  shows "(\<exists>st. (d, z, st) \<in> set (map warm_up_entry (listing t))) \<longleftrightarrow> blob_key hex_encode t d z"
    "distinct (map (\<lambda>x. hash (fst x)) (map warm_up_entry (listing t)))"
proof -
  let ?e = "filter (is_entry \<circ> fst) t"
  note scan = scan_entries [OF t]
  have path: "q = entry_path hex_encode d \<and> length (path_hash q) = 32" if "(q, f) \<in> set t" "is_entry q" "path_hash q = hash d" for q f d
  proof -
    obtain e where e: "length (hash e) = 32" "q = entry_path hex_encode e" using t \<open>(q, f) \<in> set t\<close> \<open>is_entry q\<close> by (auto simp: tree_ok_def)
    then have "path_hash q = hash e" by (simp add: path_hash_entry [OF hex])
    then show ?thesis using e that(3) by (simp add: entry_path_def hash_to_string_def)
  qed
  have dt: "distinct (map fst t)" using t by (simp add: tree_ok_def)
  note hp = path_hash_entry [OF hex]
  show "(\<exists>st. (d, z, st) \<in> set (map warm_up_entry (listing t))) \<longleftrightarrow> blob_key hex_encode t d z"
  proof
    assume "\<exists>st. (d, z, st) \<in> set (map warm_up_entry (listing t))"
    then obtain q f where qf: "(q, f) \<in> set t" "is_entry q" "d = \<lparr>hash = path_hash q, dsize = int (file_len f)\<rparr>" "z = file_len f"
      unfolding scan by auto
    then have "q = entry_path hex_encode d" "length (hash d) = 32" using path [OF qf(1,2), of d] by simp_all
    then show "blob_key hex_encode t d z" using qf dt by (auto simp: blob_key_def map_of_Some_iff)
  next
    assume "blob_key hex_encode t d z"
    then obtain f where f: "length (hash d) = 32" "map_of t (entry_path hex_encode d) = Some f" "z = file_len f" "dsize d = int z"
      by (auto simp: blob_key_def)
    then have "(entry_path hex_encode d, f) \<in> set ?e" using is_entry_path [OF hex f(1)] by (simp add: map_of_SomeD)
    moreover have "(d, z, mtime f) = (\<lparr>hash = path_hash (entry_path hex_encode d), dsize = int (file_len f)\<rparr>, file_len f, mtime f)"
      using f by (simp add: hp digest_info.equality)
    ultimately show "\<exists>st. (d, z, st) \<in> set (map warm_up_entry (listing t))" unfolding scan by force
  qed
  have "inj_on path_hash (set (map fst ?e))"
  proof (rule inj_onI)
    fix p q assume "p \<in> set (map fst ?e)" "q \<in> set (map fst ?e)" "path_hash p = path_hash q"
    then obtain f g where "(p, f) \<in> set t" "is_entry p" "(q, g) \<in> set t" "is_entry q" "path_hash p = path_hash q" by auto
    then show "p = q" using path [of p f "\<lparr>hash = path_hash q, dsize = 0\<rparr>"] path [of q g "\<lparr>hash = path_hash q, dsize = 0\<rparr>"] by simp
  qed
  then have "distinct (map path_hash (map fst ?e))"
    by (rule distinct_map [THEN iffD2, OF conjI, OF distinct_map_fst_filter [OF dt]])
  moreover have "map (\<lambda>x. hash (fst x)) (map warm_up_entry (listing t)) = map path_hash (map fst ?e)"
    unfolding scan by (simp add: case_prod_unfold comp_def)
  ultimately show "distinct (map (\<lambda>x. hash (fst x)) (map warm_up_entry (listing t)))" by simp
qed

lemma sweep_blobs:
  assumes "tree_ok hex_encode t"
  shows "tree_ok hex_encode (sweep_staging_logged io now t)"
    "blob_total (sweep_staging_logged io now t) = blob_total t" "blob_count (sweep_staging_logged io now t) = blob_count t"
    "lower_hex_codec hex_encode \<Longrightarrow> blob_key hex_encode (sweep_staging_logged io now t) = blob_key hex_encode t"
proof -
  obtain P where P: "sweep_staging_logged io now t = filter P t" "\<And>q f. is_entry q \<Longrightarrow> P (q, f)"
  proof (cases "io ReadStaging")
    case True
    then show thesis by (intro that [of "\<lambda>_. True"]) (simp_all add: sweep_staging_logged_def)
  next
    case False
    have "\<not> stale_staging now age (q, f)" if "is_entry q" for age q f
      using that by (cases q) (auto simp: stale_staging_def is_entry_def STAGING_DIR_def hidden_name_def)
    with False show thesis
      by (intro that [of "\<lambda>p. \<not> (stale_staging now STALE_STAGING_AGE p \<and> \<not> io (Unlink (fst p)))"])
        (simp_all add: sweep_staging_logged_def sweep_staging_def Let_def)
  qed
  show "tree_ok hex_encode (sweep_staging_logged io now t)" using assms by (simp add: P tree_ok_filter)
  show "blob_total (sweep_staging_logged io now t) = blob_total t" "blob_count (sweep_staging_logged io now t) = blob_count t"
    using blob_filter_staging [of t P] P(2) by (simp_all add: P(1))
  have d: "distinct (map fst t)" "distinct (map fst (filter P t))"
    using assms by (simp_all add: tree_ok_def distinct_map_fst_filter)
  have "map_of (filter P t) (entry_path hex_encode e) = map_of t (entry_path hex_encode e)"
    if "lower_hex_codec hex_encode" "length (hash e) = 32" for e
  proof -
    have "map_of (filter P t) (entry_path hex_encode e) = Some f \<longleftrightarrow> map_of t (entry_path hex_encode e) = Some f" for f
      using P(2) [OF is_entry_path [OF that]] d by (simp add: map_of_Some_iff)
    then show ?thesis by (metis option.exhaust)
  qed
  then show "lower_hex_codec hex_encode \<Longrightarrow> blob_key hex_encode (sweep_staging_logged io now t) = blob_key hex_encode t"
    by (auto simp: P(1) blob_key_def fun_eq_iff)
qed

lemma exact_warm_up_new:
  assumes hex: "lower_hex_codec hex_encode" and t: "tree_ok hex_encode files"
  shows "exact hex_encode [] (snd (warm_up no_fault now (disk_with_max_size_bytes files m)))"
proof -
  define t' where "t' = sweep_staging_logged no_fault now files"
  define s where "s = floor_counter now lru_new"
  define es where "es = sort_key (\<lambda>(_, _, st). st) (map warm_up_entry (listing t'))"
  have t': "tree_ok hex_encode t'" using sweep_blobs(1) [OF t] by (simp add: t'_def)
  obtain tot s' where r: "restore_loop es 0 \<lparr>rt_entries = 0, rt_bytes = 0\<rparr> s = (tot, s')" by fastforce
  have mem: "(\<exists>st. (d, z, st) \<in> set es) \<longleftrightarrow> blob_key hex_encode t' d z" for d z
    using scan_keys(1) [OF hex t'] by (simp add: es_def)
  have dist: "distinct (map (\<lambda>x. hash (fst x)) es)"
    using scan_keys(2) [OF hex t'] unfolding es_def
    by (metis (no_types, lifting) distinct_map distinct_sort list.set_map set_sort)
  have srt: "sorted (map (\<lambda>(_, _, st). st) es)" by (simp add: es_def)
  have u: "lru_unique s" "order s = []" "hash_index s = Map.empty" "sizes s = Map.empty"
    using lru_unique_floor [OF lru_unique_new, of now] by (simp_all add: s_def) (simp_all add: floor_counter_def lru_new_def)
  have sp: "rt_entries tot = length es" "rt_bytes tot = sum_list (map (\<lambda>x. fst (snd x)) es)" "lru_unique s'"
    using restore_loop_spec [OF u(1), of "[]" "[]" 0 es "\<lparr>rt_entries = 0, rt_bytes = 0\<rparr>" tot s'] dist r srt
    by (simp_all add: u slots_below_def)
  have szs: "sizes s' d = Some z \<longleftrightarrow> blob_key hex_encode t' d z" for d z
    using restore_loop_sizes [OF r dist u(1), of d z] mem [of d z] by (simp add: u)
  have perm: "mset es = mset (map warm_up_entry (listing t'))" by (simp add: es_def)
  have "sum_list (map (\<lambda>x. fst (snd x)) es) = sum_list (map (\<lambda>x. fst (snd x)) (map warm_up_entry (listing t')))"
    unfolding sum_mset_sum_list [symmetric] by (simp only: perm mset_map [of "\<lambda>x. fst (snd x)"])
  also have "map (\<lambda>x. fst (snd x)) (map warm_up_entry (listing t')) = map file_size (listing t')"
    by (simp add: warm_up_entry_def)
  finally have "rt_bytes tot = blob_total t'" using sp(2) scan_totals [of t'] by (simp only:)
  moreover have "rt_entries tot = blob_count t'" using sp(1) scan_totals [of t'] by (simp add: es_def)
  moreover have "snd (warm_up no_fault now (disk_with_max_size_bytes files m)) = (disk_with_max_size_bytes files m)
      \<lparr>disk_files := t', disk_lru := s', current_size := of_nat (rt_bytes tot),
       current_entries := of_nat (rt_entries tot), ready := True\<rparr>"
    using r by (simp add: warm_up_def disk_with_max_size_bytes_def t'_def s_def es_def restore_recency_def Let_def)
  ultimately show ?thesis using t' sp(3) szs by (simp add: exact_def)
qed

lemma exact_warm_up:
  assumes hex: "lower_hex_codec hex_encode" and ex: "exact hex_encode [] k"
  shows "exact hex_encode [] (snd (warm_up io now k))"
proof -
  define t' where "t' = sweep_staging_logged io now (disk_files k)"
  define s where "s = floor_counter now (disk_lru k)"
  have t: "tree_ok hex_encode (disk_files k)" using ex by (simp add: exact_def)
  note sw = sweep_blobs [OF t, of io now, folded t'_def]
  have u: "lru_unique s" "hash_index s = hash_index (disk_lru k)" "sizes s = sizes (disk_lru k)"
    using ex lru_unique_floor [of "disk_lru k" now] by (simp_all add: exact_def s_def) (simp_all add: floor_counter_def)
  have "hash_index s (hash d) \<noteq> None" if "(d, z, st) \<in> set (map warm_up_entry (listing t'))" for d z st
  proof -
    have "blob_key hex_encode t' d z" using scan_keys(1) [OF hex sw(1), of d z] that by blast
    then have "sizes (disk_lru k) d = Some z" using exact_key [OF ex, of d z] sw(4) [OF hex] by simp
    then have "positions (disk_lru k) d \<noteq> None"
      using ex tracked_iff_sized [of "disk_lru k" d] by (simp add: exact_def lru_unique_inv)
    then show ?thesis using ex u(2) unfolding exact_def lru_unique_def by (metis option.distinct(1))
  qed
  then have tracked: "\<forall>(d, _) \<in> set (sort_key (\<lambda>(_, _, st). st) (map warm_up_entry es)). hash_index s (hash d) \<noteq> None"
    if "set es \<subseteq> set (listing t')" for es
    using that image_mono [OF that, of warm_up_entry] unfolding set_sort set_map by fast
  have "restore_recency (map warm_up_entry es) s = (\<lparr>rt_entries = 0, rt_bytes = 0\<rparr>, s)"
    if "walk_store io t' = Some es" for es
    unfolding restore_recency_def by (rule restore_loop_tracked [OF tracked [OF walk_store_found [OF that]]])
  then have "snd (warm_up io now k) = (if walk_store io t' = None then k\<lparr>disk_files := t', disk_lru := s\<rparr>
      else k\<lparr>disk_files := t', disk_lru := s, ready := True\<rparr>)"
    by (cases k) (auto simp: warm_up_def t'_def s_def Let_def split: option.split)
  then show ?thesis using ex u sw(1-3) sw(4) [OF hex] by (simp add: exact_def)
qed

section \<open>Every operation keeps the accounts\<close>

lemma declared_size_iff:
  assumes "digest_wf d" "n < 2 ^ 63"
  shows "int n = uint (word_of_int (dsize d) :: u64) \<longleftrightarrow> dsize d = int n"
proof -
  have "uint (word_of_int (dsize d) :: u64) = dsize d mod 2 ^ 64" by (simp add: uint_word_of_int)
  moreover have "dsize d mod 2 ^ 64 = (if 0 \<le> dsize d then dsize d else dsize d + 2 ^ 64)"
  proof (cases "0 \<le> dsize d")
    case False
    then have "(dsize d + 2 ^ 64) mod 2 ^ 64 = dsize d + 2 ^ 64"
      using assms(1) by (intro mod_pos_pos_trivial) (simp_all add: digest_wf_def)
    with False show ?thesis by simp
  qed (use assms(1) in \<open>simp add: digest_wf_def mod_pos_pos_trivial\<close>)
  ultimately show ?thesis using assms by (auto simp: digest_wf_def)
qed

lemma tree_ok_len:
  assumes "lower_hex_codec hex_encode" "tree_ok hex_encode t" "length (hash d) = 32" "map_of t (entry_path hex_encode d) = Some f"
  shows "file_len f < 2 ^ 63"
  using assms is_entry_path [OF assms(1,3)] map_of_SomeD [OF assms(4)] unfolding tree_ok_def by blast

lemma exact_mtime:
  assumes "exact hex_encode [] k" "\<And>f. content (g f) = content f"
  shows "exact hex_encode [] (k\<lparr>disk_files := alist_modify p g (disk_files k)\<rparr>)"
proof -
  have len: "file_len (g f) = file_len f" for f using assms(2) by (simp add: file_len_def)
  have "tree_ok hex_encode (alist_modify p g (disk_files k))"
    using assms(1) by (fastforce simp: exact_def tree_ok_def set_alist_modify len split: if_splits)
  moreover have "blob_key hex_encode (alist_modify p g (disk_files k)) = blob_key hex_encode (disk_files k)"
    by (auto simp: blob_key_def fun_eq_iff len split: if_splits)
  ultimately show ?thesis
    using assms(1) blob_modify [OF assms(2)] by (simp add: exact_def)
qed

lemma exact_contains:
  assumes hex: "lower_hex_codec hex_encode" and ex: "exact hex_encode [] k" and d: "digest_wf d"
  shows "exact hex_encode [] (snd (disk_contains no_fault hex_encode now d k))"
proof (cases "map_of (disk_files k) (entry_path hex_encode d)")
  case (Some f)
  have len: "length (hash d) = 32" "file_len f < 2 ^ 63"
    using d tree_ok_len [OF hex _ _ Some] ex by (auto simp: digest_wf_def exact_def)
  have "exact hex_encode [] (refresh_mtime_if_stale no_fault now p (touch_lru d (file_len f) k))"
    if "dsize d = int (file_len f)" for p
    unfolding refresh_mtime_if_stale_def
    by (rule exact_mtime [OF exact_touch [OF hex ex]]) (use Some that len(1) in \<open>simp_all add: blob_key_def\<close>)
  then show ?thesis
    using Some ex declared_size_iff [OF d len(2)] by (simp add: disk_contains_def blob_path_def)
qed (simp add: disk_contains_absent ex)

lemma exact_remove:
  assumes hex: "lower_hex_codec hex_encode" and ex: "exact hex_encode [] k" and key: "blob_key hex_encode (disk_files k) d z"
  shows "exact hex_encode [] (k\<lparr>disk_files := AList.delete (entry_path hex_encode d) (disk_files k),
    current_size := current_size k - of_nat z, current_entries := current_entries k - 1,
    disk_lru := snd (lru_remove d (disk_lru k))\<rparr>)"
proof -
  let ?s = "snd (lru_remove d (disk_lru k))"
  have u: "lru_unique (disk_lru k)" using ex by (simp add: exact_def)
  have sz: "sizes ?s = (sizes (disk_lru k))(d := None)" using u by (simp add: lru_unique_inv)
  have "blob_key hex_encode (disk_files k) d y \<longleftrightarrow> y = z" for y
    using blob_key_inj [OF hex key, of d y] key by blast
  then have "(sizes ?s e = Some y \<or> (e, y) \<in> set [(d, z)]) \<longleftrightarrow> blob_key hex_encode (disk_files k) e y" for e y
    using exact_key [OF ex, of e y] by (cases "e = d") (simp_all add: sz)
  then have "exact hex_encode [(d, z)] (k\<lparr>disk_lru := ?s\<rparr>)"
    using ex lru_unique_remove [OF u, of d] by (simp add: exact_def sz)
  from exact_evict_one [OF hex this] show ?thesis
    using key by (cases k) (auto simp: evict_one_def blob_path_def Let_def blob_key_def)
qed

text \<open>Digests that declare the length of what is stored, or is to be stored, under them.\<close>

definition honest :: "(bytes \<Rightarrow> string) \<Rightarrow> disk \<Rightarrow> disk_op \<Rightarrow> bool" where
  "honest hex_encode k op \<longleftrightarrow>
     (\<forall>d. op_digest op = Some d \<longrightarrow> digest_wf d \<and> 0 \<le> dsize d \<and>
        (\<forall>f. map_of (disk_files k) (entry_path hex_encode d) = Some f \<longrightarrow> dsize d = int (file_len f)) \<and>
        blob_total (disk_files k) + nat (dsize d) < 2 ^ 64) \<and>
     (\<forall>uuid d data. op = DWrite uuid d data \<longrightarrow> dsize d = int (length data)) \<and>
     (\<forall>d src written. op = DAdopt d src written \<longrightarrow> dsize d = int (file_len src))"

lemma exact_write_present:
  assumes "map_of (disk_files k) (entry_path hex_encode d) = Some f" "dsize d = int (file_len f)" "digest_wf d"
    "lower_hex_codec hex_encode" "exact hex_encode [] k"
  shows "fst (disk_contains no_fault hex_encode now d k) = Inr True"
proof -
  have "file_len f < 2 ^ 63" using assms by (auto intro: tree_ok_len simp: exact_def digest_wf_def)
  from declared_size_iff [OF assms(3) this] show ?thesis
    using assms(1,2) by (simp add: disk_contains_def blob_path_def Let_def)
qed

lemma exact_write:
  assumes hex: "lower_hex_codec hex_encode" and ex: "exact hex_encode [] k"
    and h: "honest hex_encode k (DWrite uuid d data)"
  shows "exact hex_encode [] (snd (disk_write no_fault hex_encode sha256 now uuid d data k))"
proof (cases "map_of (disk_files k) (entry_path hex_encode d)")
  case (Some f)
  then have "fst (disk_contains no_fault hex_encode now d k) = Inr True"
    using exact_write_present [OF Some] h hex ex by (auto simp: honest_def)
  then show ?thesis
    using exact_contains [OF hex ex, of d now] h
    by (cases "disk_contains no_fault hex_encode now d k") (auto simp: disk_write_def honest_def)
next
  case None
  have d: "length (hash d) = 32" "dsize d = int (length data)" "length data < 2 ^ 63"
    "blob_total (disk_files k) + length data < 2 ^ 64"
    using h by (auto simp: honest_def digest_wf_def)
  have "exact hex_encode [] (snd (publish_staged no_fault hex_encode uuid d (length data) (stage_file uuid data now k)))"
    if "ensure_fits (length data) k = Inr ()"
    using publish_new [OF hex ex d(1) None d(2,3) _ d(4) prod.collapse [symmetric]] that
    by (auto simp: ensure_fits_Inr)
  then show ?thesis
    using ex by (simp add: disk_write_def disk_contains_absent [OF None] finish_write_def Let_def split: sum.split)
qed

lemma exact_read:
  assumes hex: "lower_hex_codec hex_encode" and ex: "exact hex_encode [] k"
    and h: "honest hex_encode k op" "op_digest op = Some d"
    and int: "intact hex_encode sha256 (disk_files k)"
  shows "exact hex_encode [] (snd (disk_read no_fault hex_encode sha256 d k))"
    "exact hex_encode [] (snd (disk_read_stream no_fault hex_encode sha256 d off lm k))"
    "exact hex_encode [] (snd (disk_local_path no_fault hex_encode d k))"
    "exact hex_encode [] (snd (disk_delete no_fault hex_encode d k))"
proof -
  have d: "length (hash d) = 32" and sz: "map_of (disk_files k) (entry_path hex_encode d) = Some f \<Longrightarrow> dsize d = int (file_len f)" for f
    using h by (auto simp: honest_def digest_wf_def)
  have key: "blob_key hex_encode (disk_files k) d (file_len f)" if "map_of (disk_files k) (entry_path hex_encode d) = Some f" for f
    using d sz [OF that] that by (simp add: blob_key_def)
  have ver: "verify_digest hex_encode sha256 (content f) d = Inr ()" if "map_of (disk_files k) (entry_path hex_encode d) = Some f" for f
    using int that d by (simp add: verify_digest_Inr [OF hex] intact_def)
  show "exact hex_encode [] (snd (disk_read no_fault hex_encode sha256 d k))"
    using ex ver exact_touch [OF hex ex key]
    by (cases "map_of (disk_files k) (entry_path hex_encode d)") (simp_all add: disk_read_def blob_path_def Let_def)
  show "exact hex_encode [] (snd (disk_read_stream no_fault hex_encode sha256 d off lm k))"
    using ex exact_touch [OF hex ex key]
    by (cases "map_of (disk_files k) (entry_path hex_encode d)") (simp_all add: disk_read_stream_def blob_path_def Let_def)
  show "exact hex_encode [] (snd (disk_local_path no_fault hex_encode d k))"
    using ex exact_touch [OF hex ex key]
    by (cases "map_of (disk_files k) (entry_path hex_encode d)") (simp_all add: disk_local_path_def blob_path_def Let_def)
  show "exact hex_encode [] (snd (disk_delete no_fault hex_encode d k))"
    using ex exact_remove [OF hex ex key]
    by (cases "map_of (disk_files k) (entry_path hex_encode d)") (simp_all add: disk_delete_def blob_path_def Let_def)
qed

lemma exact_evict_any:
  assumes hex: "lower_hex_codec hex_encode" and ex: "exact hex_encode [] k"
  shows "exact hex_encode [] (evict_if_needed no_fault hex_encode k)"
proof (cases "evict (unat (current_size k - max_size k)) (disk_lru k)")
  case (Pair rs lru)
  show ?thesis
    using ex exact_evict_fold [OF hex exact_evict_start [OF ex Pair]] by (simp add: evict_if_needed_def Pair)
qed

lemma exact_write_stream:
  assumes hex: "lower_hex_codec hex_encode" and ex: "exact hex_encode [] k"
    and h: "honest hex_encode k (DWriteStream uuid d stream)"
  shows "exact hex_encode [] (snd (disk_write_stream no_fault hex_encode sha256 now uuid d stream k))"
proof (cases "map_of (disk_files k) (entry_path hex_encode d)")
  case (Some f)
  then have "fst (disk_contains no_fault hex_encode now d k) = Inr True"
    using exact_write_present [OF Some] h hex ex by (auto simp: honest_def)
  then show ?thesis
    using exact_contains [OF hex ex, of d now] h
    by (cases "disk_contains no_fault hex_encode now d k") (auto simp: disk_write_stream_def honest_def)
next
  case None
  obtain failed data where dr: "drain_stream no_fault stream [] = (failed, data)" by fastforce
  let ?k = "stage_file uuid data now k"
  have d: "length (hash d) = 32" "digest_wf d \<and> 0 \<le> dsize d" "blob_total (disk_files k) + nat (dsize d) < 2 ^ 64"
    using h by (auto simp: honest_def digest_wf_def)
  have ab: "exact hex_encode [] (snd (abandon no_fault uuid e ?k))" for e
    using exact_staging(2) [OF hex exact_staging(1) [OF hex ex]] by (simp add: abandon_def)
  have pub: "exact hex_encode [] (snd (publish_staged no_fault hex_encode uuid d (length data) ?k))"
    if c: "check_streamed hex_encode sha256 d data = Inr ()" and "ensure_fits (length data) ?k = Inr ()"
  proof -
    have "int (length data) = uint (word_of_int (dsize d) :: u64)"
      using c by (simp add: check_streamed_def Let_def split: if_splits)
    then have len: "dsize d = int (length data)" "length data < 2 ^ 63"
      using d(2) by (auto simp: digest_wf_def uint_word_of_int)
    then show ?thesis
      using publish_new [OF hex ex d(1) None len _ _ prod.collapse [symmetric]] d(3) that(2)
      by (auto simp: ensure_fits_Inr stage_file_def)
  qed
  show ?thesis
    using ex ab pub by (simp add: disk_write_stream_def disk_contains_absent [OF None] dr finish_write_def Let_def
        split: sum.split option.split)
qed

lemma exact_adopt:
  assumes hex: "lower_hex_codec hex_encode" and ex: "exact hex_encode [] k" and h: "honest hex_encode k (DAdopt d src written)"
  shows "exact hex_encode [] (snd (adopt_link no_fault hex_encode now d src written k))"
proof (cases "map_of (disk_files k) (entry_path hex_encode d)")
  case (Some f)
  have w: "digest_wf d" "dsize d = int (file_len f)" using h Some by (auto simp: honest_def)
  obtain k1 where k1: "disk_contains no_fault hex_encode now d k = (Inr True, k1)"
    using exact_write_present [OF Some w(2,1) hex ex, of now] by (metis prod.collapse)
  have ex1: "exact hex_encode [] k1" using exact_contains [OF hex ex w(1), of now] k1 by simp
  have "disk_lru k1 = touch d (file_len f) (disk_lru k)"
    using k1 Some by (auto simp: disk_contains_def blob_path_def Let_def refresh_mtime_if_stale_def touch_lru_def split: if_splits)
  then have "sizes (disk_lru k1) d = Some (file_len f)" by simp
  then have "blob_key hex_encode (disk_files k1) d (nat (dsize d))" using exact_key [OF ex1] w(2) by simp
  then show ?thesis using exact_touch [OF hex ex1] w(2) k1 by (simp add: adopt_link_def)
next
  case None
  have d: "length (hash d) = 32" "dsize d = int (file_len src)" "file_len src < 2 ^ 63"
    using h by (auto simp: honest_def digest_wf_def)
  have "account_stored no_fault hex_encode d (file_len src) (k\<lparr>disk_files := AList.update (entry_path hex_encode d) src (disk_files k)\<rparr>)
    = evict_if_needed no_fault hex_encode (store_blob hex_encode d src k)"
    by (simp add: account_stored_def store_blob_def)
  then show ?thesis
    using exact_evict_any [OF hex exact_store [OF hex ex d(1) None d(2,3)]] d(2)
    by (simp add: adopt_link_def disk_contains_absent [OF None] None blob_path_def Let_def)
qed

lemma lower_hex_is_codec: "lower_hex_codec lower_hex"
  by (simp add: lower_hex_codec_def)

section \<open>Runs\<close>

text \<open>A backend warmed up over its files, and then used without faults.\<close>

inductive disk_accounted :: "(bytes \<Rightarrow> string) \<Rightarrow> (bytes \<Rightarrow> bytes) \<Rightarrow> disk \<Rightarrow> bool"
  for hex_encode sha256 where
  accounted_start: "tree_ok hex_encode files \<Longrightarrow> intact hex_encode sha256 files \<Longrightarrow>
    disk_accounted hex_encode sha256 (snd (warm_up no_fault now (disk_with_max_size_bytes files max_bytes)))"
| accounted_run: "disk_accounted hex_encode sha256 k \<Longrightarrow> op_fair sha256 op \<Longrightarrow> honest hex_encode k op \<Longrightarrow>
    disk_accounted hex_encode sha256 (disk_step hex_encode sha256 no_fault now op k)"

lemma exact_step:
  assumes hex: "lower_hex_codec hex_encode" and ex: "exact hex_encode [] k"
    and h: "honest hex_encode k op" and int: "intact hex_encode sha256 (disk_files k)"
  shows "exact hex_encode [] (disk_step hex_encode sha256 no_fault now op k)"
proof (cases op)
  case (DContains d)
  then show ?thesis using exact_contains [OF hex ex] h by (simp add: honest_def)
next
  case (DAdopt d src written)
  then show ?thesis using exact_adopt [OF hex ex] h by simp
qed (use exact_read [OF hex ex h _ int] exact_write [OF hex ex] exact_write_stream [OF hex ex] exact_warm_up [OF hex ex] h
     in simp_all)

lemma accounted_exact:
  assumes "lower_hex_codec hex_encode" "disk_accounted hex_encode sha256 k"
  shows "exact hex_encode [] k \<and> intact hex_encode sha256 (disk_files k)"
  using assms(2)
proof induction
  case (accounted_start files now max_bytes)
  have "intact hex_encode sha256 (disk_files (snd (warm_up no_fault now (disk_with_max_size_bytes files max_bytes))))"
    by (rule intact_warm_up) (simp add: disk_with_max_size_bytes_def accounted_start(2))
  then show ?case using exact_warm_up_new [OF assms(1) accounted_start(1)] by simp
next
  case (accounted_run k op now)
  have "failed_copy no_fault op = {}" by (cases op) (simp_all add: half_copied_def)
  then show ?case
    using accounted_run exact_step [OF assms(1)] intact_disk_step [OF assms(1), of sha256 op "{}" k no_fault now] by simp
qed

lemma warm_up_files: "disk_files (snd (warm_up io now k)) = sweep_staging_logged io now (disk_files k)"
  by (simp add: warm_up_def Let_def split: prod.split option.split)



lemma max_size_new [simp]: "max_size (disk_with_max_size_bytes files m) = m"
  by (simp add: disk_with_max_size_bytes_def)

lemma warm_up_max_size [simp]: "max_size (snd (warm_up io now k)) = max_size k"
  by (simp add: warm_up_def Let_def split: prod.split option.split)


lemma exact_empty_start: "disk_accounted hex_encode sha256 (snd (warm_up no_fault now (disk_with_max_size_bytes [] m)))"
  by (rule accounted_start) (simp_all add: tree_ok_def intact_def)

lemma warm_up_empty: "disk_files (snd (warm_up io now (disk_with_max_size_bytes [] m))) = []"
  by (simp add: warm_up_files disk_with_max_size_bytes_def sweep_staging_logged_def sweep_staging_def)


text \<open>
  Reading a blob whose bytes no longer match its digest removes the file and its bytes from
  the size, but leaves it in the entry count, which from then on is one too high.
\<close>

theorem corrupt_read_miscounts:
  assumes "lower_hex_codec hex_encode" "exact hex_encode [] k"
    and "blob_key hex_encode (disk_files k) d z" "map_of (disk_files k) (blob_path hex_encode d) = Some f"
    and "sha256 (content f) \<noteq> hash d"
  shows "\<exists>k'. disk_read no_fault hex_encode sha256 d k = (Inr None, k') \<and>
    size_bytes k' = of_nat (blob_total (disk_files k')) \<and>
    disk_count_entries k' = of_nat (blob_count (disk_files k') + 1)"
proof -
  have d: "length (hash d) = 32" "z = file_len f" using assms(3,4) by (auto simp: blob_key_def blob_path_def)
  have "verify_digest hex_encode sha256 (content f) d \<noteq> Inr ()" using assms(5) by (simp add: verify_digest_Inr [OF assms(1)])
  then obtain e where "verify_digest hex_encode sha256 (content f) d = Inl e"
    by (cases "verify_digest hex_encode sha256 (content f) d") auto
  then show ?thesis
    using assms(4) exact_remove [OF assms(1-3)] assms(2)
    by (auto simp: disk_read_def Let_def exact_def size_bytes_def disk_count_entries_def blob_path_def d(2) algebra_simps)
qed

theorem corrupt_read_miscounts_witness:
  "let d = \<lparr>hash = replicate 32 7, dsize = 2\<rparr>; f = \<lparr>content = [1, 2], mtime = 5\<rparr>;
       k = snd (warm_up no_fault 9 (disk_with_max_size_bytes [(entry_path lower_hex d, f)] 100))
   in \<exists>k'. disk_read no_fault lower_hex (\<lambda>_. replicate 32 8) d k = (Inr None, k') \<and>
     disk_count_entries k' = of_nat (blob_count (disk_files k') + 1)"
proof -
  define d where "d = \<lparr>hash = replicate 32 7 :: bytes, dsize = 2\<rparr>"
  define f where "f = \<lparr>content = [1, 2], mtime = 5\<rparr>"
  let ?t = "[(entry_path lower_hex d, f)]"
  let ?k = "snd (warm_up no_fault 9 (disk_with_max_size_bytes ?t 100))"
  have d: "length (hash d) = 32" "hash d \<noteq> replicate 32 8" by (simp_all add: d_def replicate_eq_replicate)
  have t: "tree_ok lower_hex ?t" using d(1) by (auto simp: tree_ok_def f_def file_len_def)
  have "blob_key lower_hex ?t d 2" using d(1) by (simp add: blob_key_def d_def f_def file_len_def)
  then have key: "blob_key lower_hex (disk_files ?k) d 2"
    using sweep_blobs(4) [OF t lower_hex_is_codec, of no_fault 9] by (simp add: warm_up_files disk_with_max_size_bytes_def)
  then obtain g where "map_of (disk_files ?k) (blob_path lower_hex d) = Some g" by (auto simp: blob_key_def blob_path_def)
  from corrupt_read_miscounts [OF lower_hex_is_codec exact_warm_up_new [OF lower_hex_is_codec t] key this, of "\<lambda>_. replicate 32 8"] d(2)
  show ?thesis by (auto simp: Let_def d_def f_def)
qed

text \<open>
  A blob that a request finds on disk before the warm-up reaches it is tracked without being
  counted, and the warm-up then skips it. Once it is deleted the size and the entry count are
  below zero, that is, wrap to almost \<open>2 ^ 64\<close>.
\<close>

theorem early_lookup_wraps_size:
  assumes hex: "lower_hex_codec hex_encode" and d: "digest_wf d" "dsize d = int (file_len f)"
    and k0: "k0 = disk_with_max_size_bytes [(blob_path hex_encode d, f)] m"
    and k1: "disk_contains no_fault hex_encode now d k0 = (r, k1)"
    and k2: "k2 = snd (warm_up no_fault later k1)"
    and k3: "k3 = snd (disk_delete no_fault hex_encode d k2)"
  shows "r = Inr True \<and> is_ready k2 \<and> size_bytes k2 = 0 \<and> blob_total (disk_files k2) = file_len f \<and>
    size_bytes k3 = - of_nat (file_len f) \<and> disk_count_entries k3 = - 1 \<and> blob_count (disk_files k3) = 0"
proof -
  let ?p = "entry_path hex_encode d"
  have len: "length (hash d) = 32" "file_len f < 2 ^ 63" using d by (auto simp: digest_wf_def)
  define t1 where "t1 = disk_files k1"
  obtain g where t1: "t1 = [(?p, g)]" "file_len g = file_len f" and r: "r = Inr True"
    and lru: "disk_lru k1 = touch d (file_len f) lru_new" and cnt: "current_size k1 = 0" "current_entries k1 = 0"
    using k1 declared_size_iff [OF d(1) len(2)] d(2)
    by (auto simp: k0 t1_def disk_contains_def disk_with_max_size_bytes_def blob_path_def Let_def refresh_mtime_if_stale_def
        touch_lru_def alist_modify_def file_len_def)
  have ok: "tree_ok hex_encode t1" using len t1 by (auto simp: tree_ok_def)
  define t2 where "t2 = sweep_staging_logged no_fault later t1"
  note sw = sweep_blobs [OF ok, where io = no_fault and now = later, folded t2_def]
  have same: "blob_key hex_encode t2 e z \<longleftrightarrow> e = d \<and> z = file_len f" for e z
    using sw(4) [OF hex] entry_path_inject [OF hex, of e d] len(1) t1 d(2)
    by (auto simp: blob_key_def intro: digest_info.equality)
  have "hash_index (floor_counter later (disk_lru k1)) (hash e) \<noteq> None" if "(e, z, st) \<in> set (map warm_up_entry (listing t2))" for e z st
  proof -
    have "e = d" using scan_keys(1) [OF hex sw(1), of e z] that same by blast
    then show ?thesis by (simp add: lru floor_counter_def)
  qed
  then have "\<forall>(e, _) \<in> set (sort_key (\<lambda>(_, _, st). st) (map warm_up_entry (listing t2))).
    hash_index (floor_counter later (disk_lru k1)) (hash e) \<noteq> None"
    by (fastforce simp del: set_map)
  then have "restore_recency (map warm_up_entry (listing t2)) (floor_counter later (disk_lru k1)) =
    (\<lparr>rt_entries = 0, rt_bytes = 0\<rparr>, floor_counter later (disk_lru k1))"
    unfolding restore_recency_def by (rule restore_loop_tracked)
  then have k2': "disk_files k2 = t2" "current_size k2 = 0" "current_entries k2 = 0" "ready k2"
    using cnt by (simp_all add: k2 warm_up_def Let_def t1_def [symmetric] t2_def [symmetric])
  obtain h where h: "map_of t2 ?p = Some h" "file_len h = file_len f" using same [of d "file_len f"] by (auto simp: blob_key_def)
  have "blob_total t2 = file_len f" "blob_count t2 = 1"
    using sw(2,3) t1 is_entry_path [OF hex len(1)] by (simp_all add: blob_total_def blob_count_def)
  moreover from this(2) have "blob_count (AList.delete ?p t2) = 0"
    using blob_delete [OF is_entry_path [OF hex len(1)] _ h(1)] sw(1) by (simp add: tree_ok_def)
  ultimately show ?thesis
    using k2' h r by (simp add: k3 disk_delete_def blob_path_def Let_def size_bytes_def disk_count_entries_def is_ready_def)
qed

theorem early_lookup_wraps_size_witness:
  "let d = \<lparr>hash = replicate 32 7, dsize = 2\<rparr>; f = \<lparr>content = [1, 2], mtime = 5\<rparr>;
       k = disk_with_max_size_bytes [(blob_path lower_hex d, f)] 100;
       k2 = snd (warm_up no_fault 9 (snd (disk_contains no_fault lower_hex 8 d k)))
   in size_bytes (snd (disk_delete no_fault lower_hex d k2)) = 18446744073709551614"
  using early_lookup_wraps_size [OF lower_hex_is_codec, of "\<lparr>hash = replicate 32 7, dsize = 2\<rparr>" "\<lparr>content = [1, 2], mtime = 5\<rparr>",
      OF _ _ refl prod.collapse [symmetric] refl refl, of 8 100 9]
  by (simp add: digest_wf_def file_len_def Let_def)

end
