(* ===== verification/Cas_Backend.thy ===== *)
theory Cas_Backend
  imports Disk_Accounting
begin

text \<open>
  The \<open>CasBackend\<close> trait of \<open>cas/mod.rs\<close> as a record of operations and two locales with what an
  implementation promises: \<open>cas_backend\<close>, that it serves only the blobs a digest names, and
  \<open>durable_backend\<close>, that it also keeps them. The disk backend interprets the first.
\<close>

record 's cas_ops =
  cb_contains :: "digest_info \<Rightarrow> 's \<Rightarrow> bool cas_result \<times> 's"
  cb_read :: "digest_info \<Rightarrow> 's \<Rightarrow> bytes option cas_result \<times> 's"
  cb_read_stream :: "digest_info \<Rightarrow> nat \<Rightarrow> nat option \<Rightarrow> 's \<Rightarrow> blob_stream option cas_result \<times> 's"
  cb_write :: "digest_info \<Rightarrow> bytes \<Rightarrow> 's \<Rightarrow> unit cas_result \<times> 's"
  cb_write_stream :: "digest_info \<Rightarrow> blob_stream \<Rightarrow> 's \<Rightarrow> unit cas_result \<times> 's"
  cb_find_missing :: "digest_info list \<Rightarrow> 's \<Rightarrow> digest_info list cas_result \<times> 's"
  cb_delete :: "digest_info \<Rightarrow> 's \<Rightarrow> unit cas_result \<times> 's"
  cb_local_path :: "digest_info \<Rightarrow> 's \<Rightarrow> path option cas_result \<times> 's"

definition disk_ops ::
  "(fs_call \<Rightarrow> bool) \<Rightarrow> (bytes \<Rightarrow> string) \<Rightarrow> (bytes \<Rightarrow> bytes) \<Rightarrow> millis \<Rightarrow> string \<Rightarrow> disk cas_ops" where
  "disk_ops io hex_encode sha256 now uuid =
     \<lparr>cb_contains = disk_contains io hex_encode now,
      cb_read = disk_read io hex_encode sha256,
      cb_read_stream = disk_read_stream io hex_encode sha256,
      cb_write = disk_write io hex_encode sha256 now uuid,
      cb_write_stream = disk_write_stream io hex_encode sha256 now uuid,
      cb_find_missing = find_missing (disk_contains io hex_encode now),
      cb_delete = disk_delete io hex_encode,
      cb_local_path = disk_local_path io hex_encode\<rparr>"

section \<open>The contract\<close>

text \<open>The bytes of a stream that ends without an error.\<close>

fun stream_data :: "blob_stream \<Rightarrow> bytes option" where
  "stream_data [] = Some []"
| "stream_data (Inl e # stream) = None"
| "stream_data (Inr chunk # stream) = map_option ((@) chunk) (stream_data stream)"

definition slice :: "nat \<Rightarrow> nat option \<Rightarrow> bytes \<Rightarrow> bytes" where
  "slice offset limit b = (case limit of None \<Rightarrow> drop offset b | Some l \<Rightarrow> take l (drop offset b))"

definition has_size :: "digest_info \<Rightarrow> bytes \<Rightarrow> bool" where
  "has_size d b \<longleftrightarrow> int (length b) = uint (word_of_int (dsize d) :: u64)"

definition present :: "('s \<Rightarrow> digest_info \<Rightarrow> bytes option) \<Rightarrow> 's \<Rightarrow> digest_info \<Rightarrow> bool" where
  "present holds s d \<longleftrightarrow> (case holds s d of None \<Rightarrow> False | Some b \<Rightarrow> has_size d b)"

lemma present_iff: "present holds s d \<longleftrightarrow> (\<exists>b. holds s d = Some b \<and> has_size d b)"
  by (simp add: present_def split: option.split)

locale cas_lookup =
  fixes contains_op :: "digest_info \<Rightarrow> 's \<Rightarrow> bool cas_result \<times> 's"
    and read_op :: "digest_info \<Rightarrow> 's \<Rightarrow> bytes option cas_result \<times> 's"
    and sha256 :: "bytes \<Rightarrow> bytes"
    and ok :: "'s \<Rightarrow> bool"
    and holds :: "'s \<Rightarrow> digest_info \<Rightarrow> bytes option"
  assumes holds_sound: "ok s \<Longrightarrow> digest_wf d \<Longrightarrow> holds s d = Some b \<Longrightarrow> sha256 b = hash d"
    and contains_law: "ok s \<Longrightarrow> digest_wf d \<Longrightarrow> contains_op d s = (r, s') \<Longrightarrow>
      ok s' \<and> holds s' = holds s \<and> (\<forall>p. r = Inr p \<longrightarrow> p = present holds s d)"
    and read_law: "ok s \<Longrightarrow> digest_wf d \<Longrightarrow> read_op d s = (v, s') \<Longrightarrow>
      ok s' \<and> holds s' = holds s \<and> (\<forall>x. v = Inr x \<longrightarrow> x = holds s d)"
begin

lemma present_cong: "holds s' = holds s \<Longrightarrow> present holds s' = present holds s"
  by (simp add: present_def fun_eq_iff)

lemma find_missing_spec:
  "ok s \<Longrightarrow> \<forall>d \<in> set ds. digest_wf d \<Longrightarrow> find_missing contains_op ds s = (r, s') \<Longrightarrow>
   ok s' \<and> holds s' = holds s \<and> (\<forall>ms. r = Inr ms \<longrightarrow> ms = filter (\<lambda>d. \<not> present holds s d) ds)"
proof (induction ds arbitrary: s r s')
  case (Cons d ds)
  obtain q s1 where c: "contains_op d s = (q, s1)" by fastforce
  note law = contains_law [OF Cons.prems(1) _ c]
  show ?case
  proof (cases q)
    case (Inl e)
    then show ?thesis using law Cons.prems c by auto
  next
    case (Inr p)
    obtain q' s2 where rest: "find_missing contains_op ds s1 = (q', s2)" by fastforce
    have "ok s1" "holds s1 = holds s" "p = present holds s d" using law Cons.prems Inr by auto
    moreover from this have "ok s2 \<and> holds s2 = holds s1 \<and> (\<forall>ms. q' = Inr ms \<longrightarrow> ms = filter (\<lambda>d. \<not> present holds s1 d) ds)"
      using Cons.IH [OF _ _ rest] Cons.prems(2) by simp
    ultimately show ?thesis
      using Cons.prems(3) c Inr rest present_cong [of s1 s] by (cases q') auto
  qed
qed auto

lemma batch_read_spec:
  "ok s \<Longrightarrow> \<forall>d \<in> set ds. digest_wf d \<Longrightarrow> batch_read read_op ds s = (r, s') \<Longrightarrow>
   ok s' \<and> holds s' = holds s \<and> (\<forall>xs. r = Inr xs \<longrightarrow> xs = map (\<lambda>d. (d, holds s d)) ds)"
proof (induction ds arbitrary: s r s')
  case (Cons d ds)
  obtain q s1 where c: "read_op d s = (q, s1)" by fastforce
  note law = read_law [OF Cons.prems(1) _ c]
  show ?case
  proof (cases q)
    case (Inl e)
    then show ?thesis using law Cons.prems c by auto
  next
    case (Inr p)
    obtain q' s2 where rest: "batch_read read_op ds s1 = (q', s2)" by fastforce
    have "ok s1" "holds s1 = holds s" "p = holds s d" using law Cons.prems Inr by auto
    moreover from this have "ok s2 \<and> holds s2 = holds s1 \<and> (\<forall>xs. q' = Inr xs \<longrightarrow> xs = map (\<lambda>d. (d, holds s1 d)) ds)"
      using Cons.IH [OF _ _ rest] Cons.prems(2) by simp
    ultimately show ?thesis using Cons.prems(3) c Inr rest by (cases q') auto
  qed
qed auto

end

text \<open>Blobs have fewer than \<open>2 ^ 63\<close> bytes, the most a \<open>Bytes\<close> holds.\<close>

locale cas_backend = cas_lookup "cb_contains ops" "cb_read ops" sha256 ok holds
  for ops :: "'s cas_ops" and sha256 ok holds +
  assumes stream_law: "ok s \<Longrightarrow> digest_wf d \<Longrightarrow> cb_read_stream ops d offset limit s = (r, s') \<Longrightarrow>
      ok s' \<and> holds s' = holds s \<and> (r = Inr None \<longrightarrow> \<not> present holds s d) \<and>
      (\<forall>stream b data. r = Inr (Some stream) \<longrightarrow> stream_data stream = Some data \<longrightarrow>
         holds s d = Some b \<longrightarrow> has_size d b \<longrightarrow> data = slice offset limit b)"
    and missing_law: "ok s \<Longrightarrow> \<forall>d \<in> set ds. digest_wf d \<Longrightarrow> cb_find_missing ops ds s = (q, s') \<Longrightarrow>
      ok s' \<and> holds s' = holds s \<and> (\<forall>ms. q = Inr ms \<longrightarrow> ms = filter (\<lambda>d. \<not> present holds s d) ds)"
    and write_ok: "ok s \<Longrightarrow> digest_wf d \<Longrightarrow> length b < 2 ^ 63 \<Longrightarrow> ok (snd (cb_write ops d b s))"
    and write_stream_ok: "ok s \<Longrightarrow> digest_wf d \<Longrightarrow> (\<And>b. stream_data stream = Some b \<Longrightarrow> length b < 2 ^ 63) \<Longrightarrow>
      ok (snd (cb_write_stream ops d stream s))"
    and delete_law: "ok s \<Longrightarrow> digest_wf d \<Longrightarrow> cb_delete ops d s = (w, s') \<Longrightarrow>
      ok s' \<and> (w = Inr () \<longrightarrow> holds s' d = None)"

text \<open>
  A backend whose retention is its own: what was written stays.
\<close>

locale durable_backend = cas_backend ops sha256 ok holds
  for ops :: "'s cas_ops" and sha256 ok holds +
  assumes write_stores: "ok s \<Longrightarrow> digest_wf d \<Longrightarrow> length b < 2 ^ 63 \<Longrightarrow>
      cb_write ops d b s = (Inr (), s') \<Longrightarrow> present holds s' d"
    and write_stream_stores: "ok s \<Longrightarrow> digest_wf d \<Longrightarrow> (\<And>b. stream_data stream = Some b \<Longrightarrow> length b < 2 ^ 63) \<Longrightarrow>
      cb_write_stream ops d stream s = (Inr (), s') \<Longrightarrow> present holds s' d"
    and write_keeps: "ok s \<Longrightarrow> digest_wf d \<Longrightarrow> digest_wf e \<Longrightarrow> length b < 2 ^ 63 \<Longrightarrow>
      present holds s e \<Longrightarrow> (hash d = hash e \<Longrightarrow> d = e) \<Longrightarrow> present holds (snd (cb_write ops d b s)) e"
    and write_stream_keeps: "ok s \<Longrightarrow> digest_wf d \<Longrightarrow> digest_wf e \<Longrightarrow>
      (\<And>b. stream_data stream = Some b \<Longrightarrow> length b < 2 ^ 63) \<Longrightarrow>
      present holds s e \<Longrightarrow> (hash d = hash e \<Longrightarrow> d = e) \<Longrightarrow> present holds (snd (cb_write_stream ops d stream s)) e"
    and delete_keeps: "ok s \<Longrightarrow> digest_wf d \<Longrightarrow> digest_wf e \<Longrightarrow> hash d \<noteq> hash e \<Longrightarrow> present holds s e \<Longrightarrow>
      present holds (snd (cb_delete ops d s)) e"

section \<open>The disk backend keeps the contract\<close>

lemma stream_data_append: "stream_data (map Inr cs @ st) = map_option ((@) (concat cs)) (stream_data st)"
  by (induction cs) (auto simp: option.map_comp comp_def option.map_ident)

lemma concat_chunks: "n > 0 \<Longrightarrow> concat (chunks_of n xs) = xs"
proof (induction n xs rule: chunks_of.induct)
  case (1 n xs)
  then show ?case by (cases "xs = []") (simp_all add: chunks_of.simps [of n xs] chunks_of.simps [of n "[]"])
qed

definition disk_ok :: "(bytes \<Rightarrow> bytes) \<Rightarrow> disk \<Rightarrow> bool" where
  "disk_ok sha256 k \<longleftrightarrow> intact lower_hex sha256 (disk_files k)"

definition disk_holds :: "disk \<Rightarrow> digest_info \<Rightarrow> bytes option" where
  "disk_holds k d = map_option content (map_of (disk_files k) (blob_path lower_hex d))"

lemma disk_holds_touch [simp]: "disk_holds (touch_lru d z k) = disk_holds k"
  by (simp add: disk_holds_def fun_eq_iff)

lemma disk_holds_refresh [simp]: "disk_holds (refresh_mtime_if_stale io now p k) = disk_holds k"
  by (auto simp: disk_holds_def fun_eq_iff refresh_mtime_if_stale_def option.map_comp comp_def intro!: option.map_cong)

lemma disk_lookup_laws:
  "disk_ok sha256 k \<Longrightarrow> digest_wf d \<Longrightarrow> disk_contains io lower_hex now d k = (r, k') \<Longrightarrow>
     disk_ok sha256 k' \<and> disk_holds k' = disk_holds k \<and> (\<forall>p. r = Inr p \<longrightarrow> p = present disk_holds k d)"
  "disk_ok sha256 k \<Longrightarrow> digest_wf d \<Longrightarrow> disk_read io lower_hex sha256 d k = (v, k') \<Longrightarrow>
     disk_ok sha256 k' \<and> disk_holds k' = disk_holds k \<and> (\<forall>x. v = Inr x \<longrightarrow> x = disk_holds k d)"
proof -
  show "disk_ok sha256 k \<Longrightarrow> digest_wf d \<Longrightarrow> disk_contains io lower_hex now d k = (r, k') \<Longrightarrow>
     disk_ok sha256 k' \<and> disk_holds k' = disk_holds k \<and> (\<forall>p. r = Inr p \<longrightarrow> p = present disk_holds k d)"
    using intact_contains [of "{}" lower_hex sha256 k io now d]
    by (auto simp: disk_contains_def Let_def disk_ok_def present_def has_size_def disk_holds_def file_len_def
        split: if_splits option.splits)
next
  assume k: "disk_ok sha256 k" "digest_wf d" and r: "disk_read io lower_hex sha256 d k = (v, k')"
  have "verify_digest lower_hex sha256 (content f) d = Inr ()" if "map_of (disk_files k) (blob_path lower_hex d) = Some f" for f
    using k that by (simp add: verify_digest_Inr [OF lower_hex_is_codec] disk_ok_def intact_def blob_path_def digest_wf_def)
  then show "disk_ok sha256 k' \<and> disk_holds k' = disk_holds k \<and> (\<forall>x. v = Inr x \<longrightarrow> x = disk_holds k d)"
    using r k by (auto simp: disk_read_def Let_def disk_ok_def disk_holds_def split: if_splits option.splits)
qed

lemma disk_stream_law:
  assumes "disk_ok sha256 k" "digest_wf d" and r: "disk_read_stream io lower_hex sha256 d offset limit k = (r, k')"
  shows "disk_ok sha256 k' \<and> disk_holds k' = disk_holds k \<and> (r = Inr None \<longrightarrow> \<not> present disk_holds k d) \<and>
    (\<forall>stream b data. r = Inr (Some stream) \<longrightarrow> stream_data stream = Some data \<longrightarrow>
       disk_holds k d = Some b \<longrightarrow> has_size d b \<longrightarrow> data = slice offset limit b)"
proof -
  have fr: "disk_ok sha256 k' \<and> disk_holds k' = disk_holds k \<and> (r = Inr None \<longrightarrow> \<not> present disk_holds k d)"
    using assms by (auto simp: disk_read_stream_def Let_def disk_ok_def present_def disk_holds_def split: if_splits option.splits)
  have "data = slice offset limit b"
    if s: "r = Inr (Some stream)" "stream_data stream = Some data" "disk_holds k d = Some b" for stream b data
  proof -
    obtain f where f: "map_of (disk_files k) (blob_path lower_hex d) = Some f" "content f = b"
      using s(3) by (auto simp: disk_holds_def)
    show ?thesis
    proof (cases "offset \<ge> length b")
      case True
      then show ?thesis using r s f by (auto simp: disk_read_stream_def Let_def file_len_def slice_def split: if_splits option.split)
    next
      case False
      let ?n = "case limit of None \<Rightarrow> length b - offset | Some l \<Rightarrow> min l (length b - offset)"
      have "slice offset limit b = take ?n (drop offset b)"
        by (simp add: slice_def min_def split: option.split)
      moreover obtain tail where "stream = map Inr (chunks_of READ_CHUNK_BYTES (take ?n (drop offset b))) @ tail" "tail = [] \<or> (\<exists>e. tail = [Inl e])"
        using r s f False by (auto simp: disk_read_stream_def Let_def file_len_def split: if_splits option.splits sum.splits)
      ultimately show ?thesis using s(2) by (auto simp: stream_data_append concat_chunks READ_CHUNK_BYTES_def)
    qed
  qed
  with fr show ?thesis by blast
qed

interpretation disk_cas: cas_lookup "disk_contains io lower_hex now" "disk_read io lower_hex sha256" sha256 "disk_ok sha256" disk_holds
proof
  show "sha256 b = hash d" if "disk_ok sha256 k" "digest_wf d" "disk_holds k d = Some b" for k d b
    using that by (auto simp: disk_ok_def disk_holds_def intact_def blob_path_def digest_wf_def)
qed (fact disk_lookup_laws)+

lemma disk_ops_simps [simp]:
  "cb_contains (disk_ops io hex_encode sha256 now uuid) = disk_contains io hex_encode now"
  "cb_read (disk_ops io hex_encode sha256 now uuid) = disk_read io hex_encode sha256"
  "cb_read_stream (disk_ops io hex_encode sha256 now uuid) = disk_read_stream io hex_encode sha256"
  "cb_write (disk_ops io hex_encode sha256 now uuid) = disk_write io hex_encode sha256 now uuid"
  "cb_write_stream (disk_ops io hex_encode sha256 now uuid) = disk_write_stream io hex_encode sha256 now uuid"
  "cb_find_missing (disk_ops io hex_encode sha256 now uuid) = find_missing (disk_contains io hex_encode now)"
  "cb_delete (disk_ops io hex_encode sha256 now uuid) = disk_delete io hex_encode"
  by (simp_all add: disk_ops_def)

lemma disk_delete_law:
  "disk_ok sha256 k \<Longrightarrow> digest_wf d \<Longrightarrow> disk_delete io lower_hex d k = (w, k') \<Longrightarrow> disk_ok sha256 k' \<and> (w = Inr () \<longrightarrow> disk_holds k' d = None)"
  by (auto simp: disk_delete_def Let_def disk_ok_def disk_holds_def intact_delete map_of_delete split: option.splits if_splits)

lemma disk_write_ok:
  "disk_ok sha256 k \<Longrightarrow> digest_wf d \<Longrightarrow> length b < 2 ^ 63 \<Longrightarrow> disk_ok sha256 (snd (disk_write io lower_hex sha256 now uuid d b k))"
  "disk_ok sha256 k \<Longrightarrow> digest_wf d \<Longrightarrow> (\<And>b. stream_data st = Some b \<Longrightarrow> length b < 2 ^ 63) \<Longrightarrow>
     disk_ok sha256 (snd (disk_write_stream io lower_hex sha256 now uuid d st k))"
  by (simp_all add: disk_ok_def digest_wf_def intact_write [OF lower_hex_is_codec] intact_write_stream [OF lower_hex_is_codec])

interpretation disk_backend: cas_backend "disk_ops io lower_hex sha256 now uuid" sha256 "disk_ok sha256" disk_holds
proof (intro cas_backend.intro cas_backend_axioms.intro, unfold disk_ops_simps)
  show "cas_lookup (disk_contains io lower_hex now) (disk_read io lower_hex sha256) sha256 (disk_ok sha256) disk_holds"
    by (rule disk_cas.cas_lookup_axioms)
qed (fact disk_stream_law disk_cas.find_missing_spec disk_write_ok disk_delete_law)+

end
