(* ===== verification/Object_Cas.thy ===== *)
theory Object_Cas
  imports Cas_Backend
begin

text \<open>
  \<open>cas/backends/object.rs\<close>: the CAS on an object store. The store is the package
  \<open>object_store\<close>: a record of its operations, on a state \<open>'s\<close> of its own, is a parameter, and so
  is \<open>object_path\<close> for \<open>ObjectPath::from\<close>. \<open>object_store_ok\<close> and \<open>object_path_ok\<close> state the
  documented behaviour the code relies on: what an operation that succeeds does to the objects,
  and that one that fails does that or nothing. With them the backend is a durable one.
\<close>

section \<open>The object store\<close>

text \<open>Errors carry their text.\<close>

datatype os_error = OsNotFound string | OsOther string

type_synonym 'a os_result = "os_error + 'a"

text \<open>
  \<open>os_get\<close> has the result of the request and then that of reading the body. A multipart upload
  is started, takes parts (\<open>os_write_part\<close> is \<open>wait_for_capacity\<close> and \<open>write\<close>), and is finished
  with the bytes of all parts or aborted.
\<close>

record 's object_store =
  os_put :: "string \<Rightarrow> bytes \<Rightarrow> 's \<Rightarrow> unit os_result \<times> 's"
  os_get :: "string \<Rightarrow> 's \<Rightarrow> bytes os_result os_result \<times> 's"
  os_get_range :: "string \<Rightarrow> nat \<Rightarrow> nat \<Rightarrow> 's \<Rightarrow> bytes os_result list os_result \<times> 's"
  os_head :: "string \<Rightarrow> 's \<Rightarrow> nat os_result \<times> 's"
  os_delete :: "string \<Rightarrow> 's \<Rightarrow> unit os_result \<times> 's"
  os_put_multipart :: "string \<Rightarrow> 's \<Rightarrow> unit os_result \<times> 's"
  os_write_part :: "string \<Rightarrow> bytes \<Rightarrow> 's \<Rightarrow> unit os_result \<times> 's"
  os_finish :: "string \<Rightarrow> bytes \<Rightarrow> 's \<Rightarrow> unit os_result \<times> 's"
  os_abort :: "string \<Rightarrow> 's \<Rightarrow> 's"

section \<open>The backend\<close>

definition SINGLE_PUT_MAX_BYTES :: int where
  "SINGLE_PUT_MAX_BYTES = 8 * 1048576"

definition trim_slashes :: "string \<Rightarrow> string" where
  "trim_slashes s = rev (dropWhile ((=) CHR ''/'') (rev (dropWhile ((=) CHR ''/'') s)))"

record 's object_backend =
  ob_store :: "'s object_store"
  ob_prefix :: string

definition object_new :: "'s object_store \<Rightarrow> string \<Rightarrow> 's object_backend" where
  "object_new store prefix =
     (let dir = trim_slashes prefix
      in \<lparr>ob_store = store, ob_prefix = (if dir = [] then [] else dir @ ''/'')\<rparr>)"

fun storage :: "os_error \<Rightarrow> cas_error" where
  "storage (OsNotFound text) = Storage text"
| "storage (OsOther text) = Storage text"

definition PROBE :: bytes where
  "PROBE = map of_char ''ferrisrbe access probe''"

definition check_access ::
  "(string \<Rightarrow> string) \<Rightarrow> string \<Rightarrow> 's object_backend \<Rightarrow> 's \<Rightarrow> unit cas_result \<times> 's" where
  "check_access object_path uuid b s =
     (let key = object_path (ob_prefix b @ ''probe/'' @ uuid)
      in case os_put (ob_store b) key PROBE s of
           (Inl e, s1) \<Rightarrow> (Inl (storage e), s1)
         | (Inr _, s1) \<Rightarrow>
             (case os_get (ob_store b) key s1 of
                (Inl e, s2) \<Rightarrow> (Inl (storage e), s2)
              | (Inr body, s2) \<Rightarrow>
                  (case os_delete (ob_store b) key s2 of (deleted, s3) \<Rightarrow>
                     (case body of
                        Inl e \<Rightarrow> (Inl (storage e), s3)
                      | Inr data \<Rightarrow>
                          if data \<noteq> PROBE then (Inl (Storage (key @ '' read back different content'')), s3)
                          else (case deleted of Inl e \<Rightarrow> (Inl (storage e), s3) | Inr _ \<Rightarrow> (Inr (), s3))))))"

definition object_key ::
  "(string \<Rightarrow> string) \<Rightarrow> (bytes \<Rightarrow> string) \<Rightarrow> 's object_backend \<Rightarrow> digest_info \<Rightarrow> string" where
  "object_key object_path hex_encode b d = object_path (ob_prefix b @ ''cas/'' @ hash_to_string hex_encode d)"

definition has_object :: "'s object_store \<Rightarrow> string \<Rightarrow> int \<Rightarrow> 's \<Rightarrow> bool cas_result \<times> 's" where
  "has_object store key sz s =
     (case os_head store key s of
        (Inr n, s1) \<Rightarrow> (Inr (int n = uint (word_of_int sz :: u64)), s1)
      | (Inl (OsNotFound _), s1) \<Rightarrow> (Inr False, s1)
      | (Inl e, s1) \<Rightarrow> (Inl (storage e), s1))"

definition verify_hash :: "(bytes \<Rightarrow> string) \<Rightarrow> digest_info \<Rightarrow> bytes \<Rightarrow> unit cas_result" where
  "verify_hash hex_encode d computed =
     (if computed = hash d then Inr ()
      else Inl (digest_mismatch (hash_to_string hex_encode d) (hex_encode computed)))"

definition verify_blob :: "(bytes \<Rightarrow> string) \<Rightarrow> (bytes \<Rightarrow> bytes) \<Rightarrow> digest_info \<Rightarrow> bytes \<Rightarrow> unit cas_result" where
  "verify_blob hex_encode sha256 d data =
     (if signed64 (length data) \<noteq> dsize d
      then Inl (InvalidDigest (hash_to_string hex_encode d @ '' declares '' @ show_int (dsize d) @ '' bytes, got ''
                               @ show_nat (length data)))
      else verify_hash hex_encode d (sha256 data))"

definition object_contains ::
  "(string \<Rightarrow> string) \<Rightarrow> (bytes \<Rightarrow> string) \<Rightarrow> 's object_backend \<Rightarrow> digest_info \<Rightarrow> 's \<Rightarrow> bool cas_result \<times> 's" where
  "object_contains object_path hex_encode b d s =
     has_object (ob_store b) (object_key object_path hex_encode b d) (dsize d) s"

definition object_read ::
  "(string \<Rightarrow> string) \<Rightarrow> (bytes \<Rightarrow> string) \<Rightarrow> 's object_backend \<Rightarrow> digest_info \<Rightarrow> 's \<Rightarrow> bytes option cas_result \<times> 's" where
  "object_read object_path hex_encode b d s =
     (case os_get (ob_store b) (object_key object_path hex_encode b d) s of
        (Inr (Inr data), s1) \<Rightarrow> (Inr (Some data), s1)
      | (Inr (Inl e), s1) \<Rightarrow> (Inl (storage e), s1)
      | (Inl (OsNotFound _), s1) \<Rightarrow> (Inr None, s1)
      | (Inl e, s1) \<Rightarrow> (Inl (storage e), s1))"

definition map_err :: "bytes os_result list \<Rightarrow> blob_stream" where
  "map_err = map (\<lambda>r. case r of Inl e \<Rightarrow> Inl (storage e) | Inr chunk \<Rightarrow> Inr chunk)"

definition object_read_stream ::
  "(string \<Rightarrow> string) \<Rightarrow> (bytes \<Rightarrow> string) \<Rightarrow> 's object_backend \<Rightarrow> digest_info \<Rightarrow> nat \<Rightarrow> nat option \<Rightarrow> 's \<Rightarrow>
   blob_stream option cas_result \<times> 's" where
  "object_read_stream object_path hex_encode b d offset limit s =
     (let sz = nat (max (dsize d) 0);
          stop = (case limit of None \<Rightarrow> sz | Some l \<Rightarrow> min (offset + l) sz)
      in if offset \<ge> stop
         then (case object_contains object_path hex_encode b d s of
                 (Inl e, s1) \<Rightarrow> (Inl e, s1)
               | (Inr there, s1) \<Rightarrow> (Inr (if there then Some [] else None), s1))
         else (case os_get_range (ob_store b) (object_key object_path hex_encode b d) offset stop s of
                 (Inr body, s1) \<Rightarrow> (Inr (Some (map_err body)), s1)
               | (Inl (OsNotFound _), s1) \<Rightarrow> (Inr None, s1)
               | (Inl e, s1) \<Rightarrow> (Inl (storage e), s1)))"

definition object_write ::
  "(string \<Rightarrow> string) \<Rightarrow> (bytes \<Rightarrow> string) \<Rightarrow> (bytes \<Rightarrow> bytes) \<Rightarrow> 's object_backend \<Rightarrow> digest_info \<Rightarrow> bytes \<Rightarrow> 's \<Rightarrow>
   unit cas_result \<times> 's" where
  "object_write object_path hex_encode sha256 b d data s =
     (case verify_blob hex_encode sha256 d data of
        Inl e \<Rightarrow> (Inl e, s)
      | Inr _ \<Rightarrow>
          (case os_put (ob_store b) (object_key object_path hex_encode b d) data s of
             (Inl e, s1) \<Rightarrow> (Inl (storage e), s1)
           | (Inr _, s1) \<Rightarrow> (Inr (), s1)))"

fun collect_stream :: "(bytes \<Rightarrow> string) \<Rightarrow> digest_info \<Rightarrow> blob_stream \<Rightarrow> bytes \<Rightarrow> bytes cas_result" where
  "collect_stream hex_encode d [] data = Inr data"
| "collect_stream hex_encode d (Inl e # stream) data = Inl e"
| "collect_stream hex_encode d (Inr chunk # stream) data =
     (if signed64 (length data + length chunk) > dsize d
      then Inl (InvalidDigest (hash_to_string hex_encode d @ '' declares '' @ show_int (dsize d)
                               @ '' bytes and the stream sends more''))
      else collect_stream hex_encode d stream (data @ chunk))"

fun upload_parts ::
  "'s object_store \<Rightarrow> string \<Rightarrow> blob_stream \<Rightarrow> bytes \<Rightarrow> 's \<Rightarrow> bytes cas_result \<times> 's" where
  "upload_parts store key [] data s = (Inr data, s)"
| "upload_parts store key (Inl e # stream) data s = (Inl e, s)"
| "upload_parts store key (Inr chunk # stream) data s =
     (case os_write_part store key chunk s of
        (Inl e, s1) \<Rightarrow> (Inl (storage e), s1)
      | (Inr _, s1) \<Rightarrow> upload_parts store key stream (data @ chunk) s1)"

definition object_write_stream ::
  "(string \<Rightarrow> string) \<Rightarrow> (bytes \<Rightarrow> string) \<Rightarrow> (bytes \<Rightarrow> bytes) \<Rightarrow> 's object_backend \<Rightarrow> digest_info \<Rightarrow> blob_stream \<Rightarrow> 's \<Rightarrow>
   unit cas_result \<times> 's" where
  "object_write_stream object_path hex_encode sha256 b d stream s =
     (let store = ob_store b; key = object_key object_path hex_encode b d in
      if dsize d \<le> SINGLE_PUT_MAX_BYTES
      then (case collect_stream hex_encode d stream [] of
              Inl e \<Rightarrow> (Inl e, s)
            | Inr data \<Rightarrow> object_write object_path hex_encode sha256 b d data s)
      else (case os_put_multipart store key s of
              (Inl e, s1) \<Rightarrow> (Inl (storage e), s1)
            | (Inr _, s1) \<Rightarrow>
                (case upload_parts store key stream [] s1 of
                   (Inl e, s2) \<Rightarrow> (Inl e, os_abort store key s2)
                 | (Inr data, s2) \<Rightarrow>
                     if signed64 (length data) \<noteq> dsize d
                     then (Inl (InvalidDigest (hash_to_string hex_encode d @ '' declares '' @ show_int (dsize d)
                                @ '' bytes, got '' @ show_int (signed64 (length data)))), os_abort store key s2)
                     else (case verify_hash hex_encode d (sha256 data) of
                             Inl e \<Rightarrow> (Inl e, os_abort store key s2)
                           | Inr _ \<Rightarrow>
                               (case os_finish store key data s2 of
                                  (Inl e, s3) \<Rightarrow> (Inl (storage e), s3)
                                | (Inr _, s3) \<Rightarrow> (Inr (), s3))))))"

text \<open>The lookups run side by side; the first that fails, in the order of the digests, is the error.\<close>

fun object_checks ::
  "(digest_info \<Rightarrow> 's \<Rightarrow> bool cas_result \<times> 's) \<Rightarrow> digest_info list \<Rightarrow> 's \<Rightarrow> bool list cas_result \<times> 's" where
  "object_checks check [] s = (Inr [], s)"
| "object_checks check (d # ds) s =
     (case check d s of
        (Inl e, s1) \<Rightarrow> (Inl e, s1)
      | (Inr there, s1) \<Rightarrow>
          (case object_checks check ds s1 of
             (Inl e, s2) \<Rightarrow> (Inl e, s2)
           | (Inr rest, s2) \<Rightarrow> (Inr (there # rest), s2)))"

definition object_find_missing ::
  "(string \<Rightarrow> string) \<Rightarrow> (bytes \<Rightarrow> string) \<Rightarrow> 's object_backend \<Rightarrow> digest_info list \<Rightarrow> 's \<Rightarrow>
   digest_info list cas_result \<times> 's" where
  "object_find_missing object_path hex_encode b ds s =
     (case object_checks (object_contains object_path hex_encode b) ds s of
        (Inl e, s1) \<Rightarrow> (Inl e, s1)
      | (Inr there, s1) \<Rightarrow> (Inr (map fst (filter (\<lambda>(d, p). \<not> p) (zip ds there))), s1))"

definition object_delete ::
  "(string \<Rightarrow> string) \<Rightarrow> (bytes \<Rightarrow> string) \<Rightarrow> 's object_backend \<Rightarrow> digest_info \<Rightarrow> 's \<Rightarrow> unit cas_result \<times> 's" where
  "object_delete object_path hex_encode b d s =
     (case os_delete (ob_store b) (object_key object_path hex_encode b d) s of
        (Inr _, s1) \<Rightarrow> (Inr (), s1)
      | (Inl (OsNotFound _), s1) \<Rightarrow> (Inr (), s1)
      | (Inl e, s1) \<Rightarrow> (Inl (storage e), s1))"

definition object_local_path :: "digest_info \<Rightarrow> 's \<Rightarrow> path option cas_result \<times> 's" where
  "object_local_path d s = (Inr None, s)"

definition object_ops ::
  "(string \<Rightarrow> string) \<Rightarrow> (bytes \<Rightarrow> string) \<Rightarrow> (bytes \<Rightarrow> bytes) \<Rightarrow> 's object_backend \<Rightarrow> 's cas_ops" where
  "object_ops object_path hex_encode sha256 b =
     \<lparr>cb_contains = object_contains object_path hex_encode b,
      cb_read = object_read object_path hex_encode b,
      cb_read_stream = object_read_stream object_path hex_encode b,
      cb_write = object_write object_path hex_encode sha256 b,
      cb_write_stream = object_write_stream object_path hex_encode sha256 b,
      cb_find_missing = object_find_missing object_path hex_encode b,
      cb_delete = object_delete object_path hex_encode b,
      cb_local_path = object_local_path\<rparr>"

section \<open>What the backend relies on\<close>

definition os_data :: "bytes os_result list \<Rightarrow> bytes option" where
  "os_data body = stream_data (map_err body)"

definition changes_to :: "('s \<Rightarrow> string \<Rightarrow> bytes option) \<Rightarrow> string \<Rightarrow> bytes option \<Rightarrow> 's \<Rightarrow> unit os_result \<times> 's \<Rightarrow> bool" where
  "changes_to objects key v s r \<longleftrightarrow>
     objects (snd r) = (objects s)(key := v) \<or> fst r \<noteq> Inr () \<and> objects (snd r) = objects s"

definition puts :: "('s \<Rightarrow> string \<Rightarrow> bytes option) \<Rightarrow> (string \<Rightarrow> bytes \<Rightarrow> 's \<Rightarrow> unit os_result \<times> 's) \<Rightarrow> bool" where
  "puts objects put \<longleftrightarrow> (\<forall>key data s. changes_to objects key (Some data) s (put key data s))"

definition gets :: "('s \<Rightarrow> string \<Rightarrow> bytes option) \<Rightarrow> (string \<Rightarrow> 's \<Rightarrow> 'a os_result \<times> 's) \<Rightarrow> ('a \<Rightarrow> bytes \<Rightarrow> bool) \<Rightarrow> bool" where
  "gets objects get reads \<longleftrightarrow>
     (\<forall>key s. objects (snd (get key s)) = objects s \<and>
        (case fst (get key s) of
           Inl (OsNotFound _) \<Rightarrow> objects s key = None
         | Inl (OsOther _) \<Rightarrow> True
         | Inr x \<Rightarrow> (case objects s key of None \<Rightarrow> False | Some b \<Rightarrow> reads x b)))"

definition deletes :: "('s \<Rightarrow> string \<Rightarrow> bytes option) \<Rightarrow> (string \<Rightarrow> 's \<Rightarrow> unit os_result \<times> 's) \<Rightarrow> bool" where
  "deletes objects delete \<longleftrightarrow>
     (\<forall>key s. changes_to objects key None s (delete key s) \<and>
        (case fst (delete key s) of Inl (OsNotFound _) \<Rightarrow> objects s key = None | _ \<Rightarrow> True))"

definition keeps :: "('s \<Rightarrow> string \<Rightarrow> bytes option) \<Rightarrow> ('s \<Rightarrow> 's) \<Rightarrow> bool" where
  "keeps objects f \<longleftrightarrow> (\<forall>s. objects (f s) = objects s)"

definition object_store_ok :: "'s object_store \<Rightarrow> ('s \<Rightarrow> string \<Rightarrow> bytes option) \<Rightarrow> bool" where
  "object_store_ok store objects \<longleftrightarrow>
     puts objects (os_put store) \<and> puts objects (os_finish store) \<and> deletes objects (os_delete store) \<and>
     gets objects (os_get store) (\<lambda>body b. \<forall>data. body = Inr data \<longrightarrow> data = b) \<and>
     gets objects (os_head store) (\<lambda>n b. n = length b) \<and>
     (\<forall>i j. i < j \<longrightarrow> gets objects (\<lambda>key. os_get_range store key i j)
        (\<lambda>body b. \<forall>data. os_data body = Some data \<longrightarrow> data = take (j - i) (drop i b))) \<and>
     (\<forall>key chunk. keeps objects (snd \<circ> os_put_multipart store key) \<and> keeps objects (os_abort store key) \<and>
        keeps objects (snd \<circ> os_write_part store key chunk))"

lemma putsD: "puts objects put \<Longrightarrow> put key data s = r \<Longrightarrow> changes_to objects key (Some data) s r"
  by (auto simp: puts_def)

lemma getsD:
  assumes "gets objects get reads" "get key s = (r, s')"
  shows "objects s' = objects s" "r = Inl (OsNotFound text) \<Longrightarrow> objects s key = None"
    "r = Inr x \<Longrightarrow> \<exists>b. objects s key = Some b \<and> reads x b"
  using assms by (auto simp: gets_def dest!: spec [of _ key] spec [of _ s] split: option.splits)

lemma keepsD: "keeps objects (snd \<circ> f) \<Longrightarrow> f s = (r, s') \<Longrightarrow> objects s' = objects s"
  by (metis comp_apply keeps_def snd_conv)

lemma object_store_parts:
  assumes "object_store_ok store objects"
  shows "puts objects (os_put store)" "puts objects (os_finish store)" "deletes objects (os_delete store)"
    "gets objects (os_get store) (\<lambda>body b. \<forall>data. body = Inr data \<longrightarrow> data = b)"
    "gets objects (os_head store) (\<lambda>n b. n = length b)"
    "i < j \<Longrightarrow> gets objects (\<lambda>key. os_get_range store key i j)
      (\<lambda>body b. \<forall>data. os_data body = Some data \<longrightarrow> data = take (j - i) (drop i b))"
    "keeps objects (snd \<circ> os_put_multipart store key)" "keeps objects (os_abort store key)"
    "keeps objects (snd \<circ> os_write_part store key chunk)"
  using assms by (simp_all add: object_store_ok_def)

lemma deletesD:
  assumes "deletes objects delete" "delete key s = (r, s')"
  shows "changes_to objects key None s (r, s')" "r = Inl (OsNotFound text) \<Longrightarrow> objects s' key = None"
  using assms by (auto simp: deletes_def changes_to_def dest!: spec [of _ key] spec [of _ s])

text \<open>Distinct hashes have distinct keys below one prefix.\<close>

definition object_path_ok :: "(string \<Rightarrow> string) \<Rightarrow> string \<Rightarrow> bool" where
  "object_path_ok object_path prefix \<longleftrightarrow>
     (\<forall>h h'. object_path (prefix @ ''cas/'' @ lower_hex h) = object_path (prefix @ ''cas/'' @ lower_hex h') \<longrightarrow> h = h')"

section \<open>The backend is durable\<close>

definition object_holds ::
  "(string \<Rightarrow> string) \<Rightarrow> 's object_backend \<Rightarrow> ('s \<Rightarrow> string \<Rightarrow> bytes option) \<Rightarrow> 's \<Rightarrow> digest_info \<Rightarrow> bytes option" where
  "object_holds object_path b objects s d = objects s (object_key object_path lower_hex b d)"

definition object_ok ::
  "(string \<Rightarrow> string) \<Rightarrow> (bytes \<Rightarrow> bytes) \<Rightarrow> 's object_backend \<Rightarrow> ('s \<Rightarrow> string \<Rightarrow> bytes option) \<Rightarrow> 's \<Rightarrow> bool" where
  "object_ok object_path sha256 b objects s \<longleftrightarrow>
     (\<forall>d data. digest_wf d \<longrightarrow> objects s (object_key object_path lower_hex b d) = Some data \<longrightarrow>
        sha256 data = hash d \<and> length data < 2 ^ 63)"

lemma object_key_inject:
  "object_path_ok object_path (ob_prefix b) \<Longrightarrow>
   object_key object_path lower_hex b d = object_key object_path lower_hex b e \<longleftrightarrow> hash d = hash e"
  by (auto simp: object_key_def object_path_ok_def hash_to_string_def)

lemma object_ok_frame: "objects s' = objects s \<Longrightarrow> object_ok object_path sha256 b objects s' = object_ok object_path sha256 b objects s"
  by (simp add: object_ok_def)

lemma object_ok_set:
  assumes "object_path_ok object_path (ob_prefix b)" "object_ok object_path sha256 b objects s"
    and "changes_to objects (object_key object_path lower_hex b d) v s r"
    and "\<And>data. v = Some data \<Longrightarrow> sha256 data = hash d \<and> length data < 2 ^ 63"
  shows "object_ok object_path sha256 b objects (snd r)"
  using assms(2-4) by (auto simp: object_ok_def changes_to_def object_key_inject [OF assms(1)] split: if_splits)

lemma has_size_iff: "digest_wf d \<Longrightarrow> length b < 2 ^ 63 \<Longrightarrow> has_size d b \<longleftrightarrow> dsize d = int (length b)"
  using declared_size_iff [of d "length b"] by (auto simp: has_size_def)

lemma verify_blob_Inr:
  "length data < 2 ^ 63 \<Longrightarrow> verify_blob hex_encode sha256 d data = Inr u \<longleftrightarrow> dsize d = int (length data) \<and> sha256 data = hash d"
  by (auto simp: verify_blob_def verify_hash_def signed64_small)

lemma collect_stream_Inr: "collect_stream hex_encode d stream data = Inr b \<Longrightarrow> \<exists>c. stream_data stream = Some c \<and> b = data @ c"
  by (induction hex_encode d stream data rule: collect_stream.induct) (auto split: if_splits)

lemma upload_parts_frame:
  assumes "object_store_ok store objects"
  shows "upload_parts store key stream data s = (r, s') \<Longrightarrow>
    objects s' = objects s \<and> (\<forall>b. r = Inr b \<longrightarrow> (\<exists>c. stream_data stream = Some c \<and> b = data @ c))"
proof (induction stream arbitrary: data s)
  case (Cons x stream)
  show ?case
  proof (cases x)
    case (Inr chunk)
    obtain q s1 where w: "os_write_part store key chunk s = (q, s1)" by fastforce
    have "objects s1 = objects s" by (rule keepsD [OF object_store_parts(9) [OF assms] w])
    then show ?thesis using Cons.prems Cons.IH [of "data @ chunk" s1] w Inr by (cases q) auto
  qed (use Cons.prems in auto)
qed auto


lemma object_contains_law:
  assumes "object_store_ok (ob_store b) objects" "object_contains object_path lower_hex b d s = (r, s')"
  shows "objects s' = objects s \<and> (\<forall>p. r = Inr p \<longrightarrow> p = present (object_holds object_path b objects) s d)"
proof -
  obtain q s1 where h: "os_head (ob_store b) (object_key object_path lower_hex b d) s = (q, s1)" by fastforce
  note D = getsD [OF object_store_parts(5) [OF assms(1)] h]
  show ?thesis
    using assms(2) D by (auto simp: object_contains_def has_object_def h present_def object_holds_def has_size_def
        split: sum.splits os_error.splits)
qed

lemma object_read_law:
  assumes "object_store_ok (ob_store b) objects" "object_read object_path lower_hex b d s = (r, s')"
  shows "objects s' = objects s \<and> (\<forall>x. r = Inr x \<longrightarrow> x = object_holds object_path b objects s d)"
proof -
  obtain q s1 where h: "os_get (ob_store b) (object_key object_path lower_hex b d) s = (q, s1)" by fastforce
  note D = getsD [OF object_store_parts(4) [OF assms(1)] h]
  show ?thesis
    using assms(2) D by (auto simp: object_read_def h object_holds_def split: sum.splits os_error.splits)
qed

lemma object_stream_law:
  assumes "object_store_ok (ob_store b) objects" "object_ok object_path sha256 b objects s" "digest_wf d"
    and r: "object_read_stream object_path lower_hex b d offset limit s = (r, s')"
  shows "objects s' = objects s \<and> (r = Inr None \<longrightarrow> \<not> present (object_holds object_path b objects) s d) \<and>
    (\<forall>stream v data. r = Inr (Some stream) \<longrightarrow> stream_data stream = Some data \<longrightarrow>
       object_holds object_path b objects s d = Some v \<longrightarrow> has_size d v \<longrightarrow> data = slice offset limit v)"
proof -
  define stop where "stop = (case limit of None \<Rightarrow> nat (max (dsize d) 0) | Some l \<Rightarrow> min (offset + l) (nat (max (dsize d) 0)))"
  let ?key = "object_key object_path lower_hex b d"
  have len: "dsize d = int (length v)" if "objects s ?key = Some v" "has_size d v" for v
    using that assms(2,3) has_size_iff [OF assms(3), of v] by (auto simp: object_ok_def)
  have sl: "slice offset limit v = take (stop - offset) (drop offset v)" if "dsize d = int (length v)" for v
    by (auto simp: slice_def stop_def that min_def split: option.split)
  show ?thesis
  proof (cases "offset \<ge> stop")
    case True
    obtain q s1 where c: "object_contains object_path lower_hex b d s = (q, s1)" by fastforce
    show ?thesis
      using r True object_contains_law [OF assms(1) c] len sl
      by (auto simp: object_read_stream_def stop_def [symmetric] c Let_def object_holds_def split: sum.splits if_splits)
  next
    case False
    obtain q s1 where c: "os_get_range (ob_store b) ?key offset stop s = (q, s1)" by fastforce
    have lt: "offset < stop" using False by simp
    note D = getsD [OF object_store_parts(6) [OF assms(1) lt] c]
    show ?thesis
      using r False D len sl
      by (auto simp: object_read_stream_def stop_def [symmetric] c Let_def object_holds_def present_def os_data_def
          split: sum.splits os_error.splits)
  qed
qed

lemma object_checks_law:
  assumes "object_store_ok (ob_store b) objects"
  shows "object_checks (object_contains object_path lower_hex b) ds s = (r, s') \<Longrightarrow>
    objects s' = objects s \<and> (\<forall>ps. r = Inr ps \<longrightarrow> ps = map (present (object_holds object_path b objects) s) ds)"
proof (induction ds arbitrary: s r s')
  case (Cons d ds)
  obtain q s1 where c: "object_contains object_path lower_hex b d s = (q, s1)" by fastforce
  note law = object_contains_law [OF assms c]
  obtain q' s2 where c': "object_checks (object_contains object_path lower_hex b) ds s1 = (q', s2)" by fastforce
  have "objects s2 = objects s1 \<and> (\<forall>ps. q' = Inr ps \<longrightarrow> ps = map (present (object_holds object_path b objects) s1) ds)"
    by (rule Cons.IH [OF c'])
  moreover have "present (object_holds object_path b objects) s1 = present (object_holds object_path b objects) s"
    using law by (simp add: present_def object_holds_def fun_eq_iff)
  ultimately show ?case using Cons.prems law c c' by (auto split: sum.splits)
qed simp

lemma filter_zip_map: "map fst (filter (\<lambda>(d, p). \<not> p) (zip ds (map P ds))) = filter (\<lambda>d. \<not> P d) ds"
  by (induction ds) auto

lemma object_missing_law:
  assumes "object_store_ok (ob_store b) objects" "object_find_missing object_path lower_hex b ds s = (r, s')"
  shows "objects s' = objects s \<and>
    (\<forall>ms. r = Inr ms \<longrightarrow> ms = filter (\<lambda>d. \<not> present (object_holds object_path b objects) s d) ds)"
proof -
  obtain q s1 where c: "object_checks (object_contains object_path lower_hex b) ds s = (q, s1)" by fastforce
  show ?thesis
    using assms(2) object_checks_law [OF assms(1) c] by (auto simp: object_find_missing_def c filter_zip_map split: sum.splits)
qed

text \<open>A write puts verified bytes or, when it fails, possibly nothing.\<close>

definition put_step ::
  "(bytes \<Rightarrow> bytes) \<Rightarrow> ('s \<Rightarrow> string \<Rightarrow> bytes option) \<Rightarrow> string \<Rightarrow> digest_info \<Rightarrow> 's \<Rightarrow> unit cas_result \<times> 's \<Rightarrow> bool" where
  "put_step sha256 objects key d s r \<longleftrightarrow>
     fst r \<noteq> Inr () \<and> objects (snd r) = objects s \<or>
     (\<exists>data. objects (snd r) = (objects s)(key \<mapsto> data) \<and> sha256 data = hash d \<and> dsize d = int (length data) \<and> length data < 2 ^ 63)"

lemma object_write_put:
  assumes "object_store_ok (ob_store b) objects" "length data < 2 ^ 63"
  shows "put_step sha256 objects (object_key object_path lower_hex b d) d s (object_write object_path lower_hex sha256 b d data s)"
proof -
  obtain q s1 where p: "os_put (ob_store b) (object_key object_path lower_hex b d) data s = (q, s1)" by fastforce
  note D = putsD [OF object_store_parts(1) [OF assms(1)] p]
  show ?thesis
    using D verify_blob_Inr [OF assms(2), of lower_hex sha256 d "()"] assms(2)
    by (auto simp: put_step_def object_write_def p changes_to_def split: sum.splits)
qed

lemma object_write_stream_put:
  assumes ok: "object_store_ok (ob_store b) objects" and len: "\<And>data. stream_data stream = Some data \<Longrightarrow> length data < 2 ^ 63"
  shows "put_step sha256 objects (object_key object_path lower_hex b d) d s (object_write_stream object_path lower_hex sha256 b d stream s)"
proof (cases "dsize d \<le> SINGLE_PUT_MAX_BYTES")
  case True
  show ?thesis
  proof (cases "collect_stream lower_hex d stream []")
    case (Inr data)
    then have "length data < 2 ^ 63" using collect_stream_Inr [OF Inr] len by auto
    then show ?thesis using object_write_put [OF ok] True Inr by (simp add: object_write_stream_def)
  qed (use True in \<open>simp add: object_write_stream_def put_step_def\<close>)
next
  case False
  let ?key = "object_key object_path lower_hex b d"
  obtain q1 s1 where m: "os_put_multipart (ob_store b) ?key s = (q1, s1)" by fastforce
  have f1: "objects s1 = objects s" by (rule keepsD [OF object_store_parts(7) [OF ok] m])
  obtain q2 s2 where u: "upload_parts (ob_store b) ?key stream [] s1 = (q2, s2)" by fastforce
  note up = upload_parts_frame [OF ok u]
  have ab: "objects (os_abort (ob_store b) ?key s2) = objects s2"
    using object_store_parts(8) [OF ok] by (simp add: keeps_def)
  show ?thesis
  proof (cases q2)
    case (Inr data)
    obtain q3 s3 where fin: "os_finish (ob_store b) ?key data s2 = (q3, s3)" by fastforce
    have "length data < 2 ^ 63" using up Inr len by auto
    then show ?thesis
      using False m u f1 up ab Inr putsD [OF object_store_parts(2) [OF ok] fin]
      by (auto simp: object_write_stream_def put_step_def Let_def verify_hash_def changes_to_def signed64_small fin
          split: sum.splits)
  qed (use False m u f1 up ab in \<open>auto simp: object_write_stream_def put_step_def Let_def split: sum.splits\<close>)
qed

lemma put_step_ok:
  assumes "object_path_ok object_path (ob_prefix b)" "object_ok object_path sha256 b objects s"
    and "put_step sha256 objects (object_key object_path lower_hex b d) d s r"
  shows "object_ok object_path sha256 b objects (snd r)"
  using assms(2,3) by (auto simp: put_step_def object_ok_def object_key_inject [OF assms(1)] split: if_splits)

lemma put_step_stores:
  assumes "put_step sha256 objects (object_key object_path lower_hex b d) d s r" "fst r = Inr ()" "digest_wf d"
  shows "present (object_holds object_path b objects) (snd r) d"
proof -
  obtain data where "objects (snd r) = (objects s)(object_key object_path lower_hex b d \<mapsto> data)" "dsize d = int (length data)" "length data < 2 ^ 63"
    using assms(1,2) unfolding put_step_def by blast
  then show ?thesis using has_size_iff [OF assms(3), of data] by (simp add: present_iff object_holds_def)
qed

lemma put_step_keeps:
  assumes "object_path_ok object_path (ob_prefix b)" "put_step sha256 objects (object_key object_path lower_hex b d) d s r"
    and "present (object_holds object_path b objects) s e" "hash d = hash e \<Longrightarrow> d = e" "digest_wf e"
  shows "present (object_holds object_path b objects) (snd r) e"
proof (cases "hash d = hash e \<and> objects (snd r) \<noteq> objects s")
  case True
  then obtain data where "objects (snd r) = (objects s)(object_key object_path lower_hex b e \<mapsto> data)" "dsize e = int (length data)" "length data < 2 ^ 63"
    using assms(2,4) unfolding put_step_def by blast
  then show ?thesis using has_size_iff [OF assms(5), of data] by (simp add: present_iff object_holds_def)
next
  case False
  then have "object_holds object_path b objects (snd r) e = object_holds object_path b objects s e"
    using assms(2) object_key_inject [OF assms(1), of d e] unfolding put_step_def object_holds_def by auto
  then show ?thesis using assms(3) by (simp add: present_def)
qed

lemma object_delete_step:
  assumes "object_store_ok (ob_store b) objects" "object_delete object_path lower_hex b d s = (r, s')"
  shows "objects s' = (objects s)(object_key object_path lower_hex b d := None) \<or> r \<noteq> Inr () \<and> objects s' = objects s"
proof -
  obtain q s1 where h: "os_delete (ob_store b) (object_key object_path lower_hex b d) s = (q, s1)" by fastforce
  note D = deletesD [OF object_store_parts(3) [OF assms(1)] h]
  show ?thesis
    using assms(2) D by (auto simp: object_delete_def h changes_to_def fun_upd_idem split: sum.splits os_error.splits)
qed

lemma object_ops_simps [simp]:
  "cb_contains (object_ops object_path hex_encode sha256 b) = object_contains object_path hex_encode b"
  "cb_read (object_ops object_path hex_encode sha256 b) = object_read object_path hex_encode b"
  "cb_read_stream (object_ops object_path hex_encode sha256 b) = object_read_stream object_path hex_encode b"
  "cb_write (object_ops object_path hex_encode sha256 b) = object_write object_path hex_encode sha256 b"
  "cb_write_stream (object_ops object_path hex_encode sha256 b) = object_write_stream object_path hex_encode sha256 b"
  "cb_find_missing (object_ops object_path hex_encode sha256 b) = object_find_missing object_path hex_encode b"
  "cb_delete (object_ops object_path hex_encode sha256 b) = object_delete object_path hex_encode b"
  by (simp_all add: object_ops_def)

lemma object_cas_backend:
  assumes ok: "object_store_ok (ob_store b) objects" and path: "object_path_ok object_path (ob_prefix b)"
  shows "cas_backend (object_ops object_path lower_hex sha256 b) sha256 (object_ok object_path sha256 b objects)
    (object_holds object_path b objects)"
proof (intro cas_backend.intro cas_backend_axioms.intro cas_lookup.intro, unfold object_ops_simps, goal_cases)
  case (1 s d v)
  then show ?case by (auto simp: object_ok_def object_holds_def)
next
  case (2 s d r s')
  then show ?case
    using object_contains_law [OF ok, of object_path d s r s'] object_ok_frame [of objects s' s] by (simp add: object_holds_def fun_eq_iff)
next
  case (3 s d v s')
  then show ?case
    using object_read_law [OF ok, of object_path d s v s'] object_ok_frame [of objects s' s] by (simp add: object_holds_def fun_eq_iff)
next
  case (4 s d offset limit r s')
  then show ?case
    using object_stream_law [OF ok 4] object_ok_frame [of objects s' s] by (auto simp: object_holds_def fun_eq_iff)
next
  case (5 s ds q s')
  then show ?case
    using object_missing_law [OF ok 5(3)] object_ok_frame [of objects s' s] by (simp add: object_holds_def fun_eq_iff)
next
  case (6 s d v)
  then show ?case by (intro put_step_ok [OF path 6(1) object_write_put [OF ok 6(3)]])
next
  case (7 s d stream)
  then show ?case by (intro put_step_ok [OF path 7(1) object_write_stream_put [OF ok 7(3)]])
next
  case (8 s d w s')
  then show ?case
    using object_delete_step [OF ok 8(3)] by (auto simp: object_ok_def object_holds_def split: if_splits)
qed

lemma object_durable:
  assumes ok: "object_store_ok (ob_store b) objects" and path: "object_path_ok object_path (ob_prefix b)"
  shows "durable_backend (object_ops object_path lower_hex sha256 b) sha256 (object_ok object_path sha256 b objects)
    (object_holds object_path b objects)"
proof (intro durable_backend.intro durable_backend_axioms.intro object_cas_backend [OF assms], unfold object_ops_simps, goal_cases)
  case (1 s d v s')
  then show ?case using put_step_stores [OF object_write_put [OF ok 1(3)]] 1 by (metis fst_conv snd_conv)
next
  case (2 s d stream s')
  then show ?case using put_step_stores [OF object_write_stream_put [OF ok 2(3)]] 2 by (metis fst_conv snd_conv)
next
  case (3 s d e v)
  then show ?case by (intro put_step_keeps [OF path object_write_put [OF ok 3(4)] 3(5,6,3)])
next
  case (4 s d e stream)
  then show ?case by (intro put_step_keeps [OF path object_write_stream_put [OF ok 4(4)] 4(5,6,3)])
next
  case (5 s d e)
  obtain r s' where r: "object_delete object_path lower_hex b d s = (r, s')" by fastforce
  show ?case
    using object_delete_step [OF ok r] 5(4,5) r by (auto simp: present_def object_holds_def object_key_inject [OF path])
qed

section \<open>An in-memory store\<close>

definition memory_store :: "(string \<Rightarrow> bytes option) object_store" where
  "memory_store =
     \<lparr>os_put = (\<lambda>key data m. (Inr (), m(key \<mapsto> data))),
      os_get = (\<lambda>key m. (case m key of None \<Rightarrow> Inl (OsNotFound key) | Some b \<Rightarrow> Inr (Inr b), m)),
      os_get_range = (\<lambda>key i j m. (case m key of None \<Rightarrow> Inl (OsNotFound key)
        | Some b \<Rightarrow> Inr [Inr (take (j - i) (drop i b))], m)),
      os_head = (\<lambda>key m. (case m key of None \<Rightarrow> Inl (OsNotFound key) | Some b \<Rightarrow> Inr (length b), m)),
      os_delete = (\<lambda>key m. (if m key = None then Inl (OsNotFound key) else Inr (), m(key := None))),
      os_put_multipart = (\<lambda>key m. (Inr (), m)), os_write_part = (\<lambda>key chunk m. (Inr (), m)),
      os_finish = (\<lambda>key data m. (Inr (), m(key \<mapsto> data))), os_abort = (\<lambda>key m. m)\<rparr>"

lemma memory_store_ok: "object_store_ok memory_store (\<lambda>m. m)"
  by (auto simp: object_store_ok_def memory_store_def puts_def gets_def deletes_def keeps_def changes_to_def os_data_def map_err_def
      fun_upd_idem split: option.split)

lemma memory_path_ok: "object_path_ok (\<lambda>p. p) prefix"
  by (auto simp: object_path_ok_def intro: hex_inject [OF lower_hex_is_codec])

definition memory_backend :: "string \<Rightarrow> (string \<Rightarrow> bytes option) object_backend" where
  "memory_backend prefix = object_new memory_store prefix"

interpretation memory: durable_backend "object_ops (\<lambda>p. p) lower_hex sha256 (memory_backend prefix)" sha256
  "object_ok (\<lambda>p. p) sha256 (memory_backend prefix) (\<lambda>m. m)" "object_holds (\<lambda>p. p) (memory_backend prefix) (\<lambda>m. m)"
  by (rule object_durable) (simp_all add: memory_backend_def object_new_def Let_def memory_store_ok memory_path_ok)

end
