(* ===== verification/Tiered_Cas.thy ===== *)
theory Tiered_Cas
  imports Object_Cas
begin

text \<open>
  \<open>cas/backends/tiered.rs\<close>: the disk backend in front of a durable remote one. The remote tier is
  any backend, a record of operations. \<open>lops i\<close> are the operations of the disk at its \<open>i\<close>-th use
  within a call, since each may meet other faults of the file system. A call runs to its end
  before the next starts: the lock per blob being filled, which makes concurrent reads share one
  download, is always free. The remote tier keeps what it stores, so an acknowledged write is
  readable through any later disk.
\<close>

section \<open>The backend\<close>

record 'r tiered =
  t_local :: disk
  t_remote :: 'r

definition tiered_new :: "disk \<Rightarrow> 'r \<Rightarrow> 'r tiered" where
  "tiered_new local_tier remote_tier = \<lparr>t_local = local_tier, t_remote = remote_tier\<rparr>"

definition copy_from_remote ::
  "(nat \<Rightarrow> disk cas_ops) \<Rightarrow> 'r cas_ops \<Rightarrow> digest_info \<Rightarrow> 'r tiered \<Rightarrow> bool cas_result \<times> 'r tiered" where
  "copy_from_remote lops rops d t =
     (case cb_contains (lops 1) d (t_local t) of
        (Inl e, l) \<Rightarrow> (Inl e, t\<lparr>t_local := l\<rparr>)
      | (Inr True, l) \<Rightarrow> (Inr True, t\<lparr>t_local := l\<rparr>)
      | (Inr False, l) \<Rightarrow>
          (case cb_read_stream rops d 0 None (t_remote t) of
             (Inl e, r) \<Rightarrow> (Inl e, \<lparr>t_local = l, t_remote = r\<rparr>)
           | (Inr None, r) \<Rightarrow> (Inr False, \<lparr>t_local = l, t_remote = r\<rparr>)
           | (Inr (Some stream), r) \<Rightarrow>
               (case cb_write_stream (lops 2) d stream l of
                  (Inl e, l2) \<Rightarrow> (Inl e, \<lparr>t_local = l2, t_remote = r\<rparr>)
                | (Inr _, l2) \<Rightarrow> (Inr True, \<lparr>t_local = l2, t_remote = r\<rparr>))))"

definition fill_local ::
  "(nat \<Rightarrow> disk cas_ops) \<Rightarrow> 'r cas_ops \<Rightarrow> digest_info \<Rightarrow> 'r tiered \<Rightarrow> bool cas_result \<times> 'r tiered" where
  "fill_local lops rops d t =
     (case cb_contains (lops 0) d (t_local t) of
        (Inl e, l) \<Rightarrow> (Inl e, t\<lparr>t_local := l\<rparr>)
      | (Inr True, l) \<Rightarrow> (Inr True, t\<lparr>t_local := l\<rparr>)
      | (Inr False, l) \<Rightarrow> copy_from_remote lops rops d (t\<lparr>t_local := l\<rparr>))"

definition tiered_contains ::
  "(nat \<Rightarrow> disk cas_ops) \<Rightarrow> 'r cas_ops \<Rightarrow> digest_info \<Rightarrow> 'r tiered \<Rightarrow> bool cas_result \<times> 'r tiered" where
  "tiered_contains lops rops d t =
     (case cb_contains (lops 0) d (t_local t) of
        (Inl e, l) \<Rightarrow> (Inl e, t\<lparr>t_local := l\<rparr>)
      | (Inr True, l) \<Rightarrow> (Inr True, t\<lparr>t_local := l\<rparr>)
      | (Inr False, l) \<Rightarrow>
          (case cb_contains rops d (t_remote t) of (q, r) \<Rightarrow> (q, \<lparr>t_local = l, t_remote = r\<rparr>)))"

definition tiered_read ::
  "(nat \<Rightarrow> disk cas_ops) \<Rightarrow> 'r cas_ops \<Rightarrow> digest_info \<Rightarrow> 'r tiered \<Rightarrow> bytes option cas_result \<times> 'r tiered" where
  "tiered_read lops rops d t =
     (case cb_read (lops 3) d (t_local t) of
        (Inl e, l) \<Rightarrow> (Inl e, t\<lparr>t_local := l\<rparr>)
      | (Inr (Some data), l) \<Rightarrow> (Inr (Some data), t\<lparr>t_local := l\<rparr>)
      | (Inr None, l) \<Rightarrow>
          (case fill_local lops rops d (t\<lparr>t_local := l\<rparr>) of
             (Inl e, t1) \<Rightarrow> (Inl e, t1)
           | (Inr False, t1) \<Rightarrow> (Inr None, t1)
           | (Inr True, t1) \<Rightarrow>
               (case cb_read (lops 4) d (t_local t1) of (q, l2) \<Rightarrow> (q, t1\<lparr>t_local := l2\<rparr>))))"

definition tiered_read_stream ::
  "(nat \<Rightarrow> disk cas_ops) \<Rightarrow> 'r cas_ops \<Rightarrow> digest_info \<Rightarrow> nat \<Rightarrow> nat option \<Rightarrow> 'r tiered \<Rightarrow>
   blob_stream option cas_result \<times> 'r tiered" where
  "tiered_read_stream lops rops d offset limit t =
     (case fill_local lops rops d t of
        (Inl e, t1) \<Rightarrow> (Inl e, t1)
      | (Inr False, t1) \<Rightarrow> (Inr None, t1)
      | (Inr True, t1) \<Rightarrow>
          (case cb_read_stream (lops 3) d offset limit (t_local t1) of (q, l) \<Rightarrow> (q, t1\<lparr>t_local := l\<rparr>)))"

text \<open>\<open>local.and(remote)\<close>\<close>

definition both_results :: "unit cas_result \<Rightarrow> unit cas_result \<Rightarrow> unit cas_result" where
  "both_results a b = (case a of Inl e \<Rightarrow> Inl e | Inr _ \<Rightarrow> b)"

definition tiered_write ::
  "(nat \<Rightarrow> disk cas_ops) \<Rightarrow> 'r cas_ops \<Rightarrow> digest_info \<Rightarrow> bytes \<Rightarrow> 'r tiered \<Rightarrow> unit cas_result \<times> 'r tiered" where
  "tiered_write lops rops d data t =
     (case (cb_write (lops 0) d data (t_local t), cb_write rops d data (t_remote t)) of
        ((q, l), (q', r)) \<Rightarrow> (both_results q q', \<lparr>t_local = l, t_remote = r\<rparr>))"

text \<open>The stream of a blob too large for one upload is not sent when the remote tier has the blob.\<close>

definition upload_stored ::
  "(nat \<Rightarrow> disk cas_ops) \<Rightarrow> 'r cas_ops \<Rightarrow> (bytes \<Rightarrow> string) \<Rightarrow> digest_info \<Rightarrow> 'r tiered \<Rightarrow> unit cas_result \<times> 'r tiered" where
  "upload_stored lops rops hex_encode d t =
     (case cb_read_stream (lops 1) d 0 None (t_local t) of
        (Inl e, l) \<Rightarrow> (Inl e, t\<lparr>t_local := l\<rparr>)
      | (Inr None, l) \<Rightarrow> (Inl (NotFound (hash_to_string hex_encode d)), t\<lparr>t_local := l\<rparr>)
      | (Inr (Some stored), l) \<Rightarrow>
          (case cb_write_stream rops d stored (t_remote t) of (q, r) \<Rightarrow> (q, \<lparr>t_local = l, t_remote = r\<rparr>)))"

definition tiered_write_stream ::
  "(nat \<Rightarrow> disk cas_ops) \<Rightarrow> 'r cas_ops \<Rightarrow> (bytes \<Rightarrow> string) \<Rightarrow> digest_info \<Rightarrow> blob_stream \<Rightarrow> 'r tiered \<Rightarrow>
   unit cas_result \<times> 'r tiered" where
  "tiered_write_stream lops rops hex_encode d stream t =
     (case cb_write_stream (lops 0) d stream (t_local t) of
        (Inl e, l) \<Rightarrow> (Inl e, t\<lparr>t_local := l\<rparr>)
      | (Inr _, l) \<Rightarrow>
          if dsize d > SINGLE_PUT_MAX_BYTES
          then (case cb_contains rops d (t_remote t) of
                  (Inl e, r) \<Rightarrow> (Inl e, \<lparr>t_local = l, t_remote = r\<rparr>)
                | (Inr True, r) \<Rightarrow> (Inr (), \<lparr>t_local = l, t_remote = r\<rparr>)
                | (Inr False, r) \<Rightarrow> upload_stored lops rops hex_encode d \<lparr>t_local = l, t_remote = r\<rparr>)
          else upload_stored lops rops hex_encode d (t\<lparr>t_local := l\<rparr>))"

definition tiered_find_missing ::
  "(nat \<Rightarrow> disk cas_ops) \<Rightarrow> 'r cas_ops \<Rightarrow> digest_info list \<Rightarrow> 'r tiered \<Rightarrow> digest_info list cas_result \<times> 'r tiered" where
  "tiered_find_missing lops rops ds t =
     (case cb_find_missing (lops 0) ds (t_local t) of
        (Inl e, l) \<Rightarrow> (Inl e, t\<lparr>t_local := l\<rparr>)
      | (Inr [], l) \<Rightarrow> (Inr [], t\<lparr>t_local := l\<rparr>)
      | (Inr not_local, l) \<Rightarrow>
          (case cb_find_missing rops not_local (t_remote t) of (q, r) \<Rightarrow> (q, \<lparr>t_local = l, t_remote = r\<rparr>)))"

definition tiered_delete ::
  "(nat \<Rightarrow> disk cas_ops) \<Rightarrow> 'r cas_ops \<Rightarrow> digest_info \<Rightarrow> 'r tiered \<Rightarrow> unit cas_result \<times> 'r tiered" where
  "tiered_delete lops rops d t =
     (case (cb_delete (lops 0) d (t_local t), cb_delete rops d (t_remote t)) of
        ((q, l), (q', r)) \<Rightarrow> (both_results q q', \<lparr>t_local = l, t_remote = r\<rparr>))"

definition tiered_count_entries :: "'r tiered \<Rightarrow> u64" where
  "tiered_count_entries t = disk_count_entries (t_local t)"

definition tiered_size_bytes :: "'r tiered \<Rightarrow> u64" where
  "tiered_size_bytes t = size_bytes (t_local t)"

definition tiered_local_path ::
  "(nat \<Rightarrow> disk cas_ops) \<Rightarrow> 'r cas_ops \<Rightarrow> digest_info \<Rightarrow> 'r tiered \<Rightarrow> path option cas_result \<times> 'r tiered" where
  "tiered_local_path lops rops d t =
     (case fill_local lops rops d t of
        (Inl e, t1) \<Rightarrow> (Inl e, t1)
      | (Inr False, t1) \<Rightarrow> (Inr None, t1)
      | (Inr True, t1) \<Rightarrow>
          (case cb_local_path (lops 3) d (t_local t1) of (q, l) \<Rightarrow> (q, t1\<lparr>t_local := l\<rparr>)))"

section \<open>Runs\<close>

datatype tiered_op =
    TContains digest_info | TRead digest_info | TReadStream digest_info nat "nat option"
  | TWrite digest_info bytes | TWriteStream digest_info blob_stream
  | TFindMissing "digest_info list" | TDelete digest_info | TLocalPath digest_info | TMove disk

fun tiered_step ::
  "(nat \<Rightarrow> disk cas_ops) \<Rightarrow> 'r cas_ops \<Rightarrow> (bytes \<Rightarrow> string) \<Rightarrow> tiered_op \<Rightarrow> 'r tiered \<Rightarrow> 'r tiered" where
  "tiered_step lops rops hex_encode (TContains d) t = snd (tiered_contains lops rops d t)"
| "tiered_step lops rops hex_encode (TRead d) t = snd (tiered_read lops rops d t)"
| "tiered_step lops rops hex_encode (TReadStream d offset limit) t = snd (tiered_read_stream lops rops d offset limit t)"
| "tiered_step lops rops hex_encode (TWrite d data) t = snd (tiered_write lops rops d data t)"
| "tiered_step lops rops hex_encode (TWriteStream d stream) t = snd (tiered_write_stream lops rops hex_encode d stream t)"
| "tiered_step lops rops hex_encode (TFindMissing ds) t = snd (tiered_find_missing lops rops ds t)"
| "tiered_step lops rops hex_encode (TDelete d) t = snd (tiered_delete lops rops d t)"
| "tiered_step lops rops hex_encode (TLocalPath d) t = snd (tiered_local_path lops rops d t)"
| "tiered_step lops rops hex_encode (TMove other) t = t\<lparr>t_local := other\<rparr>"

section \<open>What the remote tier keeps\<close>

text \<open>An operation that neither removes the blob of \<open>e\<close> nor writes its hash with another size.\<close>

fun op_spares :: "(nat \<Rightarrow> disk cas_ops) \<Rightarrow> digest_info \<Rightarrow> 'r tiered \<Rightarrow> tiered_op \<Rightarrow> bool" where
  "op_spares lops e t (TContains d) = digest_wf d"
| "op_spares lops e t (TRead d) = digest_wf d"
| "op_spares lops e t (TReadStream d offset limit) = digest_wf d"
| "op_spares lops e t (TWrite d data) = (digest_wf d \<and> length data < 2 ^ 63 \<and> (hash d = hash e \<longrightarrow> d = e))"
| "op_spares lops e t (TWriteStream d stream) =
     (digest_wf d \<and> (hash d = hash e \<longrightarrow> d = e) \<and>
      (case cb_read_stream (lops 1) d 0 None (snd (cb_write_stream (lops 0) d stream (t_local t))) of
         (Inr (Some stored), _) \<Rightarrow> (case stream_data stored of None \<Rightarrow> True | Some b \<Rightarrow> length b < 2 ^ 63)
       | _ \<Rightarrow> True))"
| "op_spares lops e t (TFindMissing ds) = (\<forall>d \<in> set ds. digest_wf d)"
| "op_spares lops e t (TDelete d) = (digest_wf d \<and> hash d \<noteq> hash e)"
| "op_spares lops e t (TLocalPath d) = digest_wf d"
| "op_spares lops e t (TMove k) = True"

context durable_backend
begin

definition keeps_blob :: "digest_info \<Rightarrow> 's \<Rightarrow> bool" where
  "keeps_blob e r \<longleftrightarrow> ok r \<and> present holds r e"

lemma keeps_cong: "keeps_blob e r \<Longrightarrow> ok r' \<Longrightarrow> holds r' = holds r \<Longrightarrow> keeps_blob e r'"
  by (simp add: keeps_blob_def present_def)

lemma keeps_contains: "keeps_blob e r \<Longrightarrow> digest_wf d \<Longrightarrow> cb_contains ops d r = (q, r') \<Longrightarrow> keeps_blob e r'"
  using contains_law [of r d q r'] keeps_cong [of e r r'] by (simp add: keeps_blob_def)

lemma keeps_stream: "keeps_blob e r \<Longrightarrow> digest_wf d \<Longrightarrow> cb_read_stream ops d offset limit r = (q, r') \<Longrightarrow> keeps_blob e r'"
  using stream_law [of r d offset limit q r'] keeps_cong [of e r r'] by (simp add: keeps_blob_def)

lemma keeps_fill:
  assumes "keeps_blob e (t_remote t)" "digest_wf d" "fill_local lops ops d t = (q, t')"
  shows "keeps_blob e (t_remote t')"
proof -
  have "keeps_blob e (t_remote (snd (copy_from_remote lops ops d u)))" if "t_remote u = t_remote t" for u
    using keeps_stream [OF assms(1,2)] assms(1) that
    by (auto simp: copy_from_remote_def split: prod.split sum.split bool.split option.split)
  then have "keeps_blob e (t_remote (snd (fill_local lops ops d t)))"
    using assms(1) by (auto simp: fill_local_def split: prod.split sum.split bool.split)
  then show ?thesis using assms(3) by simp
qed

lemma keeps_upload:
  assumes "keeps_blob e (t_remote t)" "digest_wf d" "digest_wf e" "hash d = hash e \<longrightarrow> d = e"
    and "case cb_read_stream (lops 1) d 0 None (t_local t) of
         (Inr (Some stored), _) \<Rightarrow> (case stream_data stored of None \<Rightarrow> True | Some b \<Rightarrow> length b < 2 ^ 63)
       | _ \<Rightarrow> True"
  shows "keeps_blob e (t_remote (snd (upload_stored lops ops hex_encode d t)))"
proof -
  obtain q l where r: "cb_read_stream (lops 1) d 0 None (t_local t) = (q, l)" by fastforce
  have "keeps_blob e (snd (cb_write_stream ops d stored (t_remote t)))" if "q = Inr (Some stored)" for stored
    using that assms(5) r write_stream_ok [OF _ assms(2), of "t_remote t" stored] assms(1-4)
      write_stream_keeps [of "t_remote t" d e stored]
    by (auto simp: keeps_blob_def split: option.splits)
  then show ?thesis
    unfolding upload_stored_def r using assms(1) by (auto split: prod.split sum.split option.split)
qed

lemma keeps_step:
  assumes inv: "keeps_blob e (t_remote t)" and e: "digest_wf e" and sp: "op_spares lops e t op"
    and sub: "\<And>ds k ms k'. cb_find_missing (lops 0) ds k = (Inr ms, k') \<Longrightarrow> set ms \<subseteq> set ds"
  shows "keeps_blob e (t_remote (tiered_step lops ops hex_encode op t))"
proof (cases op)
  case (TContains d)
  then show ?thesis
    using inv sp keeps_contains [of e "t_remote t" d]
    by (auto simp: tiered_contains_def split: prod.split sum.split bool.split)
next
  case (TRead d)
  then show ?thesis
    using inv sp keeps_fill [of e "t\<lparr>t_local := l\<rparr>" d lops for l]
    by (auto simp: tiered_read_def split: prod.split sum.split bool.split option.split)
next
  case (TReadStream d offset limit)
  then show ?thesis
    using inv sp keeps_fill [of e t d lops] by (auto simp: tiered_read_stream_def split: prod.split sum.split bool.split)
next
  case (TWrite d data)
  then show ?thesis
    using inv sp e write_ok [of "t_remote t" d data] write_keeps [of "t_remote t" d e data]
    by (auto simp: tiered_write_def keeps_blob_def split: prod.split)
next
  case (TWriteStream d stream)
  obtain q l where w: "cb_write_stream (lops 0) d stream (t_local t) = (q, l)" by fastforce
  obtain p r where c: "cb_contains ops d (t_remote t) = (p, r)" by fastforce
  have wf: "digest_wf d" "hash d = hash e \<longrightarrow> d = e" using sp TWriteStream by auto
  note up = keeps_upload [OF _ wf(1) e wf(2), of u lops hex_encode for u]
  show ?thesis
    using sp TWriteStream w c inv keeps_contains [OF inv wf(1) c] up [of "t\<lparr>t_local := l\<rparr>"] up [of "\<lparr>t_local = l, t_remote = r\<rparr>"]
    by (auto simp: tiered_write_stream_def split: sum.split bool.split)
next
  case (TFindMissing ds)
  obtain q l where w: "cb_find_missing (lops 0) ds (t_local t) = (q, l)" by fastforce
  have "keeps_blob e r" if "q = Inr ms" "cb_find_missing ops ms (t_remote t) = (p, r)" for ms p r
  proof -
    have "\<forall>d \<in> set ms. digest_wf d" using sub [of ds "t_local t" ms l] w that(1) sp TFindMissing by auto
    then show ?thesis using missing_law [OF _ _ that(2)] inv keeps_cong [OF inv, of r] by (simp add: keeps_blob_def)
  qed
  then show ?thesis
    using inv TFindMissing w by (auto simp: tiered_find_missing_def split: prod.split sum.split list.split)
next
  case (TDelete d)
  then show ?thesis
    using inv sp e delete_law [of "t_remote t" d] delete_keeps [of "t_remote t" d e]
    by (auto simp: tiered_delete_def keeps_blob_def split: prod.split)
next
  case (TLocalPath d)
  then show ?thesis
    using inv sp keeps_fill [of e t d lops] by (auto simp: tiered_local_path_def split: prod.split sum.split bool.split)
next
  case (TMove k)
  then show ?thesis using inv by simp
qed

end

lemma drain_stream_data: "stream_data stream = Some b \<Longrightarrow> drain_stream no_fault stream data = (None, data @ b)"
  by (induction stream arbitrary: data b rule: stream_data.induct) auto

lemma disk_write_stream_new:
  assumes hex: "lower_hex_codec hex_encode" and ex: "exact hex_encode [] k" and d: "digest_wf d"
    and none: "map_of (disk_files k) (entry_path hex_encode d) = None"
    and data: "stream_data stream = Some data" "sha256 data = hash d" "dsize d = int (length data)"
    and fits: "max_size k > 0 \<Longrightarrow> length data \<le> unat (max_size k)"
    and cap: "blob_total (disk_files k) + length data < 2 ^ 64"
  shows "\<exists>k'. disk_write_stream no_fault hex_encode sha256 now uuid d stream k = (Inr (), k') \<and>
    map_of (disk_files k') (entry_path hex_encode d) = Some \<lparr>content = data, mtime = now\<rparr>"
proof -
  have len: "length (hash d) = 32" "length data < 2 ^ 63" using d data(3) by (auto simp: digest_wf_def)
  obtain r k' where p: "publish_staged no_fault hex_encode uuid d (length data) (stage_file uuid data now k) = (r, k')" by fastforce
  note pub = publish_new [OF hex ex len(1) none data(3) len(2) fits cap p]
  have "check_streamed hex_encode sha256 d data = Inr ()"
    using declared_size_iff [OF d len(2)] data(2,3) by (simp add: check_streamed_def hash_to_string_def)
  moreover have "ensure_fits (length data) (stage_file uuid data now k) = Inr ()"
    using fits by (simp add: ensure_fits_Inr stage_file_def)
  moreover have "drain_stream no_fault stream [] = (None, data)" using drain_stream_data [OF data(1), of "[]"] by simp
  ultimately show ?thesis
    using p pub by (simp add: disk_write_stream_def disk_contains_absent [OF none] finish_write_def Let_def)
qed

section \<open>Acknowledged blobs outlive the disk\<close>

definition local_ops ::
  "(nat \<Rightarrow> fs_call \<Rightarrow> bool) \<Rightarrow> (bytes \<Rightarrow> bytes) \<Rightarrow> millis \<Rightarrow> string \<Rightarrow> nat \<Rightarrow> disk cas_ops" where
  "local_ops io sha256 now uuid = (\<lambda>i. disk_ops (io i) lower_hex sha256 now uuid)"

text \<open>Calls with any faults of the disk, and moves to any other disk, that spare the blob of \<open>e\<close>.\<close>

inductive tiered_run :: "'r cas_ops \<Rightarrow> (bytes \<Rightarrow> bytes) \<Rightarrow> digest_info \<Rightarrow> 'r tiered \<Rightarrow> 'r tiered \<Rightarrow> bool"
  for rops sha256 e t where
  run_start: "tiered_run rops sha256 e t t"
| run_step: "tiered_run rops sha256 e t t1 \<Longrightarrow> op_spares (local_ops io sha256 now uuid) e t1 op \<Longrightarrow>
    tiered_run rops sha256 e t (tiered_step (local_ops io sha256 now uuid) rops lower_hex op t1)"

lemma find_missing_subset: "find_missing c ds s = (Inr ms, s') \<Longrightarrow> set ms \<subseteq> set ds"
  by (induction c ds s arbitrary: ms s' rule: find_missing.induct) (fastforce split: prod.splits sum.splits if_splits)+

context durable_backend
begin

lemma keeps_run:
  assumes "tiered_run ops sha e t t1" "keeps_blob e (t_remote t)" "digest_wf e"
  shows "keeps_blob e (t_remote t1)"
  using assms(1)
proof induction
  case (run_step t1 io now uuid op)
  then show ?case
    by (intro keeps_step [OF _ assms(3)]) (auto simp: local_ops_def dest!: find_missing_subset)
qed (rule assms(2))

lemma keeps_written:
  assumes "ok (t_remote t)" "digest_wf d" "length data < 2 ^ 63" "tiered_write lops ops d data t = (Inr (), t1)"
  shows "keeps_blob d (t_remote t1)"
proof -
  obtain q r where w: "cb_write ops d data (t_remote t) = (q, r)" by fastforce
  have "q = Inr ()" "t_remote t1 = r" using assms(4) w by (auto simp: tiered_write_def both_results_def split: prod.splits sum.splits)
  then show ?thesis using write_stores [OF assms(1-3)] write_ok [OF assms(1-3)] w by (simp add: keeps_blob_def)
qed

lemma keeps_uploaded:
  assumes "ok (t_remote t)" "digest_wf d" "upload_stored lops ops hex_encode d t = (Inr (), t1)"
    and "case cb_read_stream (lops 1) d 0 None (t_local t) of
         (Inr (Some stored), _) \<Rightarrow> (case stream_data stored of None \<Rightarrow> True | Some b \<Rightarrow> length b < 2 ^ 63)
       | _ \<Rightarrow> True"
  shows "keeps_blob d (t_remote t1)"
proof -
  obtain q l where r: "cb_read_stream (lops 1) d 0 None (t_local t) = (q, l)" by fastforce
  obtain stored r' where s: "q = Inr (Some stored)" "cb_write_stream ops d stored (t_remote t) = (Inr (), r')" "t_remote t1 = r'"
    using assms(3) unfolding upload_stored_def r by (auto split: sum.splits option.splits prod.splits)
  have "length b < 2 ^ 63" if "stream_data stored = Some b" for b using assms(4) that unfolding r s(1) by simp
  then show ?thesis
    using write_stream_stores [OF assms(1,2) _ s(2)] write_stream_ok [OF assms(1,2), of stored] s(2,3) by (simp add: keeps_blob_def)
qed

lemma keeps_stream_written:
  assumes "ok (t_remote t)" "digest_wf d" "op_spares lops d t (TWriteStream d stream)"
    and "tiered_write_stream lops ops hex_encode d stream t = (Inr (), t1)"
  shows "keeps_blob d (t_remote t1)"
proof -
  obtain l where w: "cb_write_stream (lops 0) d stream (t_local t) = (Inr (), l)"
    using assms(4) by (auto simp: tiered_write_stream_def split: prod.splits sum.splits)
  obtain p r where c: "cb_contains ops d (t_remote t) = (p, r)" by fastforce
  note law = contains_law [OF assms(1,2) c]
  have ok: "ok r" using law by simp
  have short: "case cb_read_stream (lops 1) d 0 None l of
         (Inr (Some stored), _) \<Rightarrow> (case stream_data stored of None \<Rightarrow> True | Some b \<Rightarrow> length b < 2 ^ 63)
       | _ \<Rightarrow> True" using assms(3) w by simp
  show ?thesis
  proof (cases "dsize d > SINGLE_PUT_MAX_BYTES \<and> p \<noteq> Inr False")
    case True
    then have "p = Inr True" "t_remote t1 = r" using assms(4) w c by (auto simp: tiered_write_stream_def split: sum.splits bool.splits)
    then show ?thesis using law by (auto simp: keeps_blob_def present_def)
  next
    case False
    then have "upload_stored lops ops hex_encode d \<lparr>t_local = l, t_remote = r\<rparr> = (Inr (), t1) \<or>
      upload_stored lops ops hex_encode d (t\<lparr>t_local := l\<rparr>) = (Inr (), t1)"
      using assms(4) w c by (auto simp: tiered_write_stream_def split: if_splits)
    then show ?thesis
      using keeps_uploaded [where lops = lops and t = "\<lparr>t_local = l, t_remote = r\<rparr>"]
        keeps_uploaded [where lops = lops and t = "t\<lparr>t_local := l\<rparr>"] ok assms(1,2) short by auto
  qed
qed

text \<open>A disk that lacks a blob the remote tier has is filled from it, and the read is served.\<close>

lemma read_through:
  assumes keep: "keeps_blob d r" and d: "digest_wf d" "0 \<le> dsize d" and ex: "exact lower_hex [] l" "intact lower_hex sha256 (disk_files l)"
    and hon: "\<And>f. map_of (disk_files l) (blob_path lower_hex d) = Some f \<Longrightarrow> dsize d = int (file_len f)"
    and fits: "max_size l > 0 \<Longrightarrow> dsize d \<le> int (unat (max_size l))" and cap: "int (blob_total (disk_files l)) + dsize d < 2 ^ 64"
    and served: "cb_read_stream ops d 0 None r = (Inr (Some stream), r')" "stream_data stream \<noteq> None"
  shows "\<exists>b t. tiered_read (local_ops (\<lambda>_. no_fault) sha256 now uuid) ops d \<lparr>t_local = l, t_remote = r\<rparr> = (Inr (Some b), t) \<and>
    sha256 b = hash d \<and> int (length b) = dsize d"
proof (cases "map_of (disk_files l) (blob_path lower_hex d)")
  case (Some f)
  then have "sha256 (content f) = hash d" using ex(2) d by (simp add: intact_def blob_path_def digest_wf_def)
  moreover from this have "fst (disk_read no_fault lower_hex sha256 d l) = Inr (Some (content f))"
    using disk_read_key [OF lower_hex_is_codec, of l d f sha256] Some by (simp add: blob_path_def)
  ultimately show ?thesis
    using hon [OF Some] by (cases "disk_read no_fault lower_hex sha256 d l")
      (simp add: tiered_read_def local_ops_def file_len_def)
next
  case None
  have none: "map_of (disk_files l) (entry_path lower_hex d) = None" using None by (simp add: blob_path_def)
  obtain b where b: "holds r d = Some b" "has_size d b" using keep by (auto simp: keeps_blob_def present_iff)
  obtain data where data: "stream_data stream = Some data" using served(2) by blast
  have ok: "ok r" using keep by (simp add: keeps_blob_def)
  have db: "data = b" using stream_law [OF ok d(1) served(1)] data b by (auto simp: slice_def)
  have sha: "sha256 b = hash d" by (rule holds_sound [OF ok d(1) b(1)])
  have size: "dsize d = int (length b)" using b(2) d by (simp add: has_size_def digest_wf_def uint_word_of_int)
  have room: "length b \<le> unat (max_size l)" if "max_size l > 0" using fits [OF that] size by linarith
  have space: "blob_total (disk_files l) + length b < 2 ^ 64" using cap size by simp
  obtain l2 where w: "disk_write_stream no_fault lower_hex sha256 now uuid d stream l = (Inr (), l2)"
    and f: "map_of (disk_files l2) (entry_path lower_hex d) = Some \<lparr>content = b, mtime = now\<rparr>"
    using disk_write_stream_new [where ?sha256.0 = sha256 and now = now and uuid = uuid,
        OF lower_hex_is_codec ex(1) d(1) none data [unfolded db] sha size room space] by blast
  have "fst (disk_read no_fault lower_hex sha256 d l2) = Inr (Some b)"
    using disk_read_key [OF lower_hex_is_codec f] sha by simp
  moreover have "disk_read no_fault lower_hex sha256 d l = (Inr None, l)"
    using None by (simp add: disk_read_def)
  ultimately show ?thesis
    using served(1) w sha size disk_contains_absent [OF none, of now]
    by (cases "disk_read no_fault lower_hex sha256 d l2")
      (simp add: tiered_read_def local_ops_def fill_local_def copy_from_remote_def)
qed

end

text \<open>
  C7: a write that was acknowledged is not lost with the disk. Whatever calls follow, with any
  faults of the disk and moves to other disks, as long as none removes the blob, a read on a disk
  that is in order and has room returns a blob with the hash and the size of the digest.
\<close>

theorem tiered_survives_disk_loss:
  assumes "durable_backend rops sha256 ok holds" "ok (t_remote t)" "digest_wf d" "0 \<le> dsize d"
    and "tiered_write (local_ops io sha256 now uuid) rops d data t = (Inr (), t1) \<and> length data < 2 ^ 63 \<or>
      tiered_write_stream (local_ops io sha256 now uuid) rops lower_hex d stream t = (Inr (), t1) \<and>
      op_spares (local_ops io sha256 now uuid) d t (TWriteStream d stream)"
    and "tiered_run rops sha256 d t1 t2" "disk_accounted lower_hex sha256 (t_local t2)"
    and "\<And>f. map_of (disk_files (t_local t2)) (blob_path lower_hex d) = Some f \<Longrightarrow> dsize d = int (file_len f)"
    and "max_size (t_local t2) > 0 \<Longrightarrow> dsize d \<le> int (unat (max_size (t_local t2)))"
    and "int (blob_total (disk_files (t_local t2))) + dsize d < 2 ^ 64"
    and "cb_read_stream rops d 0 None (t_remote t2) = (Inr (Some served), r)" "stream_data served \<noteq> None"
  shows "\<exists>b t3. tiered_read (local_ops (\<lambda>_. no_fault) sha256 now' uuid') rops d t2 = (Inr (Some b), t3) \<and>
    sha256 b = hash d \<and> int (length b) = dsize d"
proof -
  note D = assms(1)
  have "durable_backend.keeps_blob ok holds d (t_remote t1)"
    using assms(5) durable_backend.keeps_written [OF D assms(2,3)] durable_backend.keeps_stream_written [OF D assms(2,3)] by blast
  then have k: "durable_backend.keeps_blob ok holds d (t_remote t2)"
    by (rule durable_backend.keeps_run [OF D assms(6) _ assms(3)])
  have ex: "exact lower_hex [] (t_local t2)" "intact lower_hex sha256 (disk_files (t_local t2))"
    using accounted_exact [OF lower_hex_is_codec assms(7)] by simp_all
  have eq: "\<lparr>t_local = t_local t2, t_remote = t_remote t2\<rparr> = t2" by simp
  show ?thesis
    using durable_backend.read_through [OF D k assms(3,4) ex assms(8-12), of now' uuid'] unfolding eq .
qed

text \<open>A blob is written with one disk, the disk is replaced by an empty one, and the blob is read.\<close>

theorem tiered_survives_disk_loss_witness:
  "let d = \<lparr>hash = replicate 32 7, dsize = 2\<rparr>; sha = (\<lambda>_. replicate 32 7);
       rops = object_ops (\<lambda>p. p) lower_hex sha (memory_backend []);
       lops = local_ops (\<lambda>_. no_fault) sha 9 ''u'';
       t = \<lparr>t_local = disk_with_max_size_bytes [] 0, t_remote = (\<lambda>_. None)\<rparr>;
       fresh = snd (warm_up no_fault 5 (disk_with_max_size_bytes [] 100));
       t2 = tiered_step lops rops lower_hex (TMove fresh) (snd (tiered_write lops rops d [1, 2] t))
   in \<exists>b t3. tiered_read lops rops d t2 = (Inr (Some b), t3) \<and> sha b = hash d \<and> int (length b) = 2"
proof -
  define d where "d = \<lparr>hash = replicate 32 7 :: bytes, dsize = 2\<rparr>"
  define sha :: "bytes \<Rightarrow> bytes" where "sha = (\<lambda>_. replicate 32 7)"
  define rops where "rops = object_ops (\<lambda>p. p) lower_hex sha (memory_backend [])"
  define lops where "lops = local_ops (\<lambda>_. no_fault) sha 9 ''u''"
  define t where "t = \<lparr>t_local = disk_with_max_size_bytes [] 0, t_remote = (\<lambda>_ :: string. None :: bytes option)\<rparr>"
  define fresh where "fresh = snd (warm_up no_fault 5 (disk_with_max_size_bytes [] 100))"
  define key where "key = object_key (\<lambda>p. p) lower_hex (memory_backend []) d"
  have d: "digest_wf d" "0 \<le> dsize d" "dsize d = 2" "sha data = hash d" for data
    by (simp_all add: d_def digest_wf_def sha_def)
  have store: "ob_store (memory_backend []) = memory_store" by (simp add: memory_backend_def object_new_def Let_def)
  have v: "verify_digest lower_hex sha data d = Inr ()" for data by (simp add: verify_digest_Inr [OF lower_hex_is_codec] d(4))
  obtain l1 where l1: "disk_write no_fault lower_hex sha 9 ''u'' d [1, 2] (disk_with_max_size_bytes [] 0) = (Inr (), l1)"
    by (cases "disk_write no_fault lower_hex sha 9 ''u'' d [1, 2] (disk_with_max_size_bytes [] 0)")
      (simp add: disk_write_def disk_contains_def disk_with_max_size_bytes_def v ensure_fits_def finish_write_def publish_staged_def
        publish_def stage_file_def staging_path_def blob_path_def entry_path_def Let_def STAGING_DIR_def split: option.splits)
  have "verify_blob lower_hex sha d [1, 2] = Inr ()" by (simp add: verify_blob_Inr d)
  then have w: "tiered_write lops rops d [1, 2] t = (Inr (), \<lparr>t_local = l1, t_remote = [key \<mapsto> [1, 2]]\<rparr>)"
    using l1 by (simp add: tiered_write_def lops_def local_ops_def rops_def t_def object_write_def store memory_store_def key_def both_results_def)
  let ?t1 = "\<lparr>t_local = l1, t_remote = [key \<mapsto> [1, 2 :: 8 word]]\<rparr>"
  let ?t2 = "tiered_step lops rops lower_hex (TMove fresh) ?t1"
  have "tiered_run rops sha d ?t1 ?t2" unfolding lops_def by (rule run_step [OF run_start]) simp
  moreover have "cb_read_stream rops d 0 None (t_remote ?t2) = (Inr (Some [Inr [1, 2]]), t_remote ?t2)"
    by (simp add: rops_def object_read_stream_def store memory_store_def key_def [symmetric] d map_err_def Let_def)
  ultimately have "\<exists>b t3. tiered_read lops rops d ?t2 = (Inr (Some b), t3) \<and> sha b = hash d \<and> int (length b) = dsize d"
    unfolding lops_def
    by (intro tiered_survives_disk_loss [OF memory.durable_backend_axioms [of sha "[]", folded rops_def], where ?t = t and ?t1.0 = ?t1
        and data = "[1, 2]" and io = "\<lambda>_. no_fault" and now = 9 and uuid = "''u''" and stream = "[]" and served = "[Inr [1, 2]]"])
      (use w d in \<open>simp_all add: lops_def t_def fresh_def object_ok_def exact_empty_start warm_up_empty blob_total_def\<close>)
  then show ?thesis
    unfolding Let_def d_def [symmetric] sha_def [symmetric] rops_def [symmetric] lops_def [symmetric] t_def [symmetric] fresh_def [symmetric] w
    by (simp add: d(3))
qed

section \<open>Lookups through both tiers\<close>

lemma fill_local_ok:
  assumes "disk_ok sha256 (t_local t)" "digest_wf d" "fill_local (local_ops io sha256 now uuid) rops d t = (q, t')"
  shows "disk_ok sha256 (t_local t')"
proof -
  have w: "disk_ok sha256 (snd (disk_write_stream i lower_hex sha256 now uuid d st l))" if "disk_ok sha256 l" for i st l
    using intact_write_stream [OF lower_hex_is_codec] that assms(2) by (simp add: disk_ok_def digest_wf_def)
  have c: "disk_ok sha256 (snd (disk_contains i lower_hex now d l))" if "disk_ok sha256 l" for i l
    using intact_contains that by (simp add: disk_ok_def)
  have "disk_ok sha256 (t_local (snd (copy_from_remote (local_ops io sha256 now uuid) rops d u)))" if "disk_ok sha256 (t_local u)" for u
    using c [OF that, of "io 1"] w
    by (auto simp: copy_from_remote_def local_ops_def split: prod.split sum.split bool.split option.split) (metis snd_conv)+
  then have "disk_ok sha256 (t_local (snd (fill_local (local_ops io sha256 now uuid) rops d t)))"
    using c [OF assms(1), of "io 0"] by (auto simp: fill_local_def local_ops_def split: prod.split sum.split bool.split)
  then show ?thesis using assms(3) by simp
qed

text \<open>
  The two tiers answer as one store. The digests reported missing are exactly those neither
  tier holds with their size, in the order given; a digest is reported present exactly when a
  tier holds it; and bytes that are read have the hash of the digest, from whichever tier.
\<close>

theorem tiered_lookup_exact:
  assumes "cas_backend rops sha256 ok holds" "ok (t_remote t)" "disk_ok sha256 (t_local t)"
    and "\<forall>d \<in> set ds. digest_wf d" "digest_wf d"
  defines "held \<equiv> \<lambda>d. present disk_holds (t_local t) d \<or> present holds (t_remote t) d"
  shows "(tiered_find_missing (local_ops io sha256 now uuid) rops ds t = (Inr ms, t1) \<longrightarrow> ms = filter (\<lambda>d. \<not> held d) ds) \<and>
    (tiered_contains (local_ops io sha256 now uuid) rops d t = (Inr p, t1) \<longrightarrow> p = held d) \<and>
    (tiered_read (local_ops io sha256 now uuid) rops d t = (Inr (Some b), t1) \<longrightarrow> sha256 b = hash d)"
proof (intro conjI impI)
  note lookup = cas_backend.axioms(1) [OF assms(1)]
  obtain q l where f: "find_missing (disk_contains (io 0) lower_hex now) ds (t_local t) = (q, l)" by fastforce
  note fm = disk_cas.find_missing_spec [OF assms(3,4) f]
  assume m: "tiered_find_missing (local_ops io sha256 now uuid) rops ds t = (Inr ms, t1)"
  then obtain nl where q: "q = Inr nl" using f by (auto simp: tiered_find_missing_def local_ops_def split: sum.splits)
  then have nl: "nl = filter (\<lambda>d. \<not> present disk_holds (t_local t) d) ds" using fm by simp
  show "ms = filter (\<lambda>d. \<not> held d) ds"
  proof (cases "nl = []")
    case True
    then show ?thesis using m f q nl by (auto simp: tiered_find_missing_def local_ops_def held_def filter_empty_conv)
  next
    case False
    then obtain r where rm: "cb_find_missing rops nl (t_remote t) = (Inr ms, r)"
      using m f q by (auto simp: tiered_find_missing_def local_ops_def split: list.splits prod.splits)
    have "\<forall>d \<in> set nl. digest_wf d" using assms(4) nl by simp
    then have "ms = filter (\<lambda>d. \<not> present holds (t_remote t) d) nl"
      using cas_backend.missing_law [OF assms(1,2) _ rm] by blast
    then show ?thesis by (simp add: nl held_def conj_commute)
  qed
next
  obtain q l where c: "disk_contains (io 0) lower_hex now d (t_local t) = (q, l)" by fastforce
  note law = disk_lookup_laws(1) [OF assms(3,5) c]
  assume p: "tiered_contains (local_ops io sha256 now uuid) rops d t = (Inr p, t1)"
  obtain q' r where c': "cb_contains rops d (t_remote t) = (q', r)" by fastforce
  show "p = held d"
    using p law c c' cas_lookup.contains_law [OF cas_backend.axioms(1) [OF assms(1)] assms(2,5) c']
    by (auto simp: tiered_contains_def local_ops_def held_def split: sum.splits bool.splits)
next
  have snd1: "sha256 b = hash d" if "disk_ok sha256 k" "disk_read i lower_hex sha256 d k = (Inr (Some b), k')" for i k k'
    using disk_lookup_laws(2) [OF that(1) assms(5) that(2)] disk_cas.holds_sound [OF that(1) assms(5)] by auto
  obtain q l where r: "disk_read (io 3) lower_hex sha256 d (t_local t) = (q, l)" by fastforce
  have l: "disk_ok sha256 l" using disk_lookup_laws(2) [OF assms(3,5) r] by simp
  assume b: "tiered_read (local_ops io sha256 now uuid) rops d t = (Inr (Some b), t1)"
  show "sha256 b = hash d"
  proof (cases "q = Inr None")
    case True
    obtain q' u where fl: "fill_local (local_ops io sha256 now uuid) rops d (t\<lparr>t_local := l\<rparr>) = (q', u)" by fastforce
    have "disk_ok sha256 (t_local u)" by (rule fill_local_ok [OF _ assms(5) fl]) (simp add: l)
    then show ?thesis
      using snd1 [of "t_local u" "io 4"] b r True fl
      by (auto simp: tiered_read_def local_ops_def split: sum.splits bool.splits prod.splits)
  next
    case False
    then have "q = Inr (Some b)" using b r by (auto simp: tiered_read_def local_ops_def split: sum.splits option.splits)
    then show ?thesis using snd1 [OF assms(3)] r by blast
  qed
qed

theorem tiered_lookup_exact_witness:
  "let d = \<lparr>hash = replicate 32 7, dsize = 2\<rparr>; sha = (\<lambda>_. replicate 32 7);
       rops = object_ops (\<lambda>p. p) lower_hex sha (memory_backend []);
       t = \<lparr>t_local = disk_with_max_size_bytes [] 0, t_remote = (\<lambda>_. None)\<rparr>
   in fst (tiered_find_missing (local_ops (\<lambda>_. no_fault) sha 9 ''u'') rops [d] t) = Inr [d]"
proof -
  define d where "d = \<lparr>hash = replicate 32 7 :: bytes, dsize = 2\<rparr>"
  define sha :: "bytes \<Rightarrow> bytes" where "sha = (\<lambda>_. replicate 32 7)"
  define rops where "rops = object_ops (\<lambda>p. p) lower_hex sha (memory_backend [])"
  define t where "t = \<lparr>t_local = disk_with_max_size_bytes [] 0, t_remote = (\<lambda>_ :: string. None :: bytes option)\<rparr>"
  have d: "digest_wf d" by (simp add: d_def digest_wf_def)
  have k: "disk_ok sha (t_local t)" "object_ok (\<lambda>p. p) sha (memory_backend []) (\<lambda>m. m) (t_remote t)"
    by (simp_all add: t_def disk_ok_def intact_def disk_with_max_size_bytes_def object_ok_def)
  have empty: "\<not> present disk_holds (t_local t) d" "\<not> present (object_holds (\<lambda>p. p) (memory_backend []) (\<lambda>m. m)) (t_remote t) d"
    by (simp_all add: t_def present_def disk_holds_def object_holds_def disk_with_max_size_bytes_def)
  obtain q t1 where m: "tiered_find_missing (local_ops (\<lambda>_. no_fault) sha 9 ''u'') rops [d] t = (q, t1)" by fastforce
  have "isl q = False"
    using m by (auto simp: tiered_find_missing_def local_ops_def rops_def t_def disk_contains_def disk_with_max_size_bytes_def
        memory_backend_def object_new_def memory_store_def object_find_missing_def object_contains_def has_object_def Let_def)
  then obtain ms where "q = Inr ms" by (cases q) auto
  then show ?thesis
    using tiered_lookup_exact [OF memory.cas_backend_axioms [of sha "[]", folded rops_def] k(2,1), of "[d]" d "\<lambda>_. no_fault" 9 "''u''" ms t1] m d empty
    unfolding Let_def d_def [symmetric] sha_def [symmetric] rops_def [symmetric] t_def [symmetric] by simp
qed

end
