(* ===== verification/Action_Cache.thy ===== *)
theory Action_Cache
  imports Lru_State
begin

text \<open>
  \<open>cache/action_cache.rs\<close>: the in-memory action cache, bounded in entries and in age, and the
  store interface of the action caches. \<open>'p\<close> is the message \<open>ActionResult\<close>. The binary heap is the
  list of its records: \<open>peek\<close> and \<open>pop\<close> take one with the least deadline. An operation reads the
  clock once, at \<open>now\<close>. The cache is refined to an unbounded map: it may forget, and never serves
  a result that is not the last one stored or is older than its lifetime.
\<close>

definition DEFAULT_L1_CAPACITY :: nat where
  "DEFAULT_L1_CAPACITY = 100000"

definition DEFAULT_L1_TTL_SECS :: nat where
  "DEFAULT_L1_TTL_SECS = 3600"

datatype hit_tier = L1 | L2 | Remote | Miss

record 'p cache_action_result =
  car_digest :: digest_info
  car_proto :: 'p

record 'p get_result =
  gr_result :: "'p cache_action_result option"
  gr_tier :: hit_tier

record expiration_entry =
  expires_at :: millis
  exp_digest :: digest_info

record 'p cache_entry =
  ce_data :: "'p cache_action_result"
  created_at :: millis
  ce_ttl :: millis

definition cache_entry_new :: "millis \<Rightarrow> 'p cache_action_result \<Rightarrow> millis \<Rightarrow> 'p cache_entry" where
  "cache_entry_new now data ttl = \<lparr>ce_data = data, created_at = now, ce_ttl = ttl\<rparr>"

definition is_expired :: "millis \<Rightarrow> 'p cache_entry \<Rightarrow> bool" where
  "is_expired now e = (now - created_at e > ce_ttl e)"

record 'p l1_cache =
  l1_map :: "(digest_info \<times> 'p cache_entry) list"
  max_capacity :: nat
  default_ttl :: millis
  l1_lru :: lru_state
  expiration_heap :: "expiration_entry list"

definition l1_new :: "nat \<Rightarrow> millis \<Rightarrow> 'p l1_cache" where
  "l1_new capacity ttl =
     \<lparr>l1_map = [], max_capacity = capacity, default_ttl = ttl, l1_lru = lru_new, expiration_heap = []\<rparr>"

definition remove_entry :: "digest_info \<Rightarrow> 'p l1_cache \<Rightarrow> 'p l1_cache" where
  "remove_entry d c = c\<lparr>l1_map := AList.delete d (l1_map c), l1_lru := snd (lru_remove d (l1_lru c))\<rparr>"

definition l1_get :: "millis \<Rightarrow> digest_info \<Rightarrow> 'p l1_cache \<Rightarrow> 'p cache_action_result option \<times> 'p l1_cache" where
  "l1_get now d c =
     (case map_of (l1_map c) d of
        None \<Rightarrow> (None, c)
      | Some e \<Rightarrow>
          if is_expired now e then (None, remove_entry d c)
          else (Some (ce_data e), c\<lparr>l1_lru := touch d 0 (l1_lru c)\<rparr>))"

text \<open>Digests are popped until one is in the map, and that one is dropped.\<close>

function evict_lru_loop ::
  "lru_state \<Rightarrow> (digest_info \<times> 'p cache_entry) list \<Rightarrow> lru_state \<times> (digest_info \<times> 'p cache_entry) list" where
  "evict_lru_loop s m =
     (case pop_lru s of
        (None, s1) \<Rightarrow> (s1, m)
      | (Some (d, _), s1) \<Rightarrow>
          if map_of m d \<noteq> None then (s1, AList.delete d m) else evict_lru_loop s1 m)"
  by pat_completeness auto
termination
  by (relation "measure (\<lambda>(s, m). length (order s))") (auto dest: pop_lru_shrinks [OF sym])

declare evict_lru_loop.simps [simp del]

definition evict_lru :: "'p l1_cache \<Rightarrow> 'p l1_cache" where
  "evict_lru c = (case evict_lru_loop (l1_lru c) (l1_map c) of (s, m) \<Rightarrow> c\<lparr>l1_lru := s, l1_map := m\<rparr>)"

function cleanup_loop :: "millis \<Rightarrow> 'p l1_cache \<Rightarrow> 'p l1_cache" where
  "cleanup_loop now c =
     (case min_by_key expires_at (expiration_heap c) of
        None \<Rightarrow> c
      | Some x \<Rightarrow>
          if expires_at x > now then c
          else (let c1 = c\<lparr>expiration_heap := remove1 x (expiration_heap c)\<rparr>
                in cleanup_loop now
                     (case map_of (l1_map c1) (exp_digest x) of
                        None \<Rightarrow> c1
                      | Some e \<Rightarrow> if is_expired now e then remove_entry (exp_digest x) c1 else c1)))"
  by pat_completeness auto
termination
  by (relation "measure (\<lambda>(now, c). length (expiration_heap c))")
    (auto simp: remove_entry_def length_remove1 dest: min_by_key_Some split: option.splits elim: list.set_cases)

declare cleanup_loop.simps [simp del]

definition cleanup_expired :: "millis \<Rightarrow> 'p l1_cache \<Rightarrow> 'p l1_cache" where
  "cleanup_expired now c = cleanup_loop now c"

definition prune_ghost_entries :: "'p l1_cache \<Rightarrow> 'p l1_cache" where
  "prune_ghost_entries c =
     c\<lparr>expiration_heap := filter (\<lambda>x. map_of (l1_map c) (exp_digest x) \<noteq> None) (expiration_heap c)\<rparr>"

definition l1_put :: "millis \<Rightarrow> digest_info \<Rightarrow> 'p cache_action_result \<Rightarrow> 'p l1_cache \<Rightarrow> 'p l1_cache" where
  "l1_put now d result c =
     (let c1 = (if map_of (l1_map c) d = None \<and> length (l1_map c) \<ge> max_capacity c then evict_lru c else c);
          e = cache_entry_new now result (default_ttl c1);
          c2 = c1\<lparr>l1_map := AList.update d e (l1_map c1), l1_lru := touch d 0 (l1_lru c1),
                  expiration_heap := \<lparr>expires_at = created_at e + ce_ttl e, exp_digest = d\<rparr> # expiration_heap c1\<rparr>
      in if length (expiration_heap c2) > max_capacity c2 * 2
         then prune_ghost_entries (cleanup_expired now c2) else c2)"

definition invalidate :: "digest_info \<Rightarrow> 'p l1_cache \<Rightarrow> 'p l1_cache" where
  "invalidate d c = remove_entry d c"

definition l1_len :: "'p l1_cache \<Rightarrow> nat" where
  "l1_len c = length (l1_map c)"

definition l1_is_empty :: "'p l1_cache \<Rightarrow> bool" where
  "l1_is_empty c = (l1_map c = [])"

text \<open>The two settings, each the text of an environment variable, when it is set and a number.\<close>

definition l1_from_env :: "string option \<Rightarrow> string option \<Rightarrow> 'p l1_cache" where
  "l1_from_env capacity ttl =
     l1_new
       (case Option.bind capacity (parse_unsigned 64) of None \<Rightarrow> DEFAULT_L1_CAPACITY | Some n \<Rightarrow> n)
       (1000 * (case Option.bind ttl (parse_unsigned 64) of None \<Rightarrow> DEFAULT_L1_TTL_SECS | Some n \<Rightarrow> n))"

text \<open>The default of the store interface: any hit is of the first tier.\<close>

definition default_get_with_tier ::
  "'p cache_action_result option \<times> 's \<Rightarrow> 'p get_result \<times> 's" where
  "default_get_with_tier r =
     (\<lparr>gr_result = fst r, gr_tier = (if fst r \<noteq> None then L1 else Miss)\<rparr>, snd r)"

section \<open>Invariant\<close>

text \<open>The recency order tracks exactly the cached digests.\<close>

definition l1_inv :: "'p l1_cache \<Rightarrow> bool" where
  "l1_inv c \<longleftrightarrow> distinct (map fst (l1_map c)) \<and> lru_inv (l1_lru c) \<and>
     dom (positions (l1_lru c)) = fst ` set (l1_map c) \<and> length (l1_map c) \<le> max 1 (max_capacity c)"

lemma dom_positions_remove: "lru_inv s \<Longrightarrow> dom (positions (snd (lru_remove d s))) = dom (positions s) - {d}"
  using set_recency [of s] set_recency [of "snd (lru_remove d s)"] recency_remove [of s d] lru_inv_remove [of s d] by auto

lemma keys_delete: "fst ` set (AList.delete d m) = fst ` set m - {d}"
  by (auto simp: AList.delete_eq)

lemma length_delete: "length (AList.delete d m) \<le> length m"
  by (simp add: AList.delete_eq)

lemma distinct_delete_keys: "distinct (map fst m) \<Longrightarrow> distinct (map fst (AList.delete d m))"
  by (simp add: AList.delete_eq distinct_map_fst_filter)

lemma l1_inv_remove: "l1_inv c \<Longrightarrow> l1_inv (remove_entry d c)"
  using length_delete [of d "l1_map c"]
  by (auto simp: l1_inv_def remove_entry_def lru_inv_remove dom_positions_remove keys_delete distinct_delete_keys)

lemma map_of_remove_entry: "map_of (l1_map (remove_entry d c)) = (map_of (l1_map c))(d := None)"
  by (auto simp: remove_entry_def map_of_delete fun_eq_iff)

lemma evict_lru_spec:
  assumes "l1_inv c" "l1_map c \<noteq> []"
  shows "\<exists>d. d \<in> fst ` set (l1_map c) \<and> d = hd (recency (l1_lru c)) \<and> evict_lru c = remove_entry d c"
proof -
  let ?s = "l1_lru c"
  have inv: "lru_inv ?s" "dom (positions ?s) = fst ` set (l1_map c)" using assms(1) by (simp_all add: l1_inv_def)
  then have "recency ?s \<noteq> []" using set_recency [OF inv(1)] assms(2) by (cases "l1_map c") auto
  then obtain k d rest where o: "order ?s = (k, d) # rest" by (cases "order ?s") (auto simp: recency_def)
  then have d: "d \<in> fst ` set (l1_map c)" using set_recency [OF inv(1)] inv(2) by (auto simp: recency_def)
  have "evict_lru c = remove_entry d c"
    using d by (simp add: evict_lru_def evict_lru_loop.simps [of ?s] pop_lru_Cons [OF inv(1) o] remove_entry_def map_of_eq_None_iff)
  then show ?thesis using d o by (auto simp: recency_def)
qed

text \<open>What popping a record and dropping an expired entry keep, the cleanup keeps.\<close>

lemma cleanup_loop_rule:
  assumes "\<And>c h. P c \<Longrightarrow> P (c\<lparr>expiration_heap := h\<rparr>)"
    and "\<And>c d e. P c \<Longrightarrow> map_of (l1_map c) d = Some e \<Longrightarrow> is_expired now e \<Longrightarrow> P (remove_entry d c)"
  shows "P c \<Longrightarrow> P (cleanup_loop now c)"
proof (induction "length (expiration_heap c)" arbitrary: c rule: less_induct)
  case less
  show ?case
  proof (cases "min_by_key expires_at (expiration_heap c)")
    case (Some x)
    let ?c1 = "c\<lparr>expiration_heap := remove1 x (expiration_heap c)\<rparr>"
    let ?c2 = "case map_of (l1_map ?c1) (exp_digest x) of None \<Rightarrow> ?c1
      | Some e \<Rightarrow> if is_expired now e then remove_entry (exp_digest x) ?c1 else ?c1"
    have x: "x \<in> set (expiration_heap c)" using min_by_key_Some [OF Some] by simp
    have "expiration_heap ?c2 = remove1 x (expiration_heap c)" by (simp add: remove_entry_def split: option.split)
    then have "length (expiration_heap ?c2) < length (expiration_heap c)"
      using x by (simp add: length_remove1) (cases "expiration_heap c"; simp)
    moreover have "P ?c2" using assms(1) [OF less.prems] assms(2) [of ?c1] by (simp split: option.split)
    ultimately have "P (cleanup_loop now ?c2)" by (rule less.hyps)
    then show ?thesis using less.prems by (simp add: cleanup_loop.simps [of now c] Some Let_def)
  qed (simp add: cleanup_loop.simps [of now c] less.prems)
qed

lemma l1_inv_heap [simp]: "l1_inv (c\<lparr>expiration_heap := h\<rparr>) = l1_inv c"
  by (simp add: l1_inv_def)

lemma remove_entry_fields [simp]:
  "max_capacity (remove_entry d c) = max_capacity c" "default_ttl (remove_entry d c) = default_ttl c"
  "expiration_heap (remove_entry d c) = expiration_heap c"
  by (simp_all add: remove_entry_def)

lemma cleanup_inv:
  assumes "l1_inv c"
  shows "l1_inv (cleanup_expired now c) \<and> max_capacity (cleanup_expired now c) = max_capacity c \<and>
    default_ttl (cleanup_expired now c) = default_ttl c"
  unfolding cleanup_expired_def by (rule cleanup_loop_rule) (use assms in \<open>auto simp: l1_inv_remove\<close>)

text \<open>Only expired entries go.\<close>

lemma cleanup_entries:
  "map_of (l1_map (cleanup_expired now c)) x = map_of (l1_map c) x \<or>
   map_of (l1_map (cleanup_expired now c)) x = None \<and> (\<exists>e. map_of (l1_map c) x = Some e \<and> is_expired now e)" for c :: "'p l1_cache"
  unfolding cleanup_expired_def
proof (rule cleanup_loop_rule)
  fix k :: "'p l1_cache" and d e
  assume P: "map_of (l1_map k) x = map_of (l1_map c) x \<or>
    map_of (l1_map k) x = None \<and> (\<exists>e. map_of (l1_map c) x = Some e \<and> is_expired now e)"
    and d: "map_of (l1_map k) d = Some e" "is_expired now e"
  then show "map_of (l1_map (remove_entry d k)) x = map_of (l1_map c) x \<or>
    map_of (l1_map (remove_entry d k)) x = None \<and> (\<exists>e. map_of (l1_map c) x = Some e \<and> is_expired now e)"
    by (cases "x = d") (auto simp: map_of_remove_entry)
qed auto

lemma length_update_present: "map_of m d = Some x \<Longrightarrow> length (AList.update d e m) = length m"
  by (induction m) (auto split: if_splits)

lemma l1_inv_update:
  assumes "l1_inv c" "map_of (l1_map c) d \<noteq> None \<or> length (l1_map c) < max 1 (max_capacity c)"
  shows "l1_inv (c\<lparr>l1_map := AList.update d e (l1_map c), l1_lru := touch d 0 (l1_lru c), expiration_heap := h\<rparr>)"
proof -
  have "length (AList.update d e (l1_map c)) \<le> max 1 (max_capacity c)"
  proof (cases "map_of (l1_map c) d")
    case None
    then show ?thesis using assms(2) by (simp add: update_fresh)
  next
    case (Some x)
    then have "length (AList.update d e (l1_map c)) = length (l1_map c)" by (rule length_update_present)
    then show ?thesis using assms(1) by (simp add: l1_inv_def)
  qed
  moreover have "fst ` set (AList.update d e (l1_map c)) = insert d (fst ` set (l1_map c))"
    using dom_map_of_conv_image_fst [of "AList.update d e (l1_map c)"] dom_map_of_conv_image_fst [of "l1_map c"]
    by (simp add: update_conv')
  ultimately show ?thesis
    using assms(1) by (simp add: l1_inv_def lru_inv_touch distinct_update)
qed

definition make_room :: "digest_info \<Rightarrow> 'p l1_cache \<Rightarrow> 'p l1_cache" where
  "make_room d c = (if map_of (l1_map c) d = None \<and> length (l1_map c) \<ge> max_capacity c then evict_lru c else c)"

lemma make_room_spec:
  assumes "l1_inv c"
  shows "l1_inv (make_room d c)" "max_capacity (make_room d c) = max_capacity c" "default_ttl (make_room d c) = default_ttl c"
    "map_of (l1_map (make_room d c)) d \<noteq> None \<or> length (l1_map (make_room d c)) < max 1 (max_capacity c)"
    "map_of (l1_map (make_room d c)) x = Some e \<Longrightarrow> map_of (l1_map c) x = Some e"
    "expiration_heap (make_room d c) = expiration_heap c"
proof -
  have "l1_inv (make_room d c) \<and> max_capacity (make_room d c) = max_capacity c \<and> default_ttl (make_room d c) = default_ttl c \<and>
    (map_of (l1_map (make_room d c)) d \<noteq> None \<or> length (l1_map (make_room d c)) < max 1 (max_capacity c)) \<and>
    (map_of (l1_map (make_room d c)) x = Some e \<longrightarrow> map_of (l1_map c) x = Some e) \<and> expiration_heap (make_room d c) = expiration_heap c"
  proof (cases "map_of (l1_map c) d = None \<and> length (l1_map c) \<ge> max_capacity c \<and> l1_map c \<noteq> []")
    case True
    then obtain k where k: "k \<in> fst ` set (l1_map c)" "evict_lru c = remove_entry k c" using evict_lru_spec [OF assms] by blast
    have "length (AList.delete k (l1_map c)) < length (l1_map c)"
      using k(1) by (auto simp: AList.delete_eq intro!: length_filter_less)
    moreover have "length (l1_map c) \<le> max 1 (max_capacity c)" using assms by (simp add: l1_inv_def)
    ultimately have "length (l1_map (remove_entry k c)) < max 1 (max_capacity c)" by (simp add: remove_entry_def)
    then show ?thesis using True k(2) l1_inv_remove [OF assms] by (simp add: make_room_def map_of_remove_entry)
  next
    case False
    have "evict_lru c = c" if "l1_map c = []"
    proof -
      have "order (l1_lru c) = []" using that assms set_recency [of "l1_lru c"] by (simp add: l1_inv_def recency_def)
      then show ?thesis using that by (simp add: evict_lru_def evict_lru_loop.simps [of "l1_lru c"] pop_lru_Nil)
    qed
    then show ?thesis using False assms by (auto simp: make_room_def)
  qed
  then show "l1_inv (make_room d c)" "max_capacity (make_room d c) = max_capacity c" "default_ttl (make_room d c) = default_ttl c"
    "map_of (l1_map (make_room d c)) d \<noteq> None \<or> length (l1_map (make_room d c)) < max 1 (max_capacity c)"
    "map_of (l1_map (make_room d c)) x = Some e \<Longrightarrow> map_of (l1_map c) x = Some e"
    "expiration_heap (make_room d c) = expiration_heap c"
    by simp_all
qed

lemma put_spec:
  assumes "l1_inv c"
  shows "l1_inv (l1_put now d r c) \<and> max_capacity (l1_put now d r c) = max_capacity c \<and> default_ttl (l1_put now d r c) = default_ttl c \<and>
    map_of (l1_map (l1_put now d r c)) d = Some (cache_entry_new now r (default_ttl c)) \<and>
    (\<forall>x e. x \<noteq> d \<longrightarrow> map_of (l1_map (l1_put now d r c)) x = Some e \<longrightarrow> map_of (l1_map c) x = Some e)"
proof -
  let ?e = "cache_entry_new now r (default_ttl c)"
  define c2 where "c2 = (make_room d c)\<lparr>l1_map := AList.update d ?e (l1_map (make_room d c)), l1_lru := touch d 0 (l1_lru (make_room d c)),
    expiration_heap := \<lparr>expires_at = now + default_ttl c, exp_digest = d\<rparr> # expiration_heap (make_room d c)\<rparr>"
  note mr = make_room_spec [OF assms, of d]
  have inv: "l1_inv c2" unfolding c2_def by (rule l1_inv_update [OF mr(1)]) (use mr(2,4) in simp)
  have at: "map_of (l1_map c2) = (map_of (l1_map (make_room d c)))(d \<mapsto> ?e)" by (simp add: c2_def update_conv')
  have eq: "l1_put now d r c = (if length (expiration_heap c2) > max_capacity c2 * 2 then prune_ghost_entries (cleanup_expired now c2) else c2)"
    by (simp add: l1_put_def make_room_def [symmetric] c2_def Let_def cache_entry_new_def mr(3))
  have live: "\<not> is_expired now ?e" by (simp add: is_expired_def cache_entry_new_def)
  have fields: "max_capacity c2 = max_capacity c" "default_ttl c2 = default_ttl c" by (simp_all add: c2_def mr(2,3))
  have "map_of (l1_map (cleanup_expired now c2)) d = Some ?e"
    using cleanup_entries [of now c2 d] live by (auto simp: at)
  moreover have "map_of (l1_map c) x = Some e" if "x \<noteq> d" "map_of (l1_map (cleanup_expired now c2)) x = Some e" for x e
    using cleanup_entries [of now c2 x] mr(5) [of x e] that by (auto simp: at)
  moreover have "map_of (l1_map c) x = Some e" if "x \<noteq> d" "map_of (l1_map c2) x = Some e" for x e
    using mr(5) [of x e] that by (simp add: at)
  ultimately show ?thesis
    using cleanup_inv [OF inv, of now] inv fields at by (simp add: eq prune_ghost_entries_def)
qed

section \<open>Refinement of an unbounded map\<close>

datatype 'p l1_op =
    L1Get millis digest_info | L1Put millis digest_info "'p cache_action_result"
  | L1Invalidate digest_info | L1Cleanup millis

fun l1_step :: "'p l1_op \<Rightarrow> 'p l1_cache \<Rightarrow> 'p l1_cache" where
  "l1_step (L1Get now d) c = snd (l1_get now d c)"
| "l1_step (L1Put now d r) c = l1_put now d r c"
| "l1_step (L1Invalidate d) c = invalidate d c"
| "l1_step (L1Cleanup now) c = cleanup_expired now c"

text \<open>The specification forgets nothing by itself.\<close>

fun spec_step :: "millis \<Rightarrow> 'p l1_op \<Rightarrow> (digest_info \<rightharpoonup> 'p cache_entry) \<Rightarrow> (digest_info \<rightharpoonup> 'p cache_entry)" where
  "spec_step ttl (L1Put now d r) m = m(d \<mapsto> cache_entry_new now r ttl)"
| "spec_step ttl (L1Invalidate d) m = m(d := None)"
| "spec_step ttl (L1Get now d) m = m"
| "spec_step ttl (L1Cleanup now) m = m"

definition l1_sim :: "nat \<Rightarrow> millis \<Rightarrow> 'p l1_cache \<Rightarrow> (digest_info \<rightharpoonup> 'p cache_entry) \<Rightarrow> bool" where
  "l1_sim capacity ttl c m \<longleftrightarrow> l1_inv c \<and> max_capacity c = capacity \<and> default_ttl c = ttl \<and>
     (\<forall>d e. map_of (l1_map c) d = Some e \<longrightarrow> m d = Some e) \<and> (\<forall>d e. m d = Some e \<longrightarrow> ce_ttl e = ttl)"

lemma l1_inv_touch: "l1_inv c \<Longrightarrow> map_of (l1_map c) d = Some e \<Longrightarrow> l1_inv (c\<lparr>l1_lru := touch d 0 (l1_lru c)\<rparr>)"
  by (auto simp: l1_inv_def lru_inv_touch intro!: insert_absorb image_eqI [where x = "(d, e)"] dest: map_of_SomeD)

lemma l1_sim_step:
  assumes "l1_sim capacity ttl c m"
  shows "l1_sim capacity ttl (l1_step op c) (spec_step ttl op m)"
proof (cases op)
  case (L1Get now d)
  then show ?thesis
    using assms l1_inv_remove [of c d] l1_inv_touch [of c d]
    by (auto simp: l1_sim_def l1_get_def map_of_remove_entry split: option.split)
next
  case (L1Put now d r)
  have inv: "l1_inv c" "default_ttl c = ttl" using assms by (simp_all add: l1_sim_def)
  note put = put_spec [OF inv(1), of now d r, unfolded inv(2)]
  let ?m = "m(d \<mapsto> cache_entry_new now r ttl)"
  have p1: "map_of (l1_map (l1_put now d r c)) d = Some (cache_entry_new now r ttl)" using put by simp
  have p2: "map_of (l1_map c) x = Some e" if "x \<noteq> d" "map_of (l1_map (l1_put now d r c)) x = Some e" for x e
    using put that by blast
  have m1: "m x = Some e" if "map_of (l1_map c) x = Some e" for x e using assms that unfolding l1_sim_def by blast
  have m2: "ce_ttl e = ttl" if "m x = Some e" for x e using assms that unfolding l1_sim_def by blast
  have "?m x = Some e" if "map_of (l1_map (l1_put now d r c)) x = Some e" for x e
    using p1 m1 [OF p2 [OF _ that]] that by (cases "x = d") simp_all
  moreover have "ce_ttl e = ttl" if "?m x = Some e" for x e
    using m2 [of x e] that by (cases "x = d") (auto simp: cache_entry_new_def)
  moreover have "max_capacity c = capacity" using assms by (simp add: l1_sim_def)
  ultimately show ?thesis using put L1Put unfolding l1_sim_def by simp
next
  case (L1Invalidate d)
  then show ?thesis using assms l1_inv_remove [of c d] by (auto simp: l1_sim_def invalidate_def map_of_remove_entry)
next
  case (L1Cleanup now)
  have "m d = Some e" if "map_of (l1_map (cleanup_expired now c)) d = Some e" for d e
    using assms that cleanup_entries [of now c d] unfolding l1_sim_def by (metis option.distinct(1))
  then show ?thesis using assms cleanup_inv [of c now] L1Cleanup by (simp add: l1_sim_def)
qed

definition l1_run :: "nat \<Rightarrow> millis \<Rightarrow> 'p l1_op list \<Rightarrow> 'p l1_cache" where
  "l1_run capacity ttl ops = fold l1_step ops (l1_new capacity ttl)"

definition spec_run :: "millis \<Rightarrow> 'p l1_op list \<Rightarrow> (digest_info \<rightharpoonup> 'p cache_entry)" where
  "spec_run ttl ops = fold (spec_step ttl) ops Map.empty"

lemma l1_inv_new: "l1_inv (l1_new capacity ttl)"
  using lru_inv_new by (simp add: l1_inv_def l1_new_def lru_new_def)

lemma l1_sim_run: "l1_sim capacity ttl (l1_run capacity ttl ops) (spec_run ttl ops)"
proof -
  have "l1_sim capacity ttl c m \<Longrightarrow> l1_sim capacity ttl (fold l1_step ops c) (fold (spec_step ttl) ops m)" for c m
    by (induction ops arbitrary: c m) (auto simp: l1_sim_step)
  moreover have "l1_sim capacity ttl (l1_new capacity ttl) Map.empty"
    using l1_inv_new [of capacity ttl] by (simp add: l1_sim_def l1_new_def)
  ultimately show ?thesis unfolding l1_run_def spec_run_def by blast
qed



section \<open>The expiration heap\<close>

text \<open>
  Compacting does not bound the heap. Records of an entry that was rewritten are kept as long
  as its digest is cached, so storing one digest \<open>n\<close> times leaves \<open>n\<close> records, however small the
  capacity.
\<close>

theorem l1_heap_unbounded:
  assumes "0 < ttl"
  shows "length (expiration_heap (fold (\<lambda>_. l1_put now d r) [0..<n] (l1_new capacity ttl))) = n"
proof -
  define P where "P k c \<longleftrightarrow> l1_inv c \<and> default_ttl c = ttl \<and> expiration_heap c = replicate k \<lparr>expires_at = now + ttl, exp_digest = d\<rparr>"
    for k and c :: "'a l1_cache"
  have step: "P (Suc k) (l1_put now d r c)" if P: "P k c" for k c
  proof -
    have clean: "cleanup_expired now c' = c'" if "set (expiration_heap c') \<subseteq> {\<lparr>expires_at = now + ttl, exp_digest = d\<rparr>}" for c' :: "'a l1_cache"
      using that assms min_by_key_Some [of expires_at "expiration_heap c'"]
      by (fastforce simp: cleanup_expired_def cleanup_loop.simps [of now c'] split: option.split)
    have "l1_inv c" "default_ttl c = ttl" using P by (simp_all add: P_def)
    note put = put_spec [OF this(1), of now d r] and mr = make_room_spec [OF this(1), of d]
    define c2 where "c2 = (make_room d c)\<lparr>l1_map := AList.update d (cache_entry_new now r ttl) (l1_map (make_room d c)),
      l1_lru := touch d 0 (l1_lru (make_room d c)),
      expiration_heap := \<lparr>expires_at = now + ttl, exp_digest = d\<rparr> # expiration_heap (make_room d c)\<rparr>"
    have heap: "expiration_heap c2 = replicate (Suc k) \<lparr>expires_at = now + ttl, exp_digest = d\<rparr>"
      using P mr(6) by (simp add: c2_def P_def)
    have "l1_put now d r c = (if length (expiration_heap c2) > max_capacity c2 * 2 then prune_ghost_entries (cleanup_expired now c2) else c2)"
      using mr(3) \<open>default_ttl c = ttl\<close> by (simp add: l1_put_def make_room_def [symmetric] c2_def Let_def cache_entry_new_def)
    moreover have "cleanup_expired now c2 = c2" by (rule clean) (auto simp: heap)
    moreover have "expiration_heap (prune_ghost_entries c2) = expiration_heap c2"
      unfolding prune_ghost_entries_def by (simp add: heap filter_replicate) (simp add: c2_def update_conv')
    ultimately show ?thesis using put P heap by (simp add: P_def)
  qed
  have "P n (fold (\<lambda>_. l1_put now d r) [0..<n] (l1_new capacity ttl))"
  proof (induction n)
    case 0
    show ?case using l1_inv_new [of capacity ttl] by (simp add: P_def l1_new_def)
  qed (simp add: step)
  then show ?thesis by (simp add: P_def)
qed

theorem l1_heap_unbounded_witness:
  "let d = \<lparr>hash = [7], dsize = 1\<rparr>; r = \<lparr>car_digest = d, car_proto = (3 :: nat)\<rparr>
   in length (expiration_heap (fold (\<lambda>_. l1_put 9 d r) [0..<1000] (l1_new 1 10))) = 1000"
  unfolding Let_def by (rule l1_heap_unbounded) simp

end
