(* ===== verification/Disk_Action_Cache.thy ===== *)
theory Disk_Action_Cache
  imports Cas_Backend Action_Cache
begin

text \<open>
  \<open>cache/disk_action_cache.rs\<close>: the in-memory action cache over encoded results on disk.
  \<open>encode\<close> and \<open>decode\<close> are the package \<open>prost\<close> on the message \<open>ActionResult\<close>, with
  \<open>proto_codec\<close> what the code relies on. As for the disk CAS, \<open>io\<close> says which calls into the file
  system fail, \<open>uuid\<close> names the staging file, and \<open>now\<close> is the one clock of the model.
\<close>

definition proto_codec :: "('p \<Rightarrow> bytes) \<Rightarrow> (bytes \<Rightarrow> 'p option) \<Rightarrow> bool" where
  "proto_codec encode decode \<longleftrightarrow> (\<forall>p. decode (encode p) = Some p)"

record 'p disk_ac =
  ac_files :: file_tree
  ac_max_size :: u64
  ac_size :: u64
  ac_ttl :: millis
  ac_l1 :: "'p l1_cache"
  ac_lru :: lru_state
  ac_ready :: bool

definition ac_with_max_size_bytes :: "file_tree \<Rightarrow> u64 \<Rightarrow> millis \<Rightarrow> nat \<Rightarrow> millis \<Rightarrow> 'p disk_ac" where
  "ac_with_max_size_bytes files max_bytes ttl l1_capacity l1_ttl =
     \<lparr>ac_files = files, ac_max_size = max_bytes, ac_size = 0, ac_ttl = ttl, ac_l1 = l1_new l1_capacity l1_ttl,
      ac_lru = lru_new, ac_ready = False\<rparr>"

definition ac_new :: "file_tree \<Rightarrow> u64 \<Rightarrow> millis \<Rightarrow> nat \<Rightarrow> millis \<Rightarrow> 'p disk_ac" where
  "ac_new files max_gb ttl l1_capacity l1_ttl =
     ac_with_max_size_bytes files (max_gb * 1024 * 1024 * 1024) ttl l1_capacity l1_ttl"

definition ac_warm_up_entry :: "scanned_entry \<Rightarrow> digest_info \<times> nat \<times> nat" where
  "ac_warm_up_entry x = (se_digest x, file_size x, mtime_millis x)"

definition ac_warm_up :: "(fs_call \<Rightarrow> bool) \<Rightarrow> millis \<Rightarrow> 'p disk_ac \<Rightarrow> bool \<times> 'p disk_ac" where
  "ac_warm_up io now k =
     (let k1 = k\<lparr>ac_files := sweep_staging_logged io now (ac_files k), ac_lru := floor_counter now (ac_lru k)\<rparr>
      in case walk_store io (ac_files k1) of
           None \<Rightarrow> (False, k1)
         | Some scanned \<Rightarrow>
              (let (restored, lru) = restore_recency (map ac_warm_up_entry scanned) (ac_lru k1)
               in (True, k1\<lparr>ac_lru := lru, ac_size := ac_size k1 + of_nat (rt_bytes restored), ac_ready := True\<rparr>)))"

definition ac_is_ready :: "'p disk_ac \<Rightarrow> bool" where
  "ac_is_ready k = ac_ready k"

definition ac_entry_path :: "(bytes \<Rightarrow> string) \<Rightarrow> digest_info \<Rightarrow> path" where
  "ac_entry_path hex_encode d = entry_path hex_encode d"

definition discard :: "(fs_call \<Rightarrow> bool) \<Rightarrow> digest_info \<Rightarrow> path \<Rightarrow> nat \<Rightarrow> 'p disk_ac \<Rightarrow> 'p disk_ac" where
  "discard io d p sz k =
     (let k1 = (if map_of (ac_files k) p \<noteq> None \<and> \<not> io (Unlink p)
                then k\<lparr>ac_files := AList.delete p (ac_files k), ac_size := ac_size k - of_nat sz\<rparr> else k)
      in k1\<lparr>ac_lru := snd (lru_remove d (ac_lru k1))\<rparr>)"

text \<open>The error of a failed call is its left value.\<close>

definition read_disk ::
  "(fs_call \<Rightarrow> bool) \<Rightarrow> (bytes \<Rightarrow> string) \<Rightarrow> (bytes \<Rightarrow> 'p option) \<Rightarrow> millis \<Rightarrow> digest_info \<Rightarrow> 'p disk_ac \<Rightarrow>
   (unit + 'p option) \<times> 'p disk_ac" where
  "read_disk io hex_encode decode now d k =
     (let p = ac_entry_path hex_encode d in
      if io Stat then (Inl (), k)
      else case map_of (ac_files k) p of
             None \<Rightarrow> (Inr None, k)
           | Some f \<Rightarrow>
               if now - mtime f > ac_ttl k then (Inr None, discard io d p (file_len f) k)
               else if io ReadFile then (Inl (), k)
               else (case decode (content f) of
                       Some proto \<Rightarrow> (Inr (Some proto), k\<lparr>ac_lru := touch d (file_len f) (ac_lru k)\<rparr>)
                     | None \<Rightarrow> (Inr None, discard io d p (file_len f) k)))"

definition ac_get_with_tier ::
  "(fs_call \<Rightarrow> bool) \<Rightarrow> (bytes \<Rightarrow> string) \<Rightarrow> (bytes \<Rightarrow> 'p option) \<Rightarrow> millis \<Rightarrow> digest_info \<Rightarrow> 'p disk_ac \<Rightarrow>
   'p get_result \<times> 'p disk_ac" where
  "ac_get_with_tier io hex_encode decode now d k =
     (case l1_get now d (ac_l1 k) of
        (Some r, c) \<Rightarrow> (\<lparr>gr_result = Some r, gr_tier = L1\<rparr>, k\<lparr>ac_l1 := c\<rparr>)
      | (None, c) \<Rightarrow>
          (case read_disk io hex_encode decode now d (k\<lparr>ac_l1 := c\<rparr>) of
             (Inr (Some proto), k1) \<Rightarrow>
               (let r = \<lparr>car_digest = d, car_proto = proto\<rparr>
                in (\<lparr>gr_result = Some r, gr_tier = L2\<rparr>, k1\<lparr>ac_l1 := l1_put now d r (ac_l1 k1)\<rparr>))
           | (Inr None, k1) \<Rightarrow> (\<lparr>gr_result = None, gr_tier = Miss\<rparr>, k1)
           | (Inl _, k1) \<Rightarrow> (\<lparr>gr_result = None, gr_tier = Miss\<rparr>, k1)))"

definition ac_get ::
  "(fs_call \<Rightarrow> bool) \<Rightarrow> (bytes \<Rightarrow> string) \<Rightarrow> (bytes \<Rightarrow> 'p option) \<Rightarrow> millis \<Rightarrow> digest_info \<Rightarrow> 'p disk_ac \<Rightarrow>
   'p cache_action_result option \<times> 'p disk_ac" where
  "ac_get io hex_encode decode now d k =
     (case ac_get_with_tier io hex_encode decode now d k of (g, k1) \<Rightarrow> (gr_result g, k1))"

definition ac_remove :: "(fs_call \<Rightarrow> bool) \<Rightarrow> (bytes \<Rightarrow> string) \<Rightarrow> digest_info \<Rightarrow> 'p disk_ac \<Rightarrow> 'p disk_ac" where
  "ac_remove io hex_encode d k =
     (case lru_remove d (ac_lru k) of (removed, lru) \<Rightarrow>
        let p = ac_entry_path hex_encode d
        in k\<lparr>ac_l1 := invalidate d (ac_l1 k), ac_lru := lru,
             ac_size := (case removed of Some sz \<Rightarrow> ac_size k - of_nat sz | None \<Rightarrow> ac_size k),
             ac_files := (if io (Unlink p) then ac_files k else AList.delete p (ac_files k))\<rparr>)"

definition ac_evict_one ::
  "(fs_call \<Rightarrow> bool) \<Rightarrow> (bytes \<Rightarrow> string) \<Rightarrow> digest_info \<times> nat \<Rightarrow> 'p disk_ac \<Rightarrow> 'p disk_ac" where
  "ac_evict_one io hex_encode v k =
     (case v of (d, sz) \<Rightarrow>
        let p = ac_entry_path hex_encode d in
        if map_of (ac_files k) p \<noteq> None \<and> \<not> io (Unlink p)
        then k\<lparr>ac_files := AList.delete p (ac_files k), ac_size := ac_size k - of_nat sz,
               ac_l1 := invalidate d (ac_l1 k)\<rparr>
        else k)"

definition ac_evict_if_needed :: "(fs_call \<Rightarrow> bool) \<Rightarrow> (bytes \<Rightarrow> string) \<Rightarrow> 'p disk_ac \<Rightarrow> 'p disk_ac" where
  "ac_evict_if_needed io hex_encode k =
     (if ac_max_size k = 0 \<or> ac_size k \<le> ac_max_size k then k
      else (let (victims, lru) = evict (unat (ac_size k - ac_max_size k)) (ac_lru k)
            in fold (ac_evict_one io hex_encode) victims (k\<lparr>ac_lru := lru\<rparr>)))"

text \<open>
  The staged file is published with a hard link, which fails when the entry exists. It is removed
  in any case, by the call itself or when its \<open>StagingFile\<close> goes out of scope.
\<close>

definition persist ::
  "(fs_call \<Rightarrow> bool) \<Rightarrow> (bytes \<Rightarrow> string) \<Rightarrow> millis \<Rightarrow> string \<Rightarrow> digest_info \<Rightarrow> bytes \<Rightarrow> 'p disk_ac \<Rightarrow> 'p disk_ac" where
  "persist io hex_encode now uuid d data k =
     (let p = ac_entry_path hex_encode d;
          node = \<lparr>content = data, mtime = now\<rparr>;
          staged = (\<lambda>t f. if io UnlinkStaged then AList.update (staging_path uuid) f t
                          else AList.delete (staging_path uuid) t)
      in if io MakeDirs then k
         else if io WriteStaged then k\<lparr>ac_files := staged (ac_files k) \<lparr>content = [], mtime = now\<rparr>\<rparr>
         else if io Link then k\<lparr>ac_files := staged (ac_files k) node\<rparr>
         else case map_of (ac_files k) p of
                None \<Rightarrow>
                  ac_evict_if_needed io hex_encode
                    (k\<lparr>ac_files := staged (AList.update p node (ac_files k)) node,
                       ac_size := ac_size k + of_nat (length data),
                       ac_lru := touch d (length data) (ac_lru k)\<rparr>)
              | Some f \<Rightarrow>
                  k\<lparr>ac_files := staged (ac_files k) node,
                    ac_lru := touch d (if io Stat then length data else file_len f) (ac_lru k)\<rparr>)"

definition ac_put ::
  "(fs_call \<Rightarrow> bool) \<Rightarrow> (bytes \<Rightarrow> string) \<Rightarrow> ('p \<Rightarrow> bytes) \<Rightarrow> millis \<Rightarrow> string \<Rightarrow> digest_info \<Rightarrow> 'p cache_action_result \<Rightarrow>
   'p disk_ac \<Rightarrow> 'p disk_ac" where
  "ac_put io hex_encode encode now uuid d result k =
     (let k1 = k\<lparr>ac_l1 := l1_put now d result (ac_l1 k)\<rparr>; data = encode (car_proto result) in
      if io Stat then k1
      else case map_of (ac_files k1) (ac_entry_path hex_encode d) of
             Some f \<Rightarrow> k1\<lparr>ac_lru := touch d (file_len f) (ac_lru k1)\<rparr>
           | None \<Rightarrow>
               if ac_max_size k1 > 0 \<and> length data > unat (ac_max_size k1) then k1
               else persist io hex_encode now uuid d data k1)"

definition ac_size_bytes :: "'p disk_ac \<Rightarrow> u64" where
  "ac_size_bytes k = ac_size k"

definition ac_max_size_bytes :: "'p disk_ac \<Rightarrow> u64" where
  "ac_max_size_bytes k = ac_max_size k"

definition ac_len :: "'p disk_ac \<Rightarrow> nat" where
  "ac_len k = l1_len (ac_l1 k)"

definition ac_is_empty :: "'p disk_ac \<Rightarrow> bool" where
  "ac_is_empty k = (ac_len k = 0)"

section \<open>What is served was stored\<close>

text \<open>
  \<open>H\<close> are the results stored so far, with their times. What is on disk was stored for its hash at
  the time of the file; what is in memory was stored, and came there within the lifetime of the
  file.
\<close>

definition stored_for :: "(digest_info \<times> 'p \<times> millis) set \<Rightarrow> digest_info \<Rightarrow> 'p \<Rightarrow> millis \<Rightarrow> bool" where
  "stored_for H d p t \<longleftrightarrow> (\<exists>d'. hash d' = hash d \<and> (d', p, t) \<in> H)"

definition files_stored :: "(bytes \<Rightarrow> 'p option) \<Rightarrow> (digest_info \<times> 'p \<times> millis) set \<Rightarrow> file_tree \<Rightarrow> bool" where
  "files_stored decode H t \<longleftrightarrow> distinct (map fst t) \<and>
     (\<forall>d f p. length (hash d) = 32 \<longrightarrow> map_of t (entry_path lower_hex d) = Some f \<longrightarrow> decode (content f) = Some p \<longrightarrow>
        stored_for H d p (mtime f))"

definition l1_stored :: "millis \<Rightarrow> millis \<Rightarrow> (digest_info \<times> 'p \<times> millis) set \<Rightarrow> 'p l1_cache \<Rightarrow> bool" where
  "l1_stored ttl l1_ttl H c \<longleftrightarrow> l1_inv c \<and> default_ttl c = l1_ttl \<and>
     (\<forall>d e. map_of (l1_map c) d = Some e \<longrightarrow> ce_ttl e = l1_ttl \<and>
        (\<exists>t. stored_for H d (car_proto (ce_data e)) t \<and> created_at e \<le> t + ttl))"

definition ac_ok ::
  "(bytes \<Rightarrow> 'p option) \<Rightarrow> millis \<Rightarrow> millis \<Rightarrow> (digest_info \<times> 'p \<times> millis) set \<Rightarrow> 'p disk_ac \<Rightarrow> bool" where
  "ac_ok decode ttl l1_ttl H k \<longleftrightarrow> ac_ttl k = ttl \<and> files_stored decode H (ac_files k) \<and> l1_stored ttl l1_ttl H (ac_l1 k)"

lemma stored_mono: "stored_for H d p t \<Longrightarrow> stored_for (insert x H) d p t"
  by (auto simp: stored_for_def)

lemma stored_insert: "stored_for (insert (d, p, t) H) d p t"
  by (auto simp: stored_for_def)

lemma files_stored_mono: "files_stored decode H t \<Longrightarrow> files_stored decode (insert x H) t"
  unfolding files_stored_def by (blast intro: stored_mono)

lemma l1_stored_mono: "l1_stored ttl l1_ttl H c \<Longrightarrow> l1_stored ttl l1_ttl (insert x H) c"
  unfolding l1_stored_def by (blast intro: stored_mono)

lemma files_stored_delete: "files_stored decode H t \<Longrightarrow> files_stored decode H (AList.delete p t)"
  by (auto simp: files_stored_def map_of_delete distinct_map_fst_filter AList.delete_eq split: if_splits)

lemma files_stored_sweep: "files_stored decode H t \<Longrightarrow> files_stored decode H (sweep_staging_logged io now t)"
  unfolding sweep_staging_logged_def sweep_staging_def files_stored_def
  by (auto simp: Let_def distinct_map_fst_filter dest: map_of_filter_distinct)

lemma files_stored_update:
  assumes "files_stored decode H t"
    and "\<And>d p. length (hash d) = 32 \<Longrightarrow> q = entry_path lower_hex d \<Longrightarrow> decode (content f) = Some p \<Longrightarrow> stored_for H d p (mtime f)"
  shows "files_stored decode H (AList.update q f t)"
proof -
  have "stored_for H d p (mtime g)"
    if "length (hash d) = 32" "map_of (AList.update q f t) (entry_path lower_hex d) = Some g" "decode (content g) = Some p" for d g p
    using that assms by (cases "q = entry_path lower_hex d") (auto simp: files_stored_def map_of_update)
  moreover have "distinct (map fst (AList.update q f t))" using assms(1) by (simp add: files_stored_def distinct_update)
  ultimately show ?thesis unfolding files_stored_def by blast
qed

lemma l1_stored_remove: "l1_stored ttl l1_ttl H c \<Longrightarrow> l1_stored ttl l1_ttl H (remove_entry d c)"
  by (simp add: l1_stored_def l1_inv_remove map_of_remove_entry)

lemma l1_stored_get: "l1_stored ttl l1_ttl H c \<Longrightarrow> l1_stored ttl l1_ttl H (snd (l1_get now d c))"
  using l1_stored_remove [of ttl l1_ttl H c d] l1_inv_touch [of c d]
  by (auto simp: l1_get_def l1_stored_def split: option.split)

lemma l1_stored_put:
  assumes "l1_stored ttl l1_ttl H c" "stored_for H d (car_proto r) t" "now \<le> t + ttl"
  shows "l1_stored ttl l1_ttl H (l1_put now d r c)"
proof -
  have inv: "l1_inv c" "default_ttl c = l1_ttl" using assms(1) by (simp_all add: l1_stored_def)
  note put = put_spec [OF inv(1), of now d r, unfolded inv(2)]
  have "ce_ttl e = l1_ttl \<and> (\<exists>t. stored_for H x (car_proto (ce_data e)) t \<and> created_at e \<le> t + ttl)"
    if "map_of (l1_map (l1_put now d r c)) x = Some e" for x e
  proof (cases "x = d")
    case True
    then have "e = cache_entry_new now r l1_ttl" using put that by simp
    then show ?thesis using assms(2,3) True by (auto simp: cache_entry_new_def)
  next
    case False
    then have "map_of (l1_map c) x = Some e" using put that by blast
    then show ?thesis using assms(1) unfolding l1_stored_def by blast
  qed
  then show ?thesis using put unfolding l1_stored_def by blast
qed

lemma ac_ok_discard: "ac_ok decode ttl l1_ttl H k \<Longrightarrow> ac_ok decode ttl l1_ttl H (discard io d p n k)"
  by (simp add: ac_ok_def discard_def files_stored_delete)

lemma read_disk_stored:
  assumes "ac_ok decode ttl l1_ttl H k" "length (hash d) = 32" "read_disk io lower_hex decode now d k = (r, k')"
  shows "ac_ok decode ttl l1_ttl H k' \<and> (\<forall>p. r = Inr (Some p) \<longrightarrow> (\<exists>t. stored_for H d p t \<and> now \<le> t + ttl))"
proof -
  have "\<exists>t. stored_for H d p t \<and> now \<le> t + ttl"
    if "map_of (ac_files k) (ac_entry_path lower_hex d) = Some f" "\<not> now - mtime f > ac_ttl k" "decode (content f) = Some p" for f p
  proof -
    have "stored_for H d p (mtime f)"
      using that(1,3) assms(1,2) by (simp add: ac_ok_def files_stored_def ac_entry_path_def)
    then show ?thesis using that(2) assms(1) by (auto simp: ac_ok_def)
  qed
  then show ?thesis
    using assms(1,3) ac_ok_discard [OF assms(1)]
    by (fastforce simp: read_disk_def Let_def ac_ok_def split: if_splits option.splits)
qed

lemma ac_get_stored:
  assumes ok: "ac_ok decode ttl l1_ttl H k" and d: "length (hash d) = 32"
    and g: "ac_get_with_tier io lower_hex decode now d k = (g, k')"
  shows "ac_ok decode ttl l1_ttl H k' \<and>
    (\<forall>r. gr_result g = Some r \<longrightarrow> (\<exists>t. stored_for H d (car_proto r) t \<and> now \<le> t + ttl + l1_ttl))"
proof -
  obtain q c where c: "l1_get now d (ac_l1 k) = (q, c)" by fastforce
  have l1: "l1_stored ttl l1_ttl H (ac_l1 k)" using ok by (simp add: ac_ok_def)
  have k1: "ac_ok decode ttl l1_ttl H (k\<lparr>ac_l1 := c\<rparr>)"
    using ok l1_stored_get [OF l1, of now d] c by (simp add: ac_ok_def)
  show ?thesis
  proof (cases q)
    case (Some r)
    then obtain e where e: "map_of (l1_map (ac_l1 k)) d = Some e" "ce_data e = r" "\<not> is_expired now e"
      using c by (auto simp: l1_get_def split: option.splits if_splits)
    then obtain t where "stored_for H d (car_proto r) t" "created_at e \<le> t + ttl" "ce_ttl e = l1_ttl"
      using l1 unfolding l1_stored_def by blast
    moreover from this have "now \<le> t + ttl + l1_ttl" using e(3) by (simp add: is_expired_def)
    ultimately show ?thesis using g c Some k1 by (auto simp: ac_get_with_tier_def)
  next
    case None
    obtain r k2 where r: "read_disk io lower_hex decode now d (k\<lparr>ac_l1 := c\<rparr>) = (r, k2)" by fastforce
    note rd = read_disk_stored [OF k1 d r]
    show ?thesis
    proof (cases "\<exists>p. r = Inr (Some p)")
      case True
      then obtain p t where p: "r = Inr (Some p)" "stored_for H d p t" "now \<le> t + ttl" using rd by blast
      have "l1_stored ttl l1_ttl H (l1_put now d \<lparr>car_digest = d, car_proto = p\<rparr> (ac_l1 k2))"
        by (rule l1_stored_put) (use rd p in \<open>simp_all add: ac_ok_def\<close>)
      moreover have "now \<le> t + ttl + l1_ttl" using p(3) by simp
      ultimately show ?thesis
        using g c None r p(1,2) rd by (auto simp: ac_get_with_tier_def ac_ok_def Let_def intro!: exI [of _ t])
    next
      case False
      then show ?thesis using g c None r rd by (auto simp: ac_get_with_tier_def split: sum.splits option.splits)
    qed
  qed
qed

lemma ac_ok_evict: "ac_ok decode ttl l1_ttl H k \<Longrightarrow> ac_ok decode ttl l1_ttl H (ac_evict_if_needed io lower_hex k)"
proof -
  assume ok: "ac_ok decode ttl l1_ttl H k"
  have "ac_ok decode ttl l1_ttl H (fold (ac_evict_one io lower_hex) vs j)" if "ac_ok decode ttl l1_ttl H j" for vs j
    using that
  proof (induction vs arbitrary: j)
    case (Cons v vs)
    have "ac_ok decode ttl l1_ttl H (ac_evict_one io lower_hex v j)"
      using Cons.prems l1_stored_remove
      by (auto simp: ac_ok_def ac_evict_one_def Let_def files_stored_delete invalidate_def split: prod.split)
    from Cons.IH [OF this] show ?case by simp
  qed simp
  moreover have "ac_ok decode ttl l1_ttl H (k\<lparr>ac_lru := lru\<rparr>)" for lru using ok by (simp add: ac_ok_def)
  ultimately show ?thesis using ok by (auto simp: ac_evict_if_needed_def split: prod.split)
qed

lemma files_stored_staged: "files_stored decode H t \<Longrightarrow> files_stored decode H (AList.update (staging_path uuid) f t)"
  using entry_path_not_staging [OF lower_hex_is_codec, of _ uuid] by (intro files_stored_update) metis+

lemma ac_ok_put:
  assumes codec: "proto_codec encode decode" and d: "length (hash d) = 32" and ok: "ac_ok decode ttl l1_ttl H k"
  shows "ac_ok decode ttl l1_ttl (insert (d, car_proto r, now) H) (ac_put io lower_hex encode now uuid d r k)"
proof -
  let ?H = "insert (d, car_proto r, now) H" and ?node = "\<lparr>content = encode (car_proto r), mtime = now\<rparr>"
  define k1 where "k1 = k\<lparr>ac_l1 := l1_put now d r (ac_l1 k)\<rparr>"
  have "l1_stored ttl l1_ttl ?H (l1_put now d r (ac_l1 k))"
    by (rule l1_stored_put [OF l1_stored_mono stored_insert]) (use ok in \<open>simp_all add: ac_ok_def\<close>)
  then have k1: "ac_ok decode ttl l1_ttl ?H k1" using ok files_stored_mono by (auto simp: ac_ok_def k1_def)
  have fs: "files_stored decode ?H (ac_files k1)" using k1 by (simp add: ac_ok_def)
  have "stored_for ?H e p now" if "length (hash e) = 32" "entry_path lower_hex d = entry_path lower_hex e" "decode (encode (car_proto r)) = Some p" for e p
    using that codec entry_path_inject [OF lower_hex_is_codec d, of e] by (auto simp: stored_for_def proto_codec_def)
  then have up: "files_stored decode ?H (AList.update (ac_entry_path lower_hex d) ?node (ac_files k1))"
    unfolding ac_entry_path_def by (intro files_stored_update [OF fs]) auto
  have set: "ac_ok decode ttl l1_ttl ?H (k1\<lparr>ac_files := t, ac_size := z, ac_lru := l\<rparr>)"
    "ac_ok decode ttl l1_ttl ?H (k1\<lparr>ac_files := t, ac_lru := l\<rparr>)" "ac_ok decode ttl l1_ttl ?H (k1\<lparr>ac_files := t\<rparr>)"
    if "files_stored decode ?H t" for t z l using k1 that by (simp_all add: ac_ok_def)
  have "ac_ok decode ttl l1_ttl ?H (persist io lower_hex now uuid d (encode (car_proto r)) k1)"
    unfolding persist_def Let_def
    using k1 fs up by (auto intro!: set ac_ok_evict files_stored_staged files_stored_delete split: option.split)
  then show ?thesis
    using k1 by (auto simp: ac_put_def k1_def [symmetric] Let_def ac_ok_def split: option.split)
qed

inductive ac_run ::
  "('p \<Rightarrow> bytes) \<Rightarrow> (bytes \<Rightarrow> 'p option) \<Rightarrow> millis \<Rightarrow> millis \<Rightarrow> (digest_info \<times> 'p \<times> millis) set \<Rightarrow> 'p disk_ac \<Rightarrow> bool"
  for encode decode ttl l1_ttl where
  ac_start: "ac_run encode decode ttl l1_ttl {} (ac_with_max_size_bytes [] m ttl capacity l1_ttl)"
| ac_run_put: "ac_run encode decode ttl l1_ttl H k \<Longrightarrow> length (hash d) = 32 \<Longrightarrow>
    ac_run encode decode ttl l1_ttl (insert (d, car_proto r, now) H) (ac_put io lower_hex encode now uuid d r k)"
| ac_run_get: "ac_run encode decode ttl l1_ttl H k \<Longrightarrow> length (hash d) = 32 \<Longrightarrow>
    ac_run encode decode ttl l1_ttl H (snd (ac_get_with_tier io lower_hex decode now d k))"
| ac_run_remove: "ac_run encode decode ttl l1_ttl H k \<Longrightarrow> ac_run encode decode ttl l1_ttl H (ac_remove io lower_hex d k)"
| ac_run_warm_up: "ac_run encode decode ttl l1_ttl H k \<Longrightarrow> ac_run encode decode ttl l1_ttl H (snd (ac_warm_up io now k))"
| ac_run_reopen: "ac_run encode decode ttl l1_ttl H k \<Longrightarrow>
    ac_run encode decode ttl l1_ttl H (ac_with_max_size_bytes (ac_files k) m ttl capacity l1_ttl)"

lemma ac_ok_fresh: "files_stored decode H t \<Longrightarrow> ac_ok decode ttl l1_ttl H (ac_with_max_size_bytes t m ttl capacity l1_ttl)"
  using l1_inv_new [of capacity l1_ttl] by (simp add: ac_ok_def ac_with_max_size_bytes_def l1_stored_def l1_new_def)

lemma ac_run_ok:
  assumes "proto_codec encode decode" "ac_run encode decode ttl l1_ttl H k"
  shows "ac_ok decode ttl l1_ttl H k"
  using assms(2)
proof induction
  case (ac_start m capacity)
  show ?case by (rule ac_ok_fresh) (simp add: files_stored_def)
next
  case (ac_run_put H k d r now io uuid)
  then show ?case by (intro ac_ok_put [OF assms(1)])
next
  case (ac_run_get H k d io now)
  then show ?case using ac_get_stored [of decode ttl l1_ttl H k d io now] by (metis prod.collapse)
next
  case (ac_run_remove H k io d)
  then show ?case
    using l1_stored_remove by (auto simp: ac_ok_def ac_remove_def Let_def files_stored_delete invalidate_def split: prod.split)
next
  case (ac_run_warm_up H k io now)
  then show ?case by (simp add: ac_ok_def ac_warm_up_def Let_def files_stored_sweep split: prod.split option.split)
next
  case (ac_run_reopen H k m capacity)
  then show ?case by (intro ac_ok_fresh) (simp add: ac_ok_def)
qed

text \<open>
  C9: the action cache serves only results that were stored for the hash it is asked for,
  whatever faults the disk has and however often the cache is reopened, and none later than the
  lifetimes of a file and of an entry in memory together allow.
\<close>

theorem ac_serves_stored:
  assumes "proto_codec encode decode" "ac_run encode decode ttl l1_ttl H k" "length (hash d) = 32"
    and "ac_get_with_tier io lower_hex decode now d k = (g, k')" "gr_result g = Some r"
  shows "\<exists>d' t. hash d' = hash d \<and> (d', car_proto r, t) \<in> H \<and> now \<le> t + ttl + l1_ttl"
  using ac_get_stored [OF ac_run_ok [OF assms(1,2)] assms(3,4)] assms(5) by (auto simp: stored_for_def)

theorem ac_serves_stored_witness:
  "let d = \<lparr>hash = replicate 32 7, dsize = 2\<rparr>; r = \<lparr>car_digest = d, car_proto = [1, 2]\<rparr>;
       k = ac_put no_fault lower_hex (\<lambda>p. p) 5 ''u'' d r (ac_with_max_size_bytes [] 0 10 1 10)
   in fst (ac_get_with_tier no_fault lower_hex Some 9 d k) = \<lparr>gr_result = Some r, gr_tier = L1\<rparr> \<and>
     (\<exists>d' t. hash d' = hash d \<and> (d', car_proto r, t) \<in> {(d, [1, 2], 5 :: millis)} \<and> 9 \<le> t + 10 + 10)"
proof -
  define d where "d = \<lparr>hash = replicate 32 7 :: bytes, dsize = 2\<rparr>"
  define r where "r = \<lparr>car_digest = d, car_proto = [1, 2 :: 8 word]\<rparr>"
  define k where "k = ac_put no_fault lower_hex (\<lambda>p. p) 5 ''u'' d r (ac_with_max_size_bytes [] 0 10 1 10)"
  have run: "ac_run (\<lambda>p. p) Some 10 10 {(d, [1, 2], 5)} k"
    using ac_run_put [OF ac_start [of "\<lambda>p. p" Some 10 10 0 1], of d r 5 no_fault "''u''"] by (simp add: k_def d_def r_def)
  have "ac_l1 k = l1_put 5 d r (l1_new 1 10)"
    by (simp add: k_def ac_put_def ac_with_max_size_bytes_def persist_def Let_def ac_evict_if_needed_def)
  then have "fst (l1_get 9 d (ac_l1 k)) = Some r"
    using put_spec [OF l1_inv_new [of 1 10], of 5 d r] by (simp add: l1_get_def is_expired_def cache_entry_new_def l1_new_def)
  then obtain k' where g: "ac_get_with_tier no_fault lower_hex Some 9 d k = (\<lparr>gr_result = Some r, gr_tier = L1\<rparr>, k')"
    by (cases "l1_get 9 d (ac_l1 k)") (simp add: ac_get_with_tier_def)
  have "\<exists>d' t. hash d' = hash d \<and> (d', car_proto r, t) \<in> {(d, [1, 2], 5 :: millis)} \<and> 9 \<le> t + 10 + 10"
    by (rule ac_serves_stored [OF _ run _ g]) (simp_all add: proto_codec_def d_def)
  then show ?thesis
    unfolding Let_def d_def [symmetric] r_def [symmetric] k_def [symmetric] using g by simp
qed

text \<open>
  An entry can be served after it has expired on disk. A hit on disk puts the result in memory
  for a lifetime of its own, so it is served until then whatever the age of the file.
\<close>

theorem promoted_outlives_ttl:
  assumes "l1_inv (ac_l1 k)" "ac_get_with_tier io hex_encode decode now d k = (\<lparr>gr_result = Some r, gr_tier = L2\<rparr>, k1)"
    and "later \<le> now + default_ttl (ac_l1 k)"
  shows "fst (ac_get_with_tier io' hex_encode' decode' later d k1) = \<lparr>gr_result = Some r, gr_tier = L1\<rparr>"
proof -
  obtain c k2 where c: "l1_get now d (ac_l1 k) = (None, c)" "read_disk io hex_encode decode now d (k\<lparr>ac_l1 := c\<rparr>) = (Inr (Some (car_proto r)), k2)"
    and r: "r = \<lparr>car_digest = d, car_proto = car_proto r\<rparr>" and k1: "k1 = k2\<lparr>ac_l1 := l1_put now d r (ac_l1 k2)\<rparr>"
    using assms(2) by (auto simp: ac_get_with_tier_def Let_def split: prod.splits option.splits sum.splits)
  have "ac_l1 k2 = c" using c(2) by (auto simp: read_disk_def Let_def discard_def split: if_splits option.splits)
  moreover have "l1_inv c" "default_ttl c = default_ttl (ac_l1 k)"
    using c(1) assms(1) l1_inv_remove by (auto simp: l1_get_def split: option.splits if_splits)
  ultimately have "fst (l1_get later d (ac_l1 k1)) = Some r"
    using put_spec [of c now d r] assms(3) by (auto simp: k1 l1_get_def is_expired_def cache_entry_new_def)
  then show ?thesis by (cases "l1_get later d (ac_l1 k1)") (simp add: ac_get_with_tier_def)
qed

theorem promoted_outlives_ttl_witness:
  "let d = \<lparr>hash = replicate 32 7, dsize = 2\<rparr>; f = \<lparr>content = [1, 2], mtime = 0\<rparr>;
       k = ac_with_max_size_bytes [(entry_path lower_hex d, f)] 0 10 1 10;
       k1 = snd (ac_get_with_tier no_fault lower_hex Some 10 d k)
   in fst (ac_get_with_tier no_fault lower_hex Some 20 d k1) =
        \<lparr>gr_result = Some \<lparr>car_digest = d, car_proto = [1, 2]\<rparr>, gr_tier = L1\<rparr>"
proof -
  define d where "d = \<lparr>hash = replicate 32 7 :: bytes, dsize = 2\<rparr>"
  define k where "k = (ac_with_max_size_bytes [(entry_path lower_hex d, \<lparr>content = [1, 2], mtime = 0\<rparr>)] 0 10 1 10 :: bytes disk_ac)"
  have l1: "ac_l1 k = l1_new 1 10" by (simp add: k_def ac_with_max_size_bytes_def)
  obtain k1 where g: "ac_get_with_tier no_fault lower_hex Some 10 d k =
      (\<lparr>gr_result = Some \<lparr>car_digest = d, car_proto = [1, 2]\<rparr>, gr_tier = L2\<rparr>, k1)"
    by (simp add: ac_get_with_tier_def l1 l1_get_def read_disk_def k_def ac_with_max_size_bytes_def l1_new_def ac_entry_path_def Let_def)
  have "fst (ac_get_with_tier no_fault lower_hex Some 20 d k1) = \<lparr>gr_result = Some \<lparr>car_digest = d, car_proto = [1, 2]\<rparr>, gr_tier = L1\<rparr>"
    by (rule promoted_outlives_ttl [OF _ g]) (simp_all add: l1 l1_inv_new, simp add: l1_new_def)
  then show ?thesis unfolding Let_def d_def [symmetric] k_def [symmetric] g by simp
qed

section \<open>Recency after a restart\<close>

lemma scan_entry_path:
  "length (hash d) = 32 \<Longrightarrow> scan_entry (entry_path lower_hex d, f) =
     Some \<lparr>se_digest = \<lparr>hash = hash d, dsize = 0\<rparr>, file_size = file_len f, mtime_millis = mtime f\<rparr>"
  using entry_path_visible [OF lower_hex_is_codec, of d] by (simp add: scan_entry_def entry_path_digest [OF lower_hex_is_codec])

lemma sweep_entries:
  assumes "\<forall>(q, f) \<in> set t. \<exists>d. length (hash d) = 32 \<and> q = entry_path lower_hex d"
  shows "sweep_staging_logged io now t = t"
proof -
  have "\<not> stale_staging now older x" if x: "x \<in> set t" for x older
  proof -
    obtain d where "length (hash d) = 32" "fst x = entry_path lower_hex d" using assms x by (cases x) auto
    then show ?thesis by (cases x) (auto simp: stale_staging_def entry_path_def Let_def)
  qed
  then show ?thesis by (auto simp: sweep_staging_logged_def sweep_staging_def Let_def filter_id_conv)
qed

text \<open>
  After a restart the entry used last can be the first to be evicted. The warm-up tracks an
  entry under its hash with size zero; a hit tracks it again under the digest of the request and
  leaves the old key, with the age of the file, in the order. So the older of two entries goes
  even though it was just read and the other was not.
\<close>

theorem restored_hot_entry_evicted:
  assumes "length (hash a) = 32" "length (hash b) = 32" "hash a \<noteq> hash b" "dsize a \<noteq> 0"
    and "mtime fa < mtime fb" "decode (content fa) = Some p" "now - mtime fa \<le> ttl"
    and "file_len fb \<le> unat m" "unat m < file_len fa + file_len fb" "file_len fa + file_len fb < 2 ^ 64" "m > 0"
    and "k = ac_with_max_size_bytes [(ac_entry_path lower_hex a, fa), (ac_entry_path lower_hex b, fb)] m ttl capacity l1_ttl"
    and "ac_get_with_tier no_fault lower_hex decode now a (snd (ac_warm_up no_fault start k)) = (g, k1)"
  shows "gr_result g = Some \<lparr>car_digest = a, car_proto = p\<rparr> \<and>
    ac_files (ac_evict_if_needed no_fault lower_hex k1) = [(ac_entry_path lower_hex b, fb)]"
proof -
  let ?a0 = "\<lparr>hash = hash a, dsize = 0\<rparr>" and ?b0 = "\<lparr>hash = hash b, dsize = 0\<rparr>"
  let ?t = "[(entry_path lower_hex a, fa), (entry_path lower_hex b, fb)]"
  let ?es = "[(?a0, file_len fa, mtime fa), (?b0, file_len fb, mtime fb)]"
  have ne: "entry_path lower_hex a \<noteq> entry_path lower_hex b"
    using entry_path_inject [OF lower_hex_is_codec assms(1,2)] assms(3) by simp
  have sw: "sweep_staging_logged no_fault start ?t = ?t" by (rule sweep_entries) (use assms(1,2) in auto)
  have sc: "map ac_warm_up_entry (listing ?t) = ?es"
    using assms(1,2) by (simp add: listing_def List.map_filter_simps scan_entry_path ac_warm_up_entry_def)
  have so: "sort_key (\<lambda>(_, _, st). st) ?es = ?es" using assms(5) by simp
  define s0 where "s0 = floor_counter start lru_new"
  have s0: "lru_unique s0" "order s0 = []" "hash_index s0 = Map.empty"
    using lru_unique_floor [OF lru_unique_new] by (simp_all add: s0_def) (simp_all add: floor_counter_def lru_new_def)
  obtain tot s where r: "restore_loop ?es 0 \<lparr>rt_entries = 0, rt_bytes = 0\<rparr> s0 = (tot, s)" by fastforce
  have rs: "recency s = [?a0, ?b0]" "rt_bytes tot = file_len fa + file_len fb" "lru_unique s"
    using restore_loop_spec [OF s0(1), of "[]" "[]" 0 ?es, OF _ _ _ _ _ r] assms(3,5) s0 by (auto simp: slots_below_def)
  have sz: "sizes s ?a0 = Some (file_len fa)"
    using restore_loop_sizes [OF r _ s0(1), of ?a0 "file_len fa"] assms(3) s0 by auto
  define k0 where "k0 = snd (ac_warm_up no_fault start k)"
  have k0: "ac_files k0 = ?t" "ac_lru k0 = s" "ac_size k0 = of_nat (file_len fa + file_len fb)" "ac_max_size k0 = m" "ac_ttl k0 = ttl"
    "ac_l1 k0 = l1_new capacity l1_ttl"
    using r rs(2) by (simp_all add: k0_def assms(12) ac_warm_up_def ac_with_max_size_bytes_def ac_entry_path_def sw Let_def
        s0_def [symmetric] restore_recency_def sc so del: sort_key_simps)
  have g: "gr_result g = Some \<lparr>car_digest = a, car_proto = p\<rparr>" "ac_files k1 = ?t" "ac_lru k1 = touch a (file_len fa) s"
    "ac_size k1 = of_nat (file_len fa + file_len fb)" "ac_max_size k1 = m"
    using assms(13,6,7) k0 unfolding k0_def [symmetric]
    by (auto simp: ac_get_with_tier_def l1_get_def l1_new_def read_disk_def ac_entry_path_def Let_def)
  have diff: "?a0 \<noteq> a" "?b0 \<noteq> a" using assms(3,4) by (metis digest_info.select_convs)+
  have inv: "lru_inv (ac_lru k1)" "recency (ac_lru k1) = [?a0, ?b0, a]" "sizes (ac_lru k1) ?a0 = Some (file_len fa)"
    using rs sz diff by (simp_all add: g(3) lru_unique_inv lru_inv_touch recency_touch)
  let ?n = "unat (ac_size k1 - m)"
  have size: "unat (ac_size k1) = file_len fa + file_len fb" using unat_of_nat_u64 [OF assms(10)] by (simp add: g(4))
  then have over: "\<not> ac_size k1 \<le> m" using assms(9) by (simp add: word_le_nat_alt)
  then have n: "?n = file_len fa + file_len fb - unat m" using size unat_sub [of m "ac_size k1"] by simp
  have "evict (?n - file_len fa) (snd (pop_lru (ac_lru k1))) = ([], snd (pop_lru (ac_lru k1)))"
    by (rule evict_stop) (use n assms(8) in simp)
  then have "evict ?n (ac_lru k1) = ([(?a0, file_len fa)], snd (pop_lru (ac_lru k1)))"
    using evict_step [OF inv(1,2), of ?n "[]"] inv(3) n assms(9) by simp
  moreover have "entry_path lower_hex ?a0 = entry_path lower_hex a" by (simp add: entry_path_def hash_to_string_def)
  ultimately have "ac_files (ac_evict_if_needed no_fault lower_hex k1) = [(entry_path lower_hex b, fb)]"
    using over assms(11) g(2,5) ne by (simp add: ac_evict_if_needed_def ac_evict_one_def ac_entry_path_def)
  then show ?thesis using g(1) by (simp add: ac_entry_path_def)
qed

theorem restored_hot_entry_evicted_witness:
  "let a = \<lparr>hash = replicate 32 7, dsize = 9\<rparr>; b = \<lparr>hash = replicate 32 8, dsize = 9\<rparr>;
       fa = \<lparr>content = [1, 2], mtime = 1\<rparr>; fb = \<lparr>content = [3, 4], mtime = 2\<rparr>;
       k = ac_with_max_size_bytes [(ac_entry_path lower_hex a, fa), (ac_entry_path lower_hex b, fb)] 3 100 1 100;
       k1 = snd (ac_get_with_tier no_fault lower_hex Some 6 a (snd (ac_warm_up no_fault 5 k)))
   in ac_files (ac_evict_if_needed no_fault lower_hex k1) = [(ac_entry_path lower_hex b, fb)]"
  unfolding Let_def
  by (rule restored_hot_entry_evicted [OF _ _ _ _ _ _ _ _ _ _ _ refl prod.collapse [symmetric], THEN conjunct2])
    (simp_all add: file_len_def replicate_eq_replicate)

end
