(* ===== verification/Tiered_Action_Cache.thy ===== *)
theory Tiered_Action_Cache
  imports Disk_Action_Cache Object_Cas
begin

text \<open>
  \<open>cache/object_action_cache.rs\<close> and \<open>cache/tiered_action_cache.rs\<close>: the action cache on an object
  store and the disk action cache in front of it. The uploads that run in the background are a
  list of pending results; each holds a permit and ends with \<open>run_promotion\<close>, at any later time.
\<close>

section \<open>The action cache on an object store\<close>

record 's object_ac =
  oac_store :: "'s object_store"
  oac_prefix :: string

definition object_ac_new :: "'s object_store \<Rightarrow> string \<Rightarrow> 's object_ac" where
  "object_ac_new store prefix = \<lparr>oac_store = store, oac_prefix = prefix\<rparr>"

text \<open>The action cache of a CAS backend shares its store and its prefix.\<close>

definition backend_action_cache :: "'s object_backend \<Rightarrow> 's object_ac" where
  "backend_action_cache b = object_ac_new (ob_store b) (ob_prefix b)"

definition oac_key :: "(string \<Rightarrow> string) \<Rightarrow> (bytes \<Rightarrow> string) \<Rightarrow> 's object_ac \<Rightarrow> digest_info \<Rightarrow> string" where
  "oac_key object_path hex_encode oa d = object_path (oac_prefix oa @ ''ac/'' @ hash_to_string hex_encode d)"

definition oac_get ::
  "(string \<Rightarrow> string) \<Rightarrow> (bytes \<Rightarrow> string) \<Rightarrow> (bytes \<Rightarrow> 'p option) \<Rightarrow> 's object_ac \<Rightarrow> digest_info \<Rightarrow> 's \<Rightarrow>
   'p option os_result \<times> 's" where
  "oac_get object_path hex_encode decode oa d s =
     (case os_get (oac_store oa) (oac_key object_path hex_encode oa d) s of
        (Inr (Inr data), s1) \<Rightarrow> (Inr (decode data), s1)
      | (Inr (Inl e), s1) \<Rightarrow> (Inl e, s1)
      | (Inl (OsNotFound _), s1) \<Rightarrow> (Inr None, s1)
      | (Inl e, s1) \<Rightarrow> (Inl e, s1))"

definition oac_contains ::
  "(string \<Rightarrow> string) \<Rightarrow> (bytes \<Rightarrow> string) \<Rightarrow> 's object_ac \<Rightarrow> digest_info \<Rightarrow> 's \<Rightarrow> bool os_result \<times> 's" where
  "oac_contains object_path hex_encode oa d s =
     (case os_head (oac_store oa) (oac_key object_path hex_encode oa d) s of
        (Inr _, s1) \<Rightarrow> (Inr True, s1)
      | (Inl (OsNotFound _), s1) \<Rightarrow> (Inr False, s1)
      | (Inl e, s1) \<Rightarrow> (Inl e, s1))"

definition oac_put ::
  "(string \<Rightarrow> string) \<Rightarrow> (bytes \<Rightarrow> string) \<Rightarrow> ('p \<Rightarrow> bytes) \<Rightarrow> 's object_ac \<Rightarrow> digest_info \<Rightarrow> 'p \<Rightarrow> 's \<Rightarrow> unit os_result \<times> 's" where
  "oac_put object_path hex_encode encode oa d result s =
     os_put (oac_store oa) (oac_key object_path hex_encode oa d) (encode result) s"

definition oac_remove ::
  "(string \<Rightarrow> string) \<Rightarrow> (bytes \<Rightarrow> string) \<Rightarrow> 's object_ac \<Rightarrow> digest_info \<Rightarrow> 's \<Rightarrow> unit os_result \<times> 's" where
  "oac_remove object_path hex_encode oa d s =
     (case os_delete (oac_store oa) (oac_key object_path hex_encode oa d) s of
        (Inr _, s1) \<Rightarrow> (Inr (), s1)
      | (Inl (OsNotFound _), s1) \<Rightarrow> (Inr (), s1)
      | (Inl e, s1) \<Rightarrow> (Inl e, s1))"

section \<open>The two tiers\<close>

definition PROMOTIONS_IN_FLIGHT :: nat where
  "PROMOTIONS_IN_FLIGHT = 64"

record ('p, 's) tiered_ac =
  ta_local :: "'p disk_ac"
  ta_remote :: 's
  ta_permits :: nat
  ta_pending :: "'p cache_action_result list"

definition tiered_ac_new :: "'p disk_ac \<Rightarrow> 's \<Rightarrow> ('p, 's) tiered_ac" where
  "tiered_ac_new local_tier remote_tier =
     \<lparr>ta_local = local_tier, ta_remote = remote_tier, ta_permits = PROMOTIONS_IN_FLIGHT, ta_pending = []\<rparr>"

definition promote :: "'p cache_action_result \<Rightarrow> ('p, 's) tiered_ac \<Rightarrow> ('p, 's) tiered_ac" where
  "promote result t =
     (if ta_permits t = 0 then t
      else t\<lparr>ta_permits := ta_permits t - 1, ta_pending := ta_pending t @ [result]\<rparr>)"

definition upload_promoted ::
  "(string \<Rightarrow> string) \<Rightarrow> (bytes \<Rightarrow> string) \<Rightarrow> ('p \<Rightarrow> bytes) \<Rightarrow> 's object_ac \<Rightarrow> 'p cache_action_result \<Rightarrow> 's \<Rightarrow> 's" where
  "upload_promoted object_path hex_encode encode oa result s =
     (case oac_contains object_path hex_encode oa (car_digest result) s of
        (Inr True, s1) \<Rightarrow> s1
      | (Inr False, s1) \<Rightarrow> snd (oac_put object_path hex_encode encode oa (car_digest result) (car_proto result) s1)
      | (Inl e, s1) \<Rightarrow> s1)"

text \<open>The spawned uploads finish in any order: the one at position \<open>i\<close> runs and drops its permit.\<close>

definition run_promotion ::
  "(string \<Rightarrow> string) \<Rightarrow> (bytes \<Rightarrow> string) \<Rightarrow> ('p \<Rightarrow> bytes) \<Rightarrow> 's object_ac \<Rightarrow> nat \<Rightarrow> ('p, 's) tiered_ac \<Rightarrow>
   ('p, 's) tiered_ac" where
  "run_promotion object_path hex_encode encode oa i t =
     (if i < length (ta_pending t) then
        t\<lparr>ta_remote := upload_promoted object_path hex_encode encode oa (ta_pending t ! i) (ta_remote t),
          ta_pending := take i (ta_pending t) @ drop (Suc i) (ta_pending t), ta_permits := ta_permits t + 1\<rparr>
      else t)"

definition tiered_ac_get_with_tier ::
  "(fs_call \<Rightarrow> bool) \<Rightarrow> (string \<Rightarrow> string) \<Rightarrow> (bytes \<Rightarrow> string) \<Rightarrow> ('p \<Rightarrow> bytes) \<Rightarrow> (bytes \<Rightarrow> 'p option) \<Rightarrow> 's object_ac \<Rightarrow>
   millis \<Rightarrow> string \<Rightarrow> digest_info \<Rightarrow> ('p, 's) tiered_ac \<Rightarrow> 'p get_result \<times> ('p, 's) tiered_ac" where
  "tiered_ac_get_with_tier io object_path hex_encode encode decode oa now uuid d t =
     (case ac_get_with_tier io hex_encode decode now d (ta_local t) of (found, l) \<Rightarrow>
        let t1 = t\<lparr>ta_local := l\<rparr> in
        if gr_tier found = L1 then (found, t1)
        else if gr_tier found = L2
        then (found, (case gr_result found of Some result \<Rightarrow> promote result t1 | None \<Rightarrow> t1))
        else (case oac_get object_path hex_encode decode oa d (ta_remote t1) of
                (Inr (Some proto), s) \<Rightarrow>
                  (let result = \<lparr>car_digest = d, car_proto = proto\<rparr>
                   in (\<lparr>gr_result = Some result, gr_tier = Remote\<rparr>,
                       t1\<lparr>ta_local := ac_put io hex_encode encode now uuid d result l, ta_remote := s\<rparr>))
              | (Inr None, s) \<Rightarrow> (found, t1\<lparr>ta_remote := s\<rparr>)
              | (Inl e, s) \<Rightarrow> (found, t1\<lparr>ta_remote := s\<rparr>)))"

definition tiered_ac_get ::
  "(fs_call \<Rightarrow> bool) \<Rightarrow> (string \<Rightarrow> string) \<Rightarrow> (bytes \<Rightarrow> string) \<Rightarrow> ('p \<Rightarrow> bytes) \<Rightarrow> (bytes \<Rightarrow> 'p option) \<Rightarrow> 's object_ac \<Rightarrow>
   millis \<Rightarrow> string \<Rightarrow> digest_info \<Rightarrow> ('p, 's) tiered_ac \<Rightarrow> 'p cache_action_result option \<times> ('p, 's) tiered_ac" where
  "tiered_ac_get io object_path hex_encode encode decode oa now uuid d t =
     (case tiered_ac_get_with_tier io object_path hex_encode encode decode oa now uuid d t of (g, t1) \<Rightarrow> (gr_result g, t1))"

definition tiered_ac_put ::
  "(fs_call \<Rightarrow> bool) \<Rightarrow> (string \<Rightarrow> string) \<Rightarrow> (bytes \<Rightarrow> string) \<Rightarrow> ('p \<Rightarrow> bytes) \<Rightarrow> 's object_ac \<Rightarrow> millis \<Rightarrow> string \<Rightarrow>
   digest_info \<Rightarrow> 'p cache_action_result \<Rightarrow> ('p, 's) tiered_ac \<Rightarrow> ('p, 's) tiered_ac" where
  "tiered_ac_put io object_path hex_encode encode oa now uuid d result t =
     t\<lparr>ta_local := ac_put io hex_encode encode now uuid d result (ta_local t),
       ta_remote := snd (oac_put object_path hex_encode encode oa d (car_proto result) (ta_remote t))\<rparr>"

definition tiered_ac_remove ::
  "(fs_call \<Rightarrow> bool) \<Rightarrow> (string \<Rightarrow> string) \<Rightarrow> (bytes \<Rightarrow> string) \<Rightarrow> 's object_ac \<Rightarrow> digest_info \<Rightarrow> ('p, 's) tiered_ac \<Rightarrow>
   ('p, 's) tiered_ac" where
  "tiered_ac_remove io object_path hex_encode oa d t =
     t\<lparr>ta_local := ac_remove io hex_encode d (ta_local t),
       ta_remote := snd (oac_remove object_path hex_encode oa d (ta_remote t))\<rparr>"

section \<open>What one server stores every server finds\<close>

lemma oac_put_stored:
  assumes "object_store_ok (oac_store oa) objects" "fst (oac_put object_path hex_encode encode oa d p s) = Inr ()"
  shows "objects (snd (oac_put object_path hex_encode encode oa d p s)) (oac_key object_path hex_encode oa d) = Some (encode p)"
  using putsD [OF object_store_parts(1) [OF assms(1)] refl, of "oac_key object_path hex_encode oa d" "encode p" s] assms(2)
  by (auto simp: oac_put_def changes_to_def)

lemma oac_get_stored:
  assumes "object_store_ok (oac_store oa) objects" "objects s (oac_key object_path hex_encode oa d) = Some (encode p)"
    and "proto_codec encode decode" "oac_get object_path hex_encode decode oa d s = (Inr r, s')"
  shows "r = Some p \<and> objects s' = objects s"
proof -
  obtain q s1 where h: "os_get (oac_store oa) (oac_key object_path hex_encode oa d) s = (q, s1)" by fastforce
  note D = getsD [OF object_store_parts(4) [OF assms(1)] h]
  show ?thesis
    using assms(2-4) D by (auto simp: oac_get_def h proto_codec_def split: sum.splits os_error.splits)
qed



section \<open>Uploads in flight\<close>

text \<open>The operations that move the permits of the semaphore.\<close>

inductive tiered_ac_run :: "(string \<Rightarrow> string) \<Rightarrow> ('p \<Rightarrow> bytes) \<Rightarrow> (bytes \<Rightarrow> 'p option) \<Rightarrow> 's object_ac \<Rightarrow> ('p, 's) tiered_ac \<Rightarrow> bool"
  for object_path encode decode oa where
  tac_start: "tiered_ac_run object_path encode decode oa (tiered_ac_new l s)"
| tac_get: "tiered_ac_run object_path encode decode oa t \<Longrightarrow>
    tiered_ac_run object_path encode decode oa (snd (tiered_ac_get_with_tier io object_path lower_hex encode decode oa now uuid d t))"
| tac_put: "tiered_ac_run object_path encode decode oa t \<Longrightarrow>
    tiered_ac_run object_path encode decode oa (tiered_ac_put io object_path lower_hex encode oa now uuid d r t)"
| tac_remove: "tiered_ac_run object_path encode decode oa t \<Longrightarrow>
    tiered_ac_run object_path encode decode oa (tiered_ac_remove io object_path lower_hex oa d t)"
| tac_promotion: "tiered_ac_run object_path encode decode oa t \<Longrightarrow>
    tiered_ac_run object_path encode decode oa (run_promotion object_path lower_hex encode oa i t)"
| tac_other: "tiered_ac_run object_path encode decode oa t \<Longrightarrow>
    tiered_ac_run object_path encode decode oa (t\<lparr>ta_remote := s\<rparr>)"

lemma promote_permits: "ta_permits (promote r t) + length (ta_pending (promote r t)) = ta_permits t + length (ta_pending t)"
  by (simp add: promote_def)

lemma get_permits:
  "ta_permits (snd (tiered_ac_get_with_tier io object_path hex_encode encode decode oa now uuid d t)) +
   length (ta_pending (snd (tiered_ac_get_with_tier io object_path hex_encode encode decode oa now uuid d t))) =
   ta_permits t + length (ta_pending t)"
  by (auto simp: tiered_ac_get_with_tier_def Let_def promote_permits split: prod.splits sum.splits option.splits)

text \<open>Every upload that is pending holds one of the permits, so at most that many are in flight.\<close>

lemma promotions_bounded:
  "tiered_ac_run object_path encode decode oa t \<Longrightarrow> ta_permits t + length (ta_pending t) = PROMOTIONS_IN_FLIGHT"
  by (induction rule: tiered_ac_run.induct)
    (auto simp: tiered_ac_new_def get_permits tiered_ac_put_def tiered_ac_remove_def run_promotion_def)

end
