(* ===== verification/Reapi.thy ===== *)
theory Reapi
  imports Cas_Backend
begin

text \<open>
  The protocol messages the services handle, with the fields the server reads, gRPC statuses and
  the mapping of errors to them. Decoders are generated code and are parameters of the services;
  they return the text of the decoding error or the message.
\<close>

section \<open>Messages\<close>

record proto_digest =
  pd_hash :: string
  pd_size :: int

record file_msg =
  fm_name :: string
  fm_digest :: "proto_digest option"
  fm_is_executable :: bool

record directory_msg =
  dm_name :: string
  dm_digest :: "proto_digest option"

record symlink_msg =
  sl_name :: string
  sl_target :: string

record directory =
  dir_files :: "file_msg list"
  dir_directories :: "directory_msg list"
  dir_symlinks :: "symlink_msg list"

record tree =
  tree_root :: "directory option"
  tree_children :: "directory list"

record result_file =
  rf_path :: string
  rf_digest :: "proto_digest option"
  rf_is_executable :: bool

record result_directory =
  rd_path :: string
  rd_tree_digest :: "proto_digest option"

record result_symlink =
  rs_path :: string
  rs_target :: string

text \<open>A protobuf timestamp: seconds and nanoseconds.\<close>

type_synonym timestamp = "int \<times> int"

record executed_metadata =
  em_worker :: string
  em_queued :: "timestamp option"
  em_worker_start :: "timestamp option"
  em_worker_completed :: "timestamp option"
  em_input_fetch_start :: "timestamp option"
  em_input_fetch_completed :: "timestamp option"
  em_execution_start :: "timestamp option"
  em_execution_completed :: "timestamp option"
  em_output_upload_start :: "timestamp option"
  em_output_upload_completed :: "timestamp option"

record action_result =
  ar_output_files :: "result_file list"
  ar_output_symlinks :: "result_symlink list"
  ar_output_directories :: "result_directory list"
  ar_exit_code :: int
  ar_stdout_raw :: bytes
  ar_stdout_digest :: "proto_digest option"
  ar_stderr_raw :: bytes
  ar_stderr_digest :: "proto_digest option"
  ar_execution_metadata :: "executed_metadata option"

text \<open>A size is an \<open>int64\<close> on the wire.\<close>

definition i64_size :: "proto_digest \<Rightarrow> bool" where
  "i64_size d \<longleftrightarrow> - (2 ^ 63) \<le> pd_size d \<and> pd_size d < 2 ^ 63"

section \<open>Statuses\<close>

datatype grpc_code = CodeOk | CodeUnknown | CodeInvalidArgument | CodeNotFound | CodeOutOfRange | CodeUnimplemented | CodeInternal | CodeUnauthenticated

record status =
  st_code :: grpc_code
  st_message :: string

definition invalid_argument :: "string \<Rightarrow> status" where
  "invalid_argument text = \<lparr>st_code = CodeInvalidArgument, st_message = text\<rparr>"

definition not_found :: "string \<Rightarrow> status" where
  "not_found text = \<lparr>st_code = CodeNotFound, st_message = text\<rparr>"

definition internal :: "string \<Rightarrow> status" where
  "internal text = \<lparr>st_code = CodeInternal, st_message = text\<rparr>"

text \<open>The display of the two error types; the text of an I/O error is the system's and left out.\<close>

fun rbe_error_text :: "rbe_error \<Rightarrow> string" where
  "rbe_error_text (rbe_error.InvalidDigest text) = ''Invalid digest string: '' @ text"
| "rbe_error_text (InvalidStateTransition from to) = ''Invalid state transition: '' @ from @ '' -> '' @ to"
| "rbe_error_text (rbe_error.Io text) = ''IO error: '' @ text"

fun cas_error_text :: "cas_error \<Rightarrow> string" where
  "cas_error_text (NotFound text) = ''Blob not found: '' @ text"
| "cas_error_text cas_error.Io = ''IO error: ''"
| "cas_error_text (DigestMismatch expected actual) = ''Digest mismatch: expected '' @ expected @ '', got '' @ actual"
| "cas_error_text (cas_error.InvalidDigest text) = ''Invalid digest: '' @ text"
| "cas_error_text (InvalidData text) = ''Invalid data: '' @ text"
| "cas_error_text (Storage text) = ''Storage error: '' @ text"

definition to_digest_info :: "proto_digest \<Rightarrow> status + digest_info" where
  "to_digest_info d =
     (case digest_new (pd_hash d) (pd_size d) of
        Inl e \<Rightarrow> Inl (invalid_argument (''Invalid digest: '' @ rbe_error_text e))
      | Inr i \<Rightarrow> Inr i)"

fun cas_to_status :: "cas_error \<Rightarrow> status" where
  "cas_to_status (NotFound text) = not_found (cas_error_text (NotFound text))"
| "cas_to_status cas_error.Io = internal ''IO error: ''"
| "cas_to_status (DigestMismatch expected actual) = invalid_argument (cas_error_text (DigestMismatch expected actual))"
| "cas_to_status (cas_error.InvalidDigest text) = invalid_argument (cas_error_text (cas_error.InvalidDigest text))"
| "cas_to_status e = internal (cas_error_text e)"

text \<open>\<open>collect::<Result<Vec<_>, _>>\<close>: the first error, or every value.\<close>

fun collect_results :: "('e + 'a) list \<Rightarrow> 'e + 'a list" where
  "collect_results [] = Inr []"
| "collect_results (Inl e # rs) = Inl e"
| "collect_results (Inr x # rs) = (case collect_results rs of Inl e \<Rightarrow> Inl e | Inr xs \<Rightarrow> Inr (x # xs))"

lemma collect_results_map [simp]: "collect_results (map Inr xs) = Inr xs"
  by (induction xs) auto

lemma collect_results_Inr: "collect_results rs = Inr xs \<longleftrightarrow> rs = map Inr xs"
proof
  show "collect_results rs = Inr xs \<Longrightarrow> rs = map Inr xs"
  proof (induction rs arbitrary: xs)
    case (Cons r rs)
    then show ?case by (cases r) (auto split: sum.splits)
  qed simp
qed simp

lemma to_digest_info_Inr: "to_digest_info d = Inr i \<longleftrightarrow> digest_new (pd_hash d) (pd_size d) = Inr i"
  by (simp add: to_digest_info_def split: sum.split)

lemma to_digest_info_wf:
  assumes "to_digest_info d = Inr i"
  shows "dsize i = pd_size d" "i64_size d \<Longrightarrow> digest_wf i" "lower_hex (hash i) = map ascii_lower (pd_hash d)"
  using assms parse_sha256_print [of "pd_hash d"]
  by (auto simp: to_digest_info_Inr digest_new_def i64_size_def digest_wf_def split: sum.splits)

text \<open>The message a digest is sent as parses back to it.\<close>

definition digest_msg :: "digest_info \<Rightarrow> proto_digest" where
  "digest_msg d = \<lparr>pd_hash = lower_hex (hash d), pd_size = dsize d\<rparr>"

lemma digest_msg_parses: "length (hash d) = 32 \<Longrightarrow> to_digest_info (digest_msg d) = Inr d"
  by (simp add: to_digest_info_Inr digest_msg_def digest_new_def parse_lower_hex)

end
