(* ===== verification/Cas_Service.thy ===== *)
theory Cas_Service
  imports Reapi
begin

text \<open>
  \<open>server/cas_service.rs\<close>: the batch operations and \<open>GetTree\<close> over any CAS backend. The metrics are
  left out; the messages of a stream are the list of those sent to a client that reads them all.
\<close>

definition MISSING_BATCH_RESULT :: string where
  "MISSING_BATCH_RESULT = ''Missing result in batch response''"

definition DEFAULT_TREE_PAGE_SIZE :: nat where
  "DEFAULT_TREE_PAGE_SIZE = 1000"

definition rpc_status :: "grpc_code \<Rightarrow> string \<Rightarrow> status option" where
  "rpc_status code text = Some \<lparr>st_code = code, st_message = text\<rparr>"

section \<open>Existence and batches\<close>

definition find_missing_blobs ::
  "(bytes \<Rightarrow> string) \<Rightarrow> 's cas_ops \<Rightarrow> proto_digest list \<Rightarrow> 's \<Rightarrow> (status + proto_digest list) \<times> 's" where
  "find_missing_blobs hex_encode ops blob_digests s =
     (case collect_results (map to_digest_info blob_digests) of
        Inl e \<Rightarrow> (Inl e, s)
      | Inr digest_infos \<Rightarrow>
          (case cb_find_missing ops digest_infos s of
             (Inl e, s1) \<Rightarrow> (Inl (cas_to_status e), s1)
           | (Inr missing_infos, s1) \<Rightarrow>
               (let missing_hashes = map (hash_to_string hex_encode) missing_infos
                in (Inr (filter (\<lambda>d. pd_hash d \<in> set missing_hashes) blob_digests), s1))))"

record update_response =
  ur_digest :: "proto_digest option"
  ur_status :: "status option"

definition update_item :: "proto_digest option \<times> bytes \<Rightarrow> status + (proto_digest \<times> digest_info \<times> bytes)" where
  "update_item blob_req =
     (case blob_req of
        (None, _) \<Rightarrow> Inl (invalid_argument ''Missing digest'')
      | (Some d, data) \<Rightarrow>
          (case to_digest_info d of Inl e \<Rightarrow> Inl e | Inr i \<Rightarrow> Inr (d, i, data)))"

text \<open>The results are collected in a hash map by their hash: of two results of one hash the later stays.\<close>

definition update_status :: "(string \<times> unit cas_result) list \<Rightarrow> string \<Rightarrow> status option" where
  "update_status results h =
     (case map_of (rev results) h of
        Some (Inr _) \<Rightarrow> rpc_status CodeOk []
      | Some (Inl e) \<Rightarrow> rpc_status CodeInvalidArgument (cas_error_text e)
      | None \<Rightarrow> rpc_status CodeUnknown MISSING_BATCH_RESULT)"

text \<open>
  The batch operations of the backend are arguments: a backend either keeps the defaults of the
  trait, of which the default \<open>batch_write\<close> never fails as a whole, or brings its own.
\<close>

definition default_batch_write ::
  "'s cas_ops \<Rightarrow> (digest_info \<times> bytes) list \<Rightarrow> 's \<Rightarrow> (digest_info \<times> unit cas_result) list cas_result \<times> 's" where
  "default_batch_write ops items s = (case batch_write (cb_write ops) items s of (rs, s1) \<Rightarrow> (Inr rs, s1))"

definition batch_update_blobs ::
  "(bytes \<Rightarrow> string) \<Rightarrow> ((digest_info \<times> bytes) list \<Rightarrow> 's \<Rightarrow> (digest_info \<times> unit cas_result) list cas_result \<times> 's) \<Rightarrow>
   (proto_digest option \<times> bytes) list \<Rightarrow> 's \<Rightarrow> (status + update_response list) \<times> 's" where
  "batch_update_blobs hex_encode batch_write_op requests s =
     (case collect_results (map update_item requests) of
        Inl e \<Rightarrow> (Inl e, s)
      | Inr items \<Rightarrow>
          (case batch_write_op (map snd items) s of
             (Inr batch_results, s1) \<Rightarrow>
               (let result_by_hash = map (\<lambda>(d, r). (hash_to_string hex_encode d, r)) batch_results
                in (Inr (map (\<lambda>(d, i, _). \<lparr>ur_digest = Some d,
                           ur_status = update_status result_by_hash (hash_to_string hex_encode i)\<rparr>) items), s1))
           | (Inl e, s1) \<Rightarrow>
               (Inr (map (\<lambda>(d, _). \<lparr>ur_digest = Some d, ur_status = rpc_status CodeUnknown (cas_error_text e)\<rparr>) items), s1)))"

record read_response =
  rr_digest :: "proto_digest option"
  rr_data :: bytes
  rr_status :: "status option"

definition read_item :: "(string \<times> bytes option) list \<Rightarrow> proto_digest \<Rightarrow> read_response" where
  "read_item data_by_hash d =
     (case map_of (rev data_by_hash) (pd_hash d) of
        Some (Some data) \<Rightarrow> \<lparr>rr_digest = Some d, rr_data = data, rr_status = rpc_status CodeOk []\<rparr>
      | Some None \<Rightarrow>
          \<lparr>rr_digest = Some d, rr_data = [], rr_status = rpc_status CodeNotFound (''Blob not found: '' @ pd_hash d)\<rparr>
      | None \<Rightarrow> \<lparr>rr_digest = Some d, rr_data = [], rr_status = rpc_status CodeUnknown MISSING_BATCH_RESULT\<rparr>)"

definition batch_read_blobs ::
  "(bytes \<Rightarrow> string) \<Rightarrow> (digest_info list \<Rightarrow> 's \<Rightarrow> (digest_info \<times> bytes option) list cas_result \<times> 's) \<Rightarrow>
   proto_digest list \<Rightarrow> 's \<Rightarrow> (status + read_response list) \<times> 's" where
  "batch_read_blobs hex_encode batch_read_op digests s =
     (case collect_results (map to_digest_info digests) of
        Inl e \<Rightarrow> (Inl e, s)
      | Inr digest_infos \<Rightarrow>
          (case batch_read_op digest_infos s of
             (Inr batch_results, s1) \<Rightarrow>
               (Inr (map (read_item (map (\<lambda>(d, data). (hash_to_string hex_encode d, data)) batch_results)) digests), s1)
           | (Inl e, s1) \<Rightarrow>
               (Inr (map (\<lambda>d. \<lparr>rr_digest = Some d, rr_data = [], rr_status = rpc_status CodeUnknown (cas_error_text e)\<rparr>) digests), s1)))"

section \<open>Trees\<close>

text \<open>
  The children of one directory that were not seen before join the queue. \<open>seen\<close> is the hash set,
  as the list of its members.
\<close>

fun add_children ::
  "directory_msg list \<Rightarrow> digest_info list \<Rightarrow> digest_info list \<Rightarrow> status + (digest_info list \<times> digest_info list)" where
  "add_children [] seen pending = Inr (seen, pending)"
| "add_children (child # cs) seen pending =
     (case dm_digest child of
        None \<Rightarrow> add_children cs seen pending
      | Some m \<Rightarrow>
          (case to_digest_info m of
             Inl e \<Rightarrow> Inl e
           | Inr d \<Rightarrow>
               if d \<in> set seen then add_children cs seen pending
               else add_children cs (d # seen) (pending @ [d])))"

partial_function (option) collect_loop ::
  "(bytes \<Rightarrow> string) \<Rightarrow> 's cas_ops \<Rightarrow> (bytes \<Rightarrow> string + directory) \<Rightarrow> digest_info \<Rightarrow> digest_info list \<Rightarrow> digest_info list \<Rightarrow>
   directory list \<Rightarrow> 's \<Rightarrow> ((status + directory list) \<times> 's) option" where
  "collect_loop hex_encode ops decode rootd seen pending directories s =
     (case pending of
        [] \<Rightarrow> Some (Inr directories, s)
      | digest # rest \<Rightarrow>
          (case cb_read ops digest s of
             (Inl e, s1) \<Rightarrow> Some (Inl (cas_to_status e), s1)
           | (Inr None, s1) \<Rightarrow>
               if digest = rootd
               then Some (Inl (not_found (''root directory '' @ digest_display hex_encode digest @ '' not found'')), s1)
               else collect_loop hex_encode ops decode rootd seen rest directories s1
           | (Inr (Some bytes), s1) \<Rightarrow>
               (case decode bytes of
                  Inl e \<Rightarrow>
                    Some (Inl (invalid_argument (''blob '' @ digest_display hex_encode digest @ '' is not a Directory: '' @ e)), s1)
                | Inr directory \<Rightarrow>
                    (case add_children (dir_directories directory) seen rest of
                       Inl e \<Rightarrow> Some (Inl e, s1)
                     | Inr (seen', pending') \<Rightarrow>
                         collect_loop hex_encode ops decode rootd seen' pending' (directories @ [directory]) s1))))"

definition collect_tree ::
  "(bytes \<Rightarrow> string) \<Rightarrow> 's cas_ops \<Rightarrow> (bytes \<Rightarrow> string + directory) \<Rightarrow> digest_info \<Rightarrow> 's \<Rightarrow>
   ((status + directory list) \<times> 's) option" where
  "collect_tree hex_encode ops decode rootd s = collect_loop hex_encode ops decode rootd [rootd] [rootd] [] s"

record tree_response =
  tr_directories :: "directory list"
  tr_next_page_token :: string

text \<open>
  The pages from \<open>remaining\<close> on, \<open>sent\<close> the number of directories before them. A page is empty only
  if nothing remains, as the page size is not zero, so the second test adds no way out of the loop.
\<close>

function tree_pages :: "nat \<Rightarrow> nat \<Rightarrow> nat \<Rightarrow> directory list \<Rightarrow> tree_response list" where
  "tree_pages page_size all sent remaining =
     (let page = take page_size remaining;
          sent' = sent + length page;
          next_page_token = (if sent' < all then show_nat sent' else []);
          response = \<lparr>tr_directories = page, tr_next_page_token = next_page_token\<rparr>
      in if next_page_token = [] \<or> page = [] then [response]
         else response # tree_pages page_size all sent' (drop page_size remaining))"
  by pat_completeness auto
termination
  by (relation "measure (\<lambda>(_, _, _, remaining). length remaining)") (auto simp: Let_def)

declare tree_pages.simps [simp del]

text \<open>The token is quoted in the error; the escapes of the quotation are left out.\<close>

definition page_offset :: "string \<Rightarrow> status + nat" where
  "page_offset token =
     (if token = [] then Inr 0
      else case parse_unsigned 64 token of
             Some n \<Rightarrow> Inr n
           | None \<Rightarrow> Inl (invalid_argument (''invalid page_token '' @ [CHR 0x22] @ token @ [CHR 0x22])))"

definition page_size_of :: "int \<Rightarrow> nat" where
  "page_size_of n = (if n > 0 then nat n else DEFAULT_TREE_PAGE_SIZE)"

definition get_tree ::
  "(bytes \<Rightarrow> string) \<Rightarrow> 's cas_ops \<Rightarrow> (bytes \<Rightarrow> string + directory) \<Rightarrow> proto_digest option \<Rightarrow> string \<Rightarrow> int \<Rightarrow> 's \<Rightarrow>
   ((status + tree_response list) \<times> 's) option" where
  "get_tree hex_encode ops decode root_digest page_token page_size s =
     (case root_digest of
        None \<Rightarrow> Some (Inl (invalid_argument ''root_digest is required''), s)
      | Some m \<Rightarrow>
          (case to_digest_info m of
             Inl e \<Rightarrow> Some (Inl e, s)
           | Inr rootd \<Rightarrow>
               (case page_offset page_token of
                  Inl e \<Rightarrow> Some (Inl e, s)
                | Inr offset \<Rightarrow>
                    map_option (\<lambda>(r, s1).
                        (case r of
                           Inl e \<Rightarrow> Inl e
                         | Inr directories \<Rightarrow>
                             Inr (tree_pages (page_size_of page_size) (length directories)
                                    (min offset (length directories)) (drop offset directories)), s1))
                      (collect_tree hex_encode ops decode rootd s))))"

section \<open>The directories of a tree\<close>

definition parsed :: "proto_digest \<Rightarrow> digest_info option" where
  "parsed m = (case to_digest_info m of Inl e \<Rightarrow> None | Inr d \<Rightarrow> Some d)"

definition child_digests :: "directory_msg list \<Rightarrow> digest_info list" where
  "child_digests cs = List.map_filter parsed (List.map_filter dm_digest cs)"

text \<open>The directory that is stored under a digest.\<close>

definition dir_at :: "(digest_info \<Rightarrow> bytes option) \<Rightarrow> (bytes \<Rightarrow> string + directory) \<Rightarrow> digest_info \<Rightarrow> directory option" where
  "dir_at held decode d =
     (case held d of None \<Rightarrow> None | Some b \<Rightarrow> (case decode b of Inl e \<Rightarrow> None | Inr dir \<Rightarrow> Some dir))"

inductive tree_reach :: "(digest_info \<Rightarrow> bytes option) \<Rightarrow> (bytes \<Rightarrow> string + directory) \<Rightarrow> digest_info \<Rightarrow> digest_info \<Rightarrow> bool"
  for held decode rootd where
  reach_root: "tree_reach held decode rootd rootd"
| reach_child: "tree_reach held decode rootd d \<Longrightarrow> dir_at held decode d = Some dir \<Longrightarrow>
    c \<in> set (child_digests (dir_directories dir)) \<Longrightarrow> tree_reach held decode rootd c"

text \<open>Sizes in a decoded directory are \<open>int64\<close> values.\<close>

definition i64_decoder :: "(bytes \<Rightarrow> string + directory) \<Rightarrow> bool" where
  "i64_decoder decode \<longleftrightarrow>
     (\<forall>b dir. decode b = Inr dir \<longrightarrow> (\<forall>c \<in> set (dir_directories dir). \<forall>m. dm_digest c = Some m \<longrightarrow> i64_size m))"

lemma finite_reach:
  assumes "finite (range held)"
  shows "finite (Collect (tree_reach held decode rootd))"
proof -
  let ?kids = "\<lambda>b. case b of None \<Rightarrow> {} | Some b \<Rightarrow> (case decode b of Inl e \<Rightarrow> {} | Inr dir \<Rightarrow> set (child_digests (dir_directories dir)))"
  have "tree_reach held decode rootd d \<Longrightarrow> d \<in> insert rootd (\<Union> (?kids ` range held))" for d
    by (induction rule: tree_reach.induct) (fastforce simp: dir_at_def split: option.splits sum.splits)+
  then have "Collect (tree_reach held decode rootd) \<subseteq> insert rootd (\<Union> (?kids ` range held))" by blast
  moreover have "finite (insert rootd (\<Union> (?kids ` range held)))"
    by (intro finite.insertI finite_UN_I assms) (simp split: option.split sum.split)
  ultimately show ?thesis by (rule finite_subset)
qed

lemma reach_wf:
  assumes "i64_decoder decode" "digest_wf rootd" "tree_reach held decode rootd d"
  shows "digest_wf d"
  using assms(3)
proof (induction rule: tree_reach.induct)
  case reach_root
  show ?case by (rule assms(2))
next
  case (reach_child d dir c)
  then obtain m x where "x \<in> set (dir_directories dir)" "dm_digest x = Some m" "to_digest_info m = Inr c"
    by (auto simp: child_digests_def parsed_def map_filter_def split: sum.splits option.splits)
  moreover have "i64_size m"
    using assms(1) reach_child.hyps(2) calculation
    by (auto simp: i64_decoder_def dir_at_def split: option.splits sum.splits)
  ultimately show ?case using to_digest_info_wf(2) by blast
qed

lemma add_children_Inr:
  "add_children cs seen pending = Inr (seen', pending') \<Longrightarrow>
   \<exists>new. pending' = pending @ new \<and> distinct new \<and> set new \<inter> set seen = {} \<and> set seen' = set seen \<union> set new \<and>
     set seen' = set seen \<union> set (child_digests cs)"
proof (induction cs seen pending rule: add_children.induct)
  case (2 child cs seen pending)
  show ?case
  proof (cases "dm_digest child")
    case None
    then show ?thesis using 2 by (simp add: child_digests_def map_filter_simps)
  next
    case (Some m)
    then obtain d where d: "to_digest_info m = Inr d" using "2.prems" by (cases "to_digest_info m") auto
    then have kids: "set (child_digests (child # cs)) = insert d (set (child_digests cs))"
      using Some by (simp add: child_digests_def map_filter_simps parsed_def)
    show ?thesis
    proof (cases "d \<in> set seen")
      case True
      then show ?thesis using "2.IH"(2) [OF Some d] "2.prems" Some d kids by auto
    next
      case False
      then obtain new where "pending' = (pending @ [d]) @ new" "distinct new" "set new \<inter> set (d # seen) = {}"
        "set seen' = set (d # seen) \<union> set new" "set seen' = set (d # seen) \<union> set (child_digests cs)"
        using "2.IH"(3) [OF Some d] "2.prems" Some d by auto
      then show ?thesis using False kids by (intro exI [of _ "d # new"]) auto
    qed
  qed
qed (simp add: child_digests_def map_filter_simps)

text \<open>The state of the walk: \<open>visited\<close> are the digests taken from the queue so far.\<close>

definition walk_inv ::
  "(digest_info \<Rightarrow> bytes option) \<Rightarrow> (bytes \<Rightarrow> string + directory) \<Rightarrow> digest_info \<Rightarrow> digest_info list \<Rightarrow> digest_info list \<Rightarrow>
   digest_info list \<Rightarrow> directory list \<Rightarrow> bool" where
  "walk_inv held decode rootd visited seen pending dirs \<longleftrightarrow>
     distinct (visited @ pending) \<and> set seen = set visited \<union> set pending \<and> rootd \<in> set seen \<and>
     (\<forall>d \<in> set seen. tree_reach held decode rootd d) \<and>
     (\<forall>d \<in> set visited. held d = None \<and> d \<noteq> rootd \<or>
        (\<exists>dir. dir_at held decode d = Some dir \<and> set (child_digests (dir_directories dir)) \<subseteq> set seen)) \<and>
     dirs = List.map_filter (dir_at held decode) visited"

lemma walk_inv_absent:
  "walk_inv held decode rootd visited seen (d # pending) dirs \<Longrightarrow> held d = None \<Longrightarrow> d \<noteq> rootd \<Longrightarrow>
   walk_inv held decode rootd (visited @ [d]) seen pending dirs"
  by (auto simp: walk_inv_def map_filter_def dir_at_def)

lemma walk_inv_dir:
  assumes "walk_inv held decode rootd visited seen (d # pending) dirs" "dir_at held decode d = Some dir"
    and "add_children (dir_directories dir) seen pending = Inr (seen', pending')"
  shows "walk_inv held decode rootd (visited @ [d]) seen' pending' (dirs @ [dir])"
proof -
  obtain new where new: "pending' = pending @ new" "distinct new" "set new \<inter> set seen = {}" "set seen' = set seen \<union> set new"
    "set seen' = set seen \<union> set (child_digests (dir_directories dir))"
    using add_children_Inr [OF assms(3)] by blast
  have inv: "distinct (visited @ d # pending)" "set seen = set visited \<union> set (d # pending)" "rootd \<in> set seen"
    "\<forall>d \<in> set seen. tree_reach held decode rootd d" "dirs = List.map_filter (dir_at held decode) visited"
    and old: "\<forall>d \<in> set visited. held d = None \<and> d \<noteq> rootd \<or>
        (\<exists>dir. dir_at held decode d = Some dir \<and> set (child_digests (dir_directories dir)) \<subseteq> set seen)"
    using assms(1) unfolding walk_inv_def by blast+
  have d: "tree_reach held decode rootd d" using inv(2,4) by simp
  have kids: "set (child_digests (dir_directories dir)) \<subseteq> set seen'" and mono: "set seen \<subseteq> set seen'" using new(5) by auto
  have reach: "\<forall>c \<in> set seen'. tree_reach held decode rootd c"
    using inv(4) reach_child [OF d assms(2)] unfolding new(5) by blast
  have closed: "held e = None \<and> e \<noteq> rootd \<or>
      (\<exists>x. dir_at held decode e = Some x \<and> set (child_digests (dir_directories x)) \<subseteq> set seen')" if "e \<in> set (visited @ [d])" for e
  proof (cases "e = d")
    case True
    then show ?thesis using assms(2) kids by blast
  next
    case False
    with that have "e \<in> set visited" by simp
    then show ?thesis using old [THEN bspec, of e] mono by blast
  qed
  have "distinct ((visited @ [d]) @ pending')" "set seen' = set (visited @ [d]) \<union> set pending'"
    using inv(1,2) new(1-4) by auto
  moreover have "dirs @ [dir] = List.map_filter (dir_at held decode) (visited @ [d])"
    using inv(5) assms(2) by (simp add: map_filter_def)
  moreover have "rootd \<in> set seen'" using inv(3) mono by blast
  ultimately show ?thesis using reach closed unfolding walk_inv_def by blast
qed

lemma walk_inv_done:
  assumes "walk_inv held decode rootd visited seen [] dirs"
  shows "set visited = Collect (tree_reach held decode rootd)"
proof -
  have "tree_reach held decode rootd d \<Longrightarrow> d \<in> set visited" for d
    by (induction rule: tree_reach.induct) (use assms in \<open>force simp: walk_inv_def dir_at_def\<close>)+
  then show ?thesis using assms by (auto simp: walk_inv_def)
qed

context cas_backend
begin

text \<open>One round of the loop fails, or leaves the walk with one more digest visited.\<close>

lemma walk_step:
  assumes inv: "walk_inv held decode rootd visited seen (d # rest) dirs" and rd: "cb_read ops d s = (q, s1)"
    and q: "\<And>x. q = Inr x \<Longrightarrow> x = held d"
  obtains e where "collect_loop hex_encode ops decode rootd seen (d # rest) dirs s = Some (Inl e, s1)"
  | seen' new dirs' where "walk_inv held decode rootd (visited @ [d]) seen' (rest @ new) dirs'"
      "collect_loop hex_encode ops decode rootd seen (d # rest) dirs s = collect_loop hex_encode ops decode rootd seen' (rest @ new) dirs' s1"
proof -
  note unfold = collect_loop.simps [of hex_encode ops decode rootd seen "d # rest" dirs s]
  consider (failed) e where "q = Inl e" | (absent) "q = Inr None" "held d = None"
    | (stored) b where "q = Inr (Some b)" "held d = Some b"
    by (cases q; cases "held d") (use q in force)+
  then show thesis
  proof cases
    case failed
    then show thesis using that(1) unfold rd by simp
  next
    case absent
    then show thesis
      using that(1) that(2) [of seen "[]" dirs] walk_inv_absent [OF inv] unfold rd by (cases "d = rootd") simp_all
  next
    case stored
    show thesis
    proof (cases "decode b")
      case (Inl e)
      then show thesis using that(1) unfold rd stored by simp
    next
      case (Inr dir)
      then have dir: "dir_at held decode d = Some dir" by (simp add: dir_at_def stored)
      show thesis
      proof (cases "add_children (dir_directories dir) seen rest")
        case (Inl e)
        then show thesis using that(1) unfold rd stored Inr by simp
      next
        case kids: (Inr p)
        obtain seen' pending' where p: "p = (seen', pending')" by fastforce
        then obtain new where "pending' = rest @ new" using add_children_Inr kids by blast
        then show thesis using that(2) [of seen' new "dirs @ [dir]"] walk_inv_dir [OF inv dir] unfold rd stored Inr kids p by simp
      qed
    qed
  qed
qed

lemma walk_spec:
  assumes fin: "finite (Collect (tree_reach held decode rootd))" and wf: "i64_decoder decode" "digest_wf rootd"
    and "ok s" "holds s = held" "walk_inv held decode rootd visited seen pending dirs"
  shows "\<exists>r s'. collect_loop hex_encode ops decode rootd seen pending dirs s = Some (r, s') \<and> ok s' \<and> holds s' = held \<and>
    (\<forall>ds. r = Inr ds \<longrightarrow> (\<exists>seen' zs. walk_inv held decode rootd (visited @ pending @ zs) seen' [] ds))"
  using assms(4-)
proof (induction "card (Collect (tree_reach held decode rootd) - set visited)" arbitrary: visited seen pending dirs s rule: less_induct)
  case less
  show ?case
  proof (cases pending)
    case Nil
    then have "walk_inv held decode rootd (visited @ pending @ []) seen [] dirs" using less.prems(3) by simp
    then show ?thesis using Nil less.prems(1,2) collect_loop.simps [of hex_encode ops decode rootd seen pending dirs s]
      by (simp only: list.case) blast
  next
    case (Cons d rest)
    have reach: "tree_reach held decode rootd d" and new: "d \<notin> set visited"
      using less.prems(3) Cons by (auto simp: walk_inv_def)
    obtain q s1 where rd: "cb_read ops d s = (q, s1)" by fastforce
    have s1: "ok s1" "holds s1 = held" and q: "\<And>x. q = Inr x \<Longrightarrow> x = held d"
      using read_law [OF less.prems(1) reach_wf [OF wf reach] rd] less.prems(2) by auto
    have smaller: "card (Collect (tree_reach held decode rootd) - set (visited @ [d])) < card (Collect (tree_reach held decode rootd) - set visited)"
      by (rule psubset_card_mono) (use fin reach new in auto)
    show ?thesis
    proof (rule walk_step [OF less.prems(3) [unfolded Cons] rd q, where hex_encode = hex_encode])
      fix e
      assume "collect_loop hex_encode ops decode rootd seen (d # rest) dirs s = Some (Inl e, s1)"
      then show ?thesis using Cons s1 by simp
    next
      fix seen' new dirs'
      assume inv: "walk_inv held decode rootd (visited @ [d]) seen' (rest @ new) dirs'"
        and "collect_loop hex_encode ops decode rootd seen (d # rest) dirs s = collect_loop hex_encode ops decode rootd seen' (rest @ new) dirs' s1"
      then show ?thesis using less.hyps [OF smaller s1 inv] Cons by fastforce
    qed
  qed
qed

lemma collect_tree_spec:
  assumes "finite (range (holds s))" "i64_decoder decode" "digest_wf rootd" "ok s"
  shows "\<exists>r s'. collect_tree hex_encode ops decode rootd s = Some (r, s') \<and> ok s' \<and> holds s' = holds s \<and>
    (\<forall>dirs. r = Inr dirs \<longrightarrow> (\<exists>ds. distinct (rootd # ds) \<and> set (rootd # ds) = Collect (tree_reach (holds s) decode rootd) \<and>
       dirs = List.map_filter (dir_at (holds s) decode) (rootd # ds) \<and> dir_at (holds s) decode rootd \<noteq> None))"
proof -
  have "walk_inv (holds s) decode rootd [] [rootd] [rootd] []"
    by (auto simp: walk_inv_def map_filter_simps intro: reach_root)
  then obtain r s' where r: "collect_tree hex_encode ops decode rootd s = Some (r, s')" "ok s'" "holds s' = holds s"
    and w: "\<And>dirs. r = Inr dirs \<Longrightarrow> \<exists>seen' zs. walk_inv (holds s) decode rootd (rootd # zs) seen' [] dirs"
    using walk_spec [OF finite_reach [OF assms(1)] assms(2-4) refl, where hex_encode = hex_encode]
    by (fastforce simp: collect_tree_def)
  have "\<exists>ds. distinct (rootd # ds) \<and> set (rootd # ds) = Collect (tree_reach (holds s) decode rootd) \<and>
       dirs = List.map_filter (dir_at (holds s) decode) (rootd # ds) \<and> dir_at (holds s) decode rootd \<noteq> None"
    if res: "r = Inr dirs" for dirs
  proof -
    obtain seen' zs where i: "walk_inv (holds s) decode rootd (rootd # zs) seen' [] dirs" using w [OF res] by blast
    have "distinct (rootd # zs)" "dirs = List.map_filter (dir_at (holds s) decode) (rootd # zs)" "dir_at (holds s) decode rootd \<noteq> None"
      using i by (auto simp: walk_inv_def)
    then show ?thesis using walk_inv_done [OF i] by blast
  qed
  then show ?thesis using r by blast
qed

end

lemma finite_disk_holds: "finite (range (disk_holds k))"
proof -
  have "range (disk_holds k) \<subseteq> insert None ((\<lambda>p. Some (content (snd p))) ` set (disk_files k))"
  proof
    fix x
    assume "x \<in> range (disk_holds k)"
    then obtain d where d: "x = map_option content (map_of (disk_files k) (blob_path lower_hex d))" by (auto simp: disk_holds_def)
    show "x \<in> insert None ((\<lambda>p. Some (content (snd p))) ` set (disk_files k))"
      by (cases "map_of (disk_files k) (blob_path lower_hex d)") (use d in \<open>force dest: map_of_SomeD\<close>)+
  qed
  then show ?thesis by (rule finite_subset) simp
qed

section \<open>Pages\<close>

lemma tree_pages_concat: "n > 0 \<Longrightarrow> all = sent + length xs \<Longrightarrow> concat (map tr_directories (tree_pages n all sent xs)) = xs"
proof (induction n all sent xs rule: tree_pages.induct)
  case (1 n all sent xs)
  show ?case
  proof (cases "sent + length (take n xs) < all")
    case True
    then have "take n xs \<noteq> []" "all = sent + length (take n xs) + length (drop n xs)" using 1 by auto
    then show ?thesis using "1.IH" [OF refl refl refl refl] 1(2) True tree_pages.simps [of n all sent xs] by (simp add: Let_def)
  next
    case False
    then show ?thesis using 1 tree_pages.simps [of n all sent xs] by (simp add: Let_def)
  qed
qed

lemma page_offset_show: "n < 2 ^ 64 \<Longrightarrow> page_offset (show_nat n) = Inr n"
  by (simp add: page_offset_def parse_unsigned_show_nat)

text \<open>The token of a page that has one is the offset at which the pages after it start.\<close>

lemma tree_pages_token:
  "n > 0 \<Longrightarrow> all = sent + length xs \<Longrightarrow> Suc i < length (tree_pages n all sent xs) \<Longrightarrow>
   \<exists>k. tr_next_page_token (tree_pages n all sent xs ! i) = show_nat (sent + k) \<and> sent + k < all \<and>
     tree_pages n all (sent + k) (drop k xs) = drop (Suc i) (tree_pages n all sent xs)"
proof (induction n all sent xs arbitrary: i rule: tree_pages.induct)
  case (1 n all sent xs)
  have more: "sent + length (take n xs) < all" "take n xs \<noteq> []"
    using 1 tree_pages.simps [of n all sent xs] by (auto simp: Let_def split: if_splits)
  let ?s = "sent + length (take n xs)"
  have unfold: "tree_pages n all sent xs = \<lparr>tr_directories = take n xs, tr_next_page_token = show_nat ?s\<rparr> # tree_pages n all ?s (drop n xs)"
    using more tree_pages.simps [of n all sent xs] by (simp add: Let_def)
  have l: "length (take n xs) = n" using 1(3) more(1) by simp
  show ?case
  proof (cases i)
    case 0
    then show ?thesis using unfold more l by (intro exI [of _ n]) simp
  next
    case (Suc j)
    have "all = ?s + length (drop n xs)" using 1(3) by simp
    then obtain k where "tr_next_page_token (tree_pages n all ?s (drop n xs) ! j) = show_nat (?s + k)" "?s + k < all"
      "tree_pages n all (?s + k) (drop k (drop n xs)) = drop (Suc j) (tree_pages n all ?s (drop n xs))"
      using "1.IH" [OF refl refl refl refl, of j] more 1(2,4) Suc unfold by (auto simp: Let_def)
    then show ?thesis using unfold Suc l by (intro exI [of _ "n + k"]) (simp add: add.assoc add.commute [of k])
  qed
qed

lemma page_size_positive [simp]: "page_size_of n > 0"
  by (simp add: page_size_of_def DEFAULT_TREE_PAGE_SIZE_def)

section \<open>What clients of the tree operation see\<close>

lemma disk_tree:
  assumes "disk_ok sha256 k" "i64_decoder decode" "i64_size m" "to_digest_info m = Inr rootd"
  shows "\<exists>r k'. collect_tree hex_encode (disk_ops io lower_hex sha256 now uuid) decode rootd k = Some (r, k') \<and>
    (\<forall>dirs. r = Inr dirs \<longrightarrow> (\<exists>ds. distinct (rootd # ds) \<and> set (rootd # ds) = Collect (tree_reach (disk_holds k) decode rootd) \<and>
       dirs = List.map_filter (dir_at (disk_holds k) decode) (rootd # ds) \<and> dir_at (disk_holds k) decode rootd \<noteq> None))"
  using disk_backend.collect_tree_spec [OF finite_disk_holds assms(2) to_digest_info_wf(2) [OF assms(4,3)] assms(1), of hex_encode io now uuid]
  by blast

text \<open>
  C17: a request for a tree is always answered. However the stored directories refer to each other,
  in cycles as well, and whatever fails, the walk ends.
\<close>

theorem get_tree_returns:
  assumes "disk_ok sha256 k" "i64_decoder decode" "\<And>m. root_digest = Some m \<Longrightarrow> i64_size m"
  shows "\<exists>r k'. get_tree hex_encode (disk_ops io lower_hex sha256 now uuid) decode root_digest token page_size k = Some (r, k')"
proof (cases root_digest)
  case (Some m)
  show ?thesis
  proof (cases "to_digest_info m")
    case (Inr rootd)
    obtain r k' where "collect_tree hex_encode (disk_ops io lower_hex sha256 now uuid) decode rootd k = Some (r, k')"
      using disk_tree [OF assms(1,2) assms(3) [OF Some] Inr] by blast
    then show ?thesis using Some Inr by (simp add: get_tree_def split: sum.split)
  qed (simp add: get_tree_def Some)
qed (simp add: get_tree_def)

lemma get_tree_pages:
  assumes "to_digest_info m = Inr rootd" "get_tree hex_encode ops decode (Some m) [] page_size s = Some (Inr pages, s')"
  obtains dirs where "collect_tree hex_encode ops decode rootd s = Some (Inr dirs, s')"
    "pages = tree_pages (page_size_of page_size) (length dirs) 0 dirs" "concat (map tr_directories pages) = dirs"
proof -
  obtain r where r: "collect_tree hex_encode ops decode rootd s = Some (r, s')"
    "(case r of Inl e \<Rightarrow> Inl e | Inr dirs \<Rightarrow>
       Inr (tree_pages (page_size_of page_size) (length dirs) (min 0 (length dirs)) (drop 0 dirs))) = Inr pages"
    using assms by (auto simp: get_tree_def page_offset_def)
  then obtain dirs where "r = Inr dirs" "pages = tree_pages (page_size_of page_size) (length dirs) 0 dirs" by (cases r) auto
  then show thesis using that r(1) tree_pages_concat [of "page_size_of page_size" "length dirs" 0 dirs] by simp
qed

text \<open>
  C18: a tree is answered with exactly the directories below its root. The pages of a whole tree
  together have every stored directory that can be reached from the root, each once and the root
  first.
\<close>

theorem get_tree_exact:
  assumes "disk_ok sha256 k" "i64_decoder decode" "i64_size m" "to_digest_info m = Inr rootd"
    and "get_tree hex_encode (disk_ops io lower_hex sha256 now uuid) decode (Some m) [] page_size k = Some (Inr pages, k')"
  shows "\<exists>ds. distinct (rootd # ds) \<and> set (rootd # ds) = Collect (tree_reach (disk_holds k) decode rootd) \<and>
      concat (map tr_directories pages) = List.map_filter (dir_at (disk_holds k) decode) (rootd # ds)"
proof (rule get_tree_pages [OF assms(4,5)])
  fix dirs
  assume "collect_tree hex_encode (disk_ops io lower_hex sha256 now uuid) decode rootd k = Some (Inr dirs, k')"
    "concat (map tr_directories pages) = dirs"
  then show ?thesis using disk_tree [OF assms(1-4), of hex_encode io now uuid] by auto
qed

text \<open>
  A client that comes back with the token of a page gets exactly the pages after it.
\<close>

theorem get_tree_resumes:
  assumes "to_digest_info m = Inr rootd" "get_tree hex_encode ops decode (Some m) [] page_size s = Some (Inr pages, s')"
    and i: "Suc i < length pages" and small: "length (concat (map tr_directories pages)) < 2 ^ 64"
  shows "get_tree hex_encode ops decode (Some m) (tr_next_page_token (pages ! i)) page_size s = Some (Inr (drop (Suc i) pages), s')"
proof (rule get_tree_pages [OF assms(1,2)])
  fix dirs
  assume c: "collect_tree hex_encode ops decode rootd s = Some (Inr dirs, s')"
    and p: "pages = tree_pages (page_size_of page_size) (length dirs) 0 dirs" and cat: "concat (map tr_directories pages) = dirs"
  obtain n where n: "tr_next_page_token (pages ! i) = show_nat n" "n < length dirs"
    "tree_pages (page_size_of page_size) (length dirs) n (drop n dirs) = drop (Suc i) pages"
    using tree_pages_token [OF page_size_positive, of "length dirs" 0 dirs i page_size] i unfolding p by auto
  then have "page_offset (show_nat n) = Inr n" using small cat by (intro page_offset_show) simp
  then show ?thesis using n c assms(1) by (simp add: get_tree_def)
qed

text \<open>A directory that lists itself, on a disk whose hash function maps everything to one hash.\<close>

definition loop_digest :: digest_info where
  "loop_digest = \<lparr>hash = replicate 32 7, dsize = 1\<rparr>"

definition loop_dir :: directory where
  "loop_dir = \<lparr>dir_files = [], dir_directories = [\<lparr>dm_name = ''self'', dm_digest = Some (digest_msg loop_digest)\<rparr>], dir_symlinks = []\<rparr>"

definition loop_disk :: disk where
  "loop_disk = disk_new [(entry_path lower_hex loop_digest, \<lparr>content = [1], mtime = 0\<rparr>)]"

lemma loop_msg: "to_digest_info (digest_msg loop_digest) = Inr loop_digest" "i64_size (digest_msg loop_digest)"
  by (simp add: digest_msg_parses loop_digest_def) (simp add: i64_size_def digest_msg_def loop_digest_def)

lemma loop_files: "disk_files loop_disk = [(entry_path lower_hex loop_digest, \<lparr>content = [1], mtime = 0\<rparr>)]"
  by (simp add: loop_disk_def disk_new_def disk_with_max_size_def disk_with_max_size_bytes_def)

lemma loop_ok: "disk_ok (\<lambda>_. hash loop_digest) loop_disk" "i64_decoder (\<lambda>_. Inr loop_dir)"
proof -
  have "hash d = hash loop_digest" if "length (hash d) = 32" "entry_path lower_hex d = entry_path lower_hex loop_digest" for d
    using entry_path_inject [OF lower_hex_is_codec that(1), of loop_digest] that(2) by (simp add: loop_digest_def)
  then show "disk_ok (\<lambda>_. hash loop_digest) loop_disk"
    by (auto simp: disk_ok_def intact_def loop_files split: if_splits)
  show "i64_decoder (\<lambda>_. Inr loop_dir)" using loop_msg(2) by (simp add: i64_decoder_def loop_dir_def)
qed

lemma loop_read:
  "\<exists>k'. cb_read (disk_ops no_fault lower_hex (\<lambda>_. hash loop_digest) 0 ''u'') loop_digest loop_disk = (Inr (Some [1]), k')"
proof -
  have "verify_digest lower_hex (\<lambda>_. hash loop_digest) [1] loop_digest = Inr ()"
    by (simp add: verify_digest_Inr [OF lower_hex_is_codec])
  then show ?thesis by (simp add: disk_ops_def disk_read_def Let_def loop_files blob_path_def)
qed

lemma loop_tree:
  "\<exists>k'. get_tree lower_hex (disk_ops no_fault lower_hex (\<lambda>_. hash loop_digest) 0 ''u'') (\<lambda>_. Inr loop_dir)
     (Some (digest_msg loop_digest)) [] 1 loop_disk = Some (Inr [\<lparr>tr_directories = [loop_dir], tr_next_page_token = []\<rparr>], k')"
proof -
  let ?ops = "disk_ops no_fault lower_hex (\<lambda>_. hash loop_digest) 0 ''u''"
  obtain k' where r: "cb_read ?ops loop_digest loop_disk = (Inr (Some [1]), k')" using loop_read by blast
  have kids: "add_children (dir_directories loop_dir) [loop_digest] [] = Inr ([loop_digest], [])"
    by (simp add: loop_dir_def loop_msg)
  have "collect_tree lower_hex ?ops (\<lambda>_. Inr loop_dir) loop_digest loop_disk = Some (Inr [loop_dir], k')"
    using r by (simp add: collect_tree_def collect_loop.simps [of _ _ _ _ _ "[loop_digest]"] collect_loop.simps [of _ _ _ _ _ "[]"] kids)
  then show ?thesis
    by (simp add: get_tree_def loop_msg page_offset_def tree_pages.simps [of _ _ 0 "[loop_dir]"] page_size_of_def Let_def)
qed

theorem get_tree_returns_witness:
  "\<exists>r k'. get_tree lower_hex (disk_ops no_fault lower_hex (\<lambda>_. hash loop_digest) 0 ''u'') (\<lambda>_. Inr loop_dir)
     (Some (digest_msg loop_digest)) [] 1 loop_disk = Some (r, k')"
  by (rule get_tree_returns [OF loop_ok]) (use loop_msg(2) in simp)

theorem get_tree_exact_witness:
  "\<exists>ds. distinct (loop_digest # ds) \<and>
     set (loop_digest # ds) = Collect (tree_reach (disk_holds loop_disk) (\<lambda>_. Inr loop_dir) loop_digest) \<and>
     [loop_dir] = List.map_filter (dir_at (disk_holds loop_disk) (\<lambda>_. Inr loop_dir)) (loop_digest # ds)"
proof -
  obtain k' where g: "get_tree lower_hex (disk_ops no_fault lower_hex (\<lambda>_. hash loop_digest) 0 ''u'') (\<lambda>_. Inr loop_dir)
     (Some (digest_msg loop_digest)) [] 1 loop_disk = Some (Inr [\<lparr>tr_directories = [loop_dir], tr_next_page_token = []\<rparr>], k')"
    using loop_tree by blast
  show ?thesis using get_tree_exact [OF loop_ok loop_msg(2,1) g] by simp
qed

section \<open>Missing blobs\<close>

lemma ascii_lower_hex_char: "unat n < 16 \<Longrightarrow> ascii_lower (hex_char n) = hex_char n"
  using hex_value_SomeD [OF hex_value_hex_char [of n]] by simp

lemma ascii_lower_hex [simp]: "map ascii_lower (lower_hex bs) = lower_hex bs"
  by (induction bs) (auto simp: byte_hex_def ascii_lower_hex_char high_nibble_less low_nibble_less)

lemma find_missing_blobs_Inr:
  assumes "find_missing_blobs lower_hex ops ds s = (Inr ms, s')"
  obtains infos missing where "map to_digest_info ds = map Inr infos" "cb_find_missing ops infos s = (Inr missing, s')"
    "ms = filter (\<lambda>d. pd_hash d \<in> (\<lambda>i. lower_hex (hash i)) ` set missing) ds"
  using assms
  by (auto simp: find_missing_blobs_def collect_results_Inr Let_def hash_to_string_def split: sum.splits prod.splits)

context cas_backend
begin

lemma find_missing_blobs_spec:
  assumes "ok s" "\<forall>d \<in> set ds. i64_size d" "find_missing_blobs lower_hex ops ds s = (Inr ms, s')"
  shows "holds s' = holds s \<and> d \<in> set ms =
    (d \<in> set ds \<and> (\<exists>e \<in> set ds. pd_hash d = map ascii_lower (pd_hash e) \<and> (\<exists>i. to_digest_info e = Inr i \<and> \<not> present holds s i)))"
proof -
  obtain infos missing where i: "map to_digest_info ds = map Inr infos" and m: "cb_find_missing ops infos s = (Inr missing, s')"
    and ms: "ms = filter (\<lambda>d. pd_hash d \<in> (\<lambda>i. lower_hex (hash i)) ` set missing) ds"
    by (rule find_missing_blobs_Inr [OF assms(3)])
  have parsed: "i \<in> set infos \<longleftrightarrow> (\<exists>e \<in> set ds. to_digest_info e = Inr i)" for i
    using arg_cong [OF i, of set] by (metis (no_types, lifting) image_iff list.set_map sum.inject(2))
  have wf: "\<forall>i \<in> set infos. digest_wf i" using parsed assms(2) to_digest_info_wf(2) by blast
  have "holds s' = holds s" and "missing = filter (\<lambda>d. \<not> present holds s d) infos"
    using missing_law [OF assms(1) wf m] by auto
  then show ?thesis unfolding ms using parsed to_digest_info_wf(3) by (auto simp: image_iff)
qed

end

lemma find_missing_no_fault: "\<exists>ms k'. find_missing (disk_contains no_fault hex_encode now) ds k = (Inr ms, k')"
proof (induction ds arbitrary: k)
  case (Cons d ds)
  have "\<exists>p k1. disk_contains no_fault hex_encode now d k = (Inr p, k1)"
    by (auto simp: disk_contains_def Let_def split: option.split)
  then obtain p k1 where "disk_contains no_fault hex_encode now d k = (Inr p, k1)" by blast
  then show ?case using Cons.IH [of k1] by auto
qed simp

lemma find_missing_blobs_no_fault:
  assumes "map to_digest_info ds = map Inr infos"
  shows "\<exists>ms k'. find_missing_blobs lower_hex (disk_ops no_fault lower_hex sha256 now uuid) ds k = (Inr ms, k')"
  using find_missing_no_fault [of lower_hex now infos k] by (auto simp: find_missing_blobs_def assms Let_def)

text \<open>
  C19: \<open>FindMissingBlobs\<close> reports exactly the absent blobs. For requests as Bazel sends them, with
  lower-case hashes and one size for each, the answer has the digests that are not stored, in the
  order of the request.
\<close>

theorem find_missing_exact:
  assumes "disk_ok sha256 k" "\<forall>d \<in> set ds. i64_size d \<and> pd_hash d = map ascii_lower (pd_hash d)"
    and one: "\<forall>d \<in> set ds. \<forall>e \<in> set ds. pd_hash d = pd_hash e \<longrightarrow> pd_size d = pd_size e"
    and f: "find_missing_blobs lower_hex (disk_ops io lower_hex sha256 now uuid) ds k = (Inr ms, k')"
  shows "ms = filter (\<lambda>d. \<exists>i. to_digest_info d = Inr i \<and> \<not> present disk_holds k i) ds"
proof -
  have in_ms: "d \<in> set ms \<longleftrightarrow> (\<exists>i. to_digest_info d = Inr i \<and> \<not> present disk_holds k i)" if d: "d \<in> set ds" for d
  proof -
    have "e = d" if e: "e \<in> set ds" "pd_hash d = map ascii_lower (pd_hash e)" for e
    proof -
      have "pd_hash d = pd_hash e" using e assms(2) by metis
      then show ?thesis using one d e(1) by (metis (full_types) proto_digest.equality old.unit.exhaust)
    qed
    moreover have "pd_hash d = map ascii_lower (pd_hash d)" using assms(2) d by blast
    ultimately show ?thesis
      using disk_backend.find_missing_blobs_spec [OF assms(1) _ f, of d] assms(2) d by blast
  qed
  obtain P where P: "ms = filter P ds" by (rule find_missing_blobs_Inr [OF f])
  show ?thesis unfolding P by (rule filter_cong [OF refl]) (use in_ms P in auto)
qed

theorem find_missing_exact_witness:
  "let d = \<lparr>hash = replicate 32 9, dsize = 1\<rparr>
   in fst (find_missing_blobs lower_hex (disk_ops no_fault lower_hex (\<lambda>_. hash loop_digest) 0 ''u'')
        [digest_msg loop_digest, digest_msg d] loop_disk) = Inr [digest_msg d]"
proof -
  define d where "d = \<lparr>hash = replicate 32 9 :: bytes, dsize = 1\<rparr>"
  let ?ds = "[digest_msg loop_digest, digest_msg d]"
  have d: "to_digest_info (digest_msg d) = Inr d" by (simp add: digest_msg_parses d_def)
  obtain ms k' where f: "find_missing_blobs lower_hex (disk_ops no_fault lower_hex (\<lambda>_. hash loop_digest) 0 ''u'') ?ds loop_disk = (Inr ms, k')"
    using find_missing_blobs_no_fault [of ?ds "[loop_digest, d]"] d loop_msg(1) by fastforce
  have "entry_path lower_hex d \<noteq> entry_path lower_hex loop_digest"
    by (subst entry_path_inject [OF lower_hex_is_codec]) (simp_all add: d_def loop_digest_def)
  then have p: "\<not> present disk_holds loop_disk d" "present disk_holds loop_disk loop_digest"
    by (simp_all add: present_def disk_holds_def loop_files blob_path_def has_size_def) (simp add: loop_digest_def)
  have "ms = filter (\<lambda>d. \<exists>i. to_digest_info d = Inr i \<and> \<not> present disk_holds loop_disk i) ?ds"
    by (rule find_missing_exact [OF loop_ok(1) _ _ f]) (auto simp: digest_msg_def i64_size_def d_def loop_digest_def)
  then have "ms = [digest_msg d]" using d loop_msg(1) p by simp
  then show ?thesis using f unfolding Let_def d_def by simp
qed

text \<open>
  A digest whose hash has an upper-case letter is never reported missing. The server accepts
  such a hash, but compares the text of the request with the lower-case text of the missing hashes.
\<close>

theorem find_missing_uppercase:
  assumes "find_missing_blobs lower_hex ops ds s = (Inr ms, s')" "pd_hash d \<noteq> map ascii_lower (pd_hash d)"
  shows "d \<notin> set ms"
  by (rule find_missing_blobs_Inr [OF assms(1)]) (use assms(2) in auto)

theorem find_missing_uppercase_witness:
  "let d = \<lparr>pd_hash = concat (replicate 32 ''AB''), pd_size = 1\<rparr>; i = \<lparr>hash = replicate 32 171, dsize = 1\<rparr>
   in to_digest_info d = Inr i \<and> \<not> present disk_holds (disk_new []) i \<and>
      fst (find_missing_blobs lower_hex (disk_ops no_fault lower_hex (\<lambda>_. hash i) 0 ''u'') [d] (disk_new [])) = Inr []"
proof -
  define d where "d = \<lparr>pd_hash = concat (replicate 32 ''AB''), pd_size = 1\<rparr>"
  define i where "i = \<lparr>hash = replicate 32 171 :: bytes, dsize = 1\<rparr>"
  have parses: "to_digest_info d = Inr i" unfolding d_def i_def by code_simp
  have upper: "pd_hash d \<noteq> map ascii_lower (pd_hash d)" unfolding d_def by code_simp
  have absent: "\<not> present disk_holds (disk_new []) i"
    by (simp add: present_def disk_holds_def disk_new_def disk_with_max_size_def disk_with_max_size_bytes_def)
  obtain ms k' where f: "find_missing_blobs lower_hex (disk_ops no_fault lower_hex (\<lambda>_. hash i) 0 ''u'') [d] (disk_new []) = (Inr ms, k')"
    using find_missing_blobs_no_fault [of "[d]" "[i]"] parses by fastforce
  then obtain P where "ms = filter P [d]" by (rule find_missing_blobs_Inr)
  moreover have "d \<notin> set ms" by (rule find_missing_uppercase [OF f upper])
  ultimately have "ms = []" by (auto split: if_splits)
  then show ?thesis unfolding Let_def d_def [symmetric] i_def [symmetric] using parses absent f by simp
qed

end
