(* ===== verification/Byte_Stream.thy ===== *)
theory Byte_Stream
  imports Cas_Service Object_Cas
begin

text \<open>
  \<open>server/byte_stream.rs\<close>: streamed reads and writes over any CAS backend. A read answers with a
  list of messages, all sent to a client that stays. The chunks of an upload go to the backend through
  a channel; \<open>room\<close> is the number of them the backend takes before it drops its end, so that every
  way the two tasks can interleave is covered. Sizes are computed in \<open>i64\<close>, which wraps.
\<close>

definition MAX_UPLOAD_OVERRUN_FACTOR :: int where
  "MAX_UPLOAD_OVERRUN_FACTOR = 2"

definition i64_wrap :: "int \<Rightarrow> int" where
  "i64_wrap x = sint (word_of_int x :: 64 word)"

section \<open>Resource names\<close>

text \<open>\<open>str::split\<close> on one character: the parts between its occurrences.\<close>

fun split_on :: "char \<Rightarrow> string \<Rightarrow> string list" where
  "split_on c [] = [[]]"
| "split_on c (x # xs) =
     (if x = c then [] # split_on c xs
      else case split_on c xs of [] \<Rightarrow> [[x]] | p # ps \<Rightarrow> (x # p) # ps)"

definition parse_resource_name :: "string \<Rightarrow> (string \<times> int) option" where
  "parse_resource_name resource =
     (case rev (split_on (CHR ''/'') resource) of
        len # segments \<Rightarrow>
          (case parse_i64 len of
             None \<Rightarrow> None
           | Some n \<Rightarrow> (case segments of [] \<Rightarrow> None | h # _ \<Rightarrow> Some (h, n)))
      | [] \<Rightarrow> None)"

definition resource_digest :: "string \<Rightarrow> status + digest_info" where
  "resource_digest resource =
     (case parse_resource_name resource of
        None \<Rightarrow> Inl (invalid_argument ''Invalid resource name'')
      | Some (h, len) \<Rightarrow>
          (case digest_new h len of
             Inl e \<Rightarrow> Inl (invalid_argument (''Invalid digest: '' @ rbe_error_text e))
           | Inr d \<Rightarrow> Inr d))"

fun bs_to_status :: "cas_error \<Rightarrow> status" where
  "bs_to_status (NotFound text) = not_found (cas_error_text (NotFound text))"
| "bs_to_status cas_error.Io = internal ''IO error: ''"
| "bs_to_status (DigestMismatch expected actual) =
     invalid_argument (''Digest mismatch: expected '' @ expected @ '', got '' @ actual)"
| "bs_to_status (cas_error.InvalidDigest text) = invalid_argument text"
| "bs_to_status e = internal (cas_error_text e)"

section \<open>Reads\<close>

definition read_window :: "int \<Rightarrow> int \<Rightarrow> int \<Rightarrow> status + nat \<times> nat option" where
  "read_window offset limit len =
     (if offset < 0 \<or> offset > len then
        Inl \<lparr>st_code = CodeOutOfRange,
             st_message = ''read_offset '' @ show_int offset @ '' is outside the '' @ show_int len @ ''-byte blob''\<rparr>
      else if limit < 0 then Inl (invalid_argument (''read_limit '' @ show_int limit @ '' is negative''))
      else Inr (nat offset, if limit > 0 then Some (nat limit) else None))"

fun read_messages :: "blob_stream \<Rightarrow> (status + bytes) list" where
  "read_messages [] = []"
| "read_messages (Inr data # stream) = Inr data # read_messages stream"
| "read_messages (Inl e # stream) = [Inl (bs_to_status e)]"

definition bs_read :: "'s cas_ops \<Rightarrow> string \<Rightarrow> int \<Rightarrow> int \<Rightarrow> 's \<Rightarrow> (status + (status + bytes) list) \<times> 's" where
  "bs_read ops resource_name read_offset read_limit s =
     (case resource_digest resource_name of
        Inl e \<Rightarrow> (Inl e, s)
      | Inr d \<Rightarrow>
          (case read_window read_offset read_limit (dsize d) of
             Inl e \<Rightarrow> (Inl e, s)
           | Inr (offset, limit) \<Rightarrow>
               (case cb_read_stream ops d offset limit s of
                  (Inr (Some stream), s1) \<Rightarrow> (Inr (read_messages stream), s1)
                | (Inr None, s1) \<Rightarrow> (Inr [Inl (not_found ''Blob not found'')], s1)
                | (Inl e, s1) \<Rightarrow> (Inr [Inl (bs_to_status e)], s1))))"

section \<open>Writes\<close>

record write_request =
  wr_resource_name :: string
  wr_write_offset :: int
  wr_finish_write :: bool
  wr_data :: bytes

text \<open>
  The loop over the messages of the client, with the chunk at hand; the result is an error or the
  number of bytes received, and the chunks the backend was sent.
\<close>

fun upload_loop ::
  "int \<Rightarrow> nat \<Rightarrow> int \<Rightarrow> bytes \<Rightarrow> bool \<Rightarrow> (status + write_request) list \<Rightarrow> bytes list \<Rightarrow> (status + int) \<times> bytes list" where
  "upload_loop expected room received data finish messages sent =
     (let received' = i64_wrap (received + int (length data)) in
      if received' > i64_wrap (expected * MAX_UPLOAD_OVERRUN_FACTOR)
      then (Inl (invalid_argument (''Upload size '' @ show_int received' @ '' exceeds expected '' @ show_int expected)), sent)
      else if room = 0 then (Inr received', sent)
      else if finish then (Inr received', sent @ [data])
      else (case messages of
              [] \<Rightarrow> (Inr received', sent @ [data])
            | Inl e # _ \<Rightarrow> (Inl e, sent @ [data])
            | Inr r # rest \<Rightarrow> upload_loop expected (room - 1) received' (wr_data r) (wr_finish_write r) rest (sent @ [data])))"

declare upload_loop.simps [simp del]

text \<open>
  When the handler gives up, it drops the channel and the backend sees the end of the stream: its
  write goes on with the chunks sent so far. A transport error is displayed by its message.
\<close>

definition bs_write ::
  "'s cas_ops \<Rightarrow> nat \<Rightarrow> (status + write_request) list \<Rightarrow> 's \<Rightarrow> (status + int) \<times> 's" where
  "bs_write ops room messages s =
     (case messages of
        [] \<Rightarrow> (Inl (invalid_argument ''Empty stream''), s)
      | Inl e # _ \<Rightarrow> (Inl (internal (''Stream error: '' @ st_message e)), s)
      | Inr first # rest \<Rightarrow>
          if wr_resource_name first = [] then (Inl (invalid_argument ''Missing resource_name''), s)
          else
            (case resource_digest (wr_resource_name first) of
               Inl e \<Rightarrow> (Inl e, s)
             | Inr d \<Rightarrow>
                 if wr_write_offset first \<noteq> 0 then
                   (case cb_contains ops d s of
                      (Inl e, s1) \<Rightarrow> (Inl (bs_to_status e), s1)
                    | (Inr stored, s1) \<Rightarrow>
                        if stored \<and> wr_write_offset first = dsize d then (Inr (dsize d), s1)
                        else (Inl (invalid_argument (''write_offset '' @ show_int (wr_write_offset first)
                                @ '' is not the committed size of '' @ wr_resource_name first
                                @ '': QueryWriteStatus reports 0 until the blob is complete'')), s1))
                 else
                   (case upload_loop (dsize d) room 0 (wr_data first) (wr_finish_write first) rest [] of (r, sent) \<Rightarrow>
                      case cb_write_stream ops d (map Inr sent) s of (w, s1) \<Rightarrow>
                        (case r of
                           Inl e \<Rightarrow> (Inl e, s1)
                         | Inr received \<Rightarrow>
                             (case w of Inr _ \<Rightarrow> (Inr received, s1) | Inl e \<Rightarrow> (Inl (bs_to_status e), s1))))))"

record write_status =
  ws_committed_size :: int
  ws_complete :: bool

definition query_write_status :: "'s cas_ops \<Rightarrow> string \<Rightarrow> 's \<Rightarrow> (status + write_status) \<times> 's" where
  "query_write_status ops resource_name s =
     (case resource_digest resource_name of
        Inl e \<Rightarrow> (Inl e, s)
      | Inr d \<Rightarrow>
          (case cb_contains ops d s of
             (Inl e, s1) \<Rightarrow> (Inl (bs_to_status e), s1)
           | (Inr stored, s1) \<Rightarrow>
               (let committed = (if stored then dsize d else 0)
                in (Inr \<lparr>ws_committed_size = committed, ws_complete = (committed = dsize d)\<rparr>, s1))))"

section \<open>Names and digests\<close>

lemma split_on_none: "c \<notin> set xs \<Longrightarrow> split_on c xs = [xs]"
  by (induction xs) auto

lemma split_on_not_Nil [simp]: "split_on c xs \<noteq> []"
  by (induction xs) (auto split: list.splits)

lemma split_on_append: "split_on c (xs @ c # ys) = split_on c xs @ split_on c ys"
  by (induction xs) (auto split: list.splits)

lemma slash_not_in_hex: "CHR ''/'' \<notin> set (lower_hex bs)"
proof
  assume "CHR ''/'' \<in> set (lower_hex bs)"
  then obtain n :: u8 where n: "unat n < 16" "CHR ''/'' = hex_char n" using set_lower_hex by blast
  then have "hex_value (CHR ''/'') = Some n" using hex_value_hex_char [of n] by simp
  then show False by (simp add: hex_value_def Let_def)
qed

lemma slash_not_in_show_int: "CHR ''/'' \<notin> set (show_int i)"
proof -
  have "CHR ''/'' \<notin> set (show_nat n)" for n
  proof
    assume "CHR ''/'' \<in> set (show_nat n)"
    then obtain d where d: "d < 10" "CHR ''/'' = digit_char d" using set_show_nat by blast
    then have "digit_val (CHR ''/'') = Some d" by simp
    then show False by (simp add: digit_val_def Let_def)
  qed
  then show ?thesis by (simp add: show_int_def)
qed

definition resource_name :: "string \<Rightarrow> digest_info \<Rightarrow> string" where
  "resource_name prefix d = prefix @ ''/'' @ lower_hex (hash d) @ ''/'' @ show_int (dsize d)"

lemma resource_name_parses:
  assumes "digest_wf d"
  shows "resource_digest (resource_name prefix d) = Inr d"
proof -
  have "split_on (CHR ''/'') (resource_name prefix d) =
      split_on (CHR ''/'') prefix @ [lower_hex (hash d), show_int (dsize d)]"
    using split_on_append [of "CHR ''/''" prefix "lower_hex (hash d) @ ''/'' @ show_int (dsize d)"]
      split_on_append [of "CHR ''/''" "lower_hex (hash d)" "show_int (dsize d)"]
    by (simp add: resource_name_def split_on_none slash_not_in_hex slash_not_in_show_int)
  moreover have "parse_i64 (show_int (dsize d)) = Some (dsize d)"
    using assms by (simp add: digest_wf_def parse_i64_show_int)
  moreover have "digest_new (lower_hex (hash d)) (dsize d) = Inr d"
    using assms by (simp add: digest_new_def digest_wf_def parse_lower_hex)
  ultimately show ?thesis by (simp add: resource_digest_def parse_resource_name_def)
qed

section \<open>What a read delivers\<close>

lemma read_messages_data: "read_messages stream = map Inr chunks \<Longrightarrow> stream_data stream = Some (concat chunks)"
  by (induction stream arbitrary: chunks rule: read_messages.induct) (auto simp: Cons_eq_map_conv)

lemma read_window_Inr:
  "read_window offset limit n = Inr (a, b) \<longleftrightarrow>
     0 \<le> offset \<and> offset \<le> n \<and> 0 \<le> limit \<and> a = nat offset \<and> b = (if limit > 0 then Some (nat limit) else None)"
  by (auto simp: read_window_def)

section \<open>What an upload sends\<close>

lemma upload_loop_sent:
  "upload_loop expected room received data finish messages sent = (r, out) \<Longrightarrow>
   length (concat out) \<le> length (concat sent) + length data +
     sum_list (map (\<lambda>x. case x of Inl e \<Rightarrow> 0 | Inr r \<Rightarrow> length (wr_data r)) messages)"
proof (induction expected room received data finish messages sent rule: upload_loop.induct)
  case (1 expected room received data finish messages sent)
  note IH = "1.IH" [OF refl]
  show ?case
    using "1.prems" IH upload_loop.simps [of expected room received data finish messages sent]
    by (auto simp: Let_def split: if_splits list.splits sum.splits)
qed

definition uploaded :: "(status + write_request) list \<Rightarrow> nat" where
  "uploaded messages = sum_list (map (\<lambda>x. case x of Inl e \<Rightarrow> 0 | Inr r \<Rightarrow> length (wr_data r)) messages)"

lemma stream_data_chunks: "stream_data (map Inr chunks) = Some (concat chunks)"
  using stream_data_append [of chunks "[]"] by simp

section \<open>What clients of the byte stream rely on\<close>

context cas_backend
begin

lemma bs_read_spec:
  assumes "ok s" "digest_wf d" "holds s d = Some b" "has_size d b"
    and "0 \<le> offset" "offset \<le> dsize d" "0 \<le> limit"
    and "bs_read ops (resource_name prefix d) offset limit s = (Inr (map Inr chunks), s')"
  shows "concat chunks = slice (nat offset) (if limit > 0 then Some (nat limit) else None) b"
proof -
  let ?l = "if limit > 0 then Some (nat limit) else None"
  have w: "read_window offset limit (dsize d) = Inr (nat offset, ?l)" using assms(5-7) by (simp add: read_window_Inr)
  obtain r s1 where r: "cb_read_stream ops d (nat offset) ?l s = (r, s1)" by fastforce
  note law = stream_law [OF assms(1,2) r]
  have "present holds s d" using assms(3,4) by (simp add: present_def)
  then obtain stream where "r = Inr (Some stream)" "read_messages stream = map Inr chunks"
    using assms(8) w r law resource_name_parses [OF assms(2)]
    by (auto simp: bs_read_def split: sum.splits option.splits)
  then show ?thesis using law read_messages_data assms(3,4) by blast
qed

end

context durable_backend
begin

lemma bs_write_spec:
  assumes "ok s" "uploaded messages < 2 ^ 63" "bs_write ops room messages s = (Inr n, s')"
    and "hd messages = Inr first" "resource_digest (wr_resource_name first) = Inr d" "digest_wf d"
  shows "ok s' \<and> present holds s' d"
proof -
  obtain rest where m: "messages = Inr first # rest" and nonempty: "wr_resource_name first \<noteq> []"
    using assms(3,4) by (cases messages) (auto simp: bs_write_def split: if_splits)
  show ?thesis
  proof (cases "wr_write_offset first = 0")
    case False
    obtain q s1 where c: "cb_contains ops d s = (q, s1)" by fastforce
    then have q: "q = Inr True" "s' = s1" using assms(3,5) m nonempty False by (auto simp: bs_write_def split: sum.splits if_splits)
    then have "ok s1" "holds s1 = holds s" "present holds s d" using contains_law [OF assms(1,6) c] by blast+
    then show ?thesis using present_cong [of s1 s] q(2) by simp
  next
    case True
    obtain r sent where u: "upload_loop (dsize d) room 0 (wr_data first) (wr_finish_write first) rest [] = (r, sent)" by fastforce
    obtain w where w: "cb_write_stream ops d (map Inr sent) s = (w, s')" "w = Inr ()"
      using assms(3,5) m nonempty True u by (auto simp: bs_write_def split: sum.splits prod.splits)
    have small: "length b < 2 ^ 63" if "stream_data (map Inr sent) = Some b" for b
      using upload_loop_sent [OF u] assms(2) that by (simp add: stream_data_chunks uploaded_def m)
    show ?thesis
      using write_stream_stores [OF assms(1,6) small] write_stream_ok [OF assms(1,6) small] w by (metis snd_conv)
  qed
qed

end

text \<open>
  C20: a read delivers the bytes asked for. When the messages of a read carry no error, their data
  are the bytes of the stored blob from the offset on, up to the limit if it is not zero.
\<close>

theorem bs_read_exact:
  assumes "disk_ok sha256 k" "digest_wf d" "disk_holds k d = Some b" "has_size d b"
    and "0 \<le> offset" "offset \<le> dsize d" "0 \<le> limit"
    and "bs_read (disk_ops io lower_hex sha256 now uuid) (resource_name prefix d) offset limit k = (Inr (map Inr chunks), k')"
  shows "concat chunks = (let rest = drop (nat offset) b in if limit > 0 then take (nat limit) rest else rest)"
  using disk_backend.bs_read_spec [OF assms] by (simp add: slice_def Let_def)

theorem bs_read_exact_witness:
  "\<exists>chunks k'. bs_read (disk_ops no_fault lower_hex (\<lambda>_. hash loop_digest) 0 ''u'') (resource_name ''blobs'' loop_digest) 0 1 loop_disk =
     (Inr (map Inr chunks), k') \<and> concat chunks = [1]"
proof -
  have wf: "digest_wf loop_digest" "dsize loop_digest = 1" by (simp_all add: digest_wf_def loop_digest_def)
  have held: "disk_holds loop_disk loop_digest = Some [1]" by (simp add: disk_holds_def loop_files blob_path_def)
  obtain k' where r: "bs_read (disk_ops no_fault lower_hex (\<lambda>_. hash loop_digest) 0 ''u'') (resource_name ''blobs'' loop_digest) 0 1 loop_disk =
      (Inr (map Inr [[1]]), k')"
    by (simp add: bs_read_def resource_name_parses wf read_window_def disk_read_stream_def loop_files blob_path_def Let_def file_len_def
        chunks_of.simps [of _ "[1]"] chunks_of.simps [of _ "[]"] READ_CHUNK_BYTES_def)
  have c: "concat [[1 :: u8]] = (let rest = drop (nat 0) [1] in if (1 :: int) > 0 then take (nat 1) rest else rest)"
    by (rule bs_read_exact [OF loop_ok(1) wf(1) held _ _ _ _ r]) (simp_all add: has_size_def wf(2))
  show ?thesis by (rule exI [of _ "[[1]]"], rule exI [of _ k']) (use r c in simp)
qed

text \<open>
  An acknowledged upload is stored. Whatever the client sent and however the transfer and the
  store interleave, when the write is acknowledged, the blob that its resource name names is in the
  object store.
\<close>

theorem bs_write_stored:
  assumes "object_store_ok (ob_store b) objects" "object_path_ok object_path (ob_prefix b)"
    and "object_ok object_path sha256 b objects s" "uploaded messages < 2 ^ 63"
    and "bs_write (object_ops object_path lower_hex sha256 b) room messages s = (Inr n, s')"
    and "hd messages = Inr first" "resource_digest (wr_resource_name first) = Inr d" "digest_wf d"
  shows "present (object_holds object_path b objects) s' d"
  using durable_backend.bs_write_spec [OF object_durable [OF assms(1,2)] assms(3-8)] by blast

theorem bs_write_stored_witness:
  "let sha = (\<lambda>_. hash loop_digest); b = memory_backend ''p'';
       first = \<lparr>wr_resource_name = resource_name ''uploads/u/blobs'' loop_digest, wr_write_offset = 0, wr_finish_write = True, wr_data = [1]\<rparr>
   in \<exists>s'. bs_write (object_ops (\<lambda>p. p) lower_hex sha b) 1 [Inr first] Map.empty = (Inr 1, s') \<and>
        present (object_holds (\<lambda>p. p) b (\<lambda>m. m)) s' loop_digest"
proof -
  define sha where "sha = (\<lambda>_ :: bytes. hash loop_digest)"
  define b where "b = memory_backend ''p''"
  define first where "first = \<lparr>wr_resource_name = resource_name ''uploads/u/blobs'' loop_digest, wr_write_offset = 0, wr_finish_write = True, wr_data = [1 :: u8]\<rparr>"
  have store: "ob_store b = memory_store" by (simp add: b_def memory_backend_def object_new_def Let_def)
  have wf: "digest_wf loop_digest" "dsize loop_digest = 1" by (simp_all add: digest_wf_def loop_digest_def)
  have d: "resource_digest (wr_resource_name first) = Inr loop_digest" by (simp add: first_def resource_name_parses wf)
  have "verify_blob lower_hex sha loop_digest [1] = Inr ()" by (simp add: verify_blob_Inr sha_def wf)
  then obtain s' where w: "bs_write (object_ops (\<lambda>p. p) lower_hex sha b) 1 [Inr first] Map.empty = (Inr 1, s')"
    using d wf by (simp add: bs_write_def upload_loop.simps first_def resource_name_def i64_wrap_def MAX_UPLOAD_OVERRUN_FACTOR_def
        object_write_stream_def SINGLE_PUT_MAX_BYTES_def collect_stream.simps signed64_def object_write_def store memory_store_def Let_def)
  have "present (object_holds (\<lambda>p. p) b (\<lambda>m. m)) s' loop_digest"
    by (rule bs_write_stored [OF _ _ _ _ w _ d wf(1)])
      (simp_all add: store memory_store_ok memory_path_ok object_ok_def uploaded_def first_def)
  then show ?thesis unfolding Let_def sha_def [symmetric] b_def [symmetric] first_def [symmetric] using w by blast
qed

end
