(* ===== verification/Grpc_Cas.thy ===== *)
theory Grpc_Cas
  imports Byte_Stream
begin

text \<open>
  \<open>cas/backends/grpc.rs\<close>: the client of a remote CAS, and the client together with this server. The
  remote procedures are an argument; \<open>server_rpc\<close> is the one this repository's services provide. The
  channel of an upload takes \<open>cap\<close> messages before the call ends. Establishing the connection is not
  modelled.
\<close>

definition UNARY_READ_FALLBACK_LIMIT :: int where
  "UNARY_READ_FALLBACK_LIMIT = 4 * 1024 * 1024"

section \<open>Requests\<close>

record 's cas_rpc =
  rpc_find_missing :: "proto_digest list \<Rightarrow> 's \<Rightarrow> (status + proto_digest list) \<times> 's"
  rpc_batch_read :: "proto_digest list \<Rightarrow> 's \<Rightarrow> (status + read_response list) \<times> 's"
  rpc_batch_update :: "(proto_digest option \<times> bytes) list \<Rightarrow> 's \<Rightarrow> (status + update_response list) \<times> 's"
  rpc_read :: "string \<Rightarrow> int \<Rightarrow> int \<Rightarrow> 's \<Rightarrow> (status + (status + bytes) list) \<times> 's"
  rpc_write :: "(status + write_request) list \<Rightarrow> 's \<Rightarrow> (status + int) \<times> 's"

definition server_rpc :: "(bytes \<Rightarrow> string) \<Rightarrow> 's cas_ops \<Rightarrow> nat \<Rightarrow> 's cas_rpc" where
  "server_rpc hex_encode ops room =
     \<lparr>rpc_find_missing = find_missing_blobs hex_encode ops,
      rpc_batch_read = batch_read_blobs hex_encode (batch_read (cb_read ops)),
      rpc_batch_update = batch_update_blobs hex_encode (default_batch_write ops),
      rpc_read = bs_read ops,
      rpc_write = bs_write ops room\<rparr>"

definition proto_digest_of :: "(bytes \<Rightarrow> string) \<Rightarrow> digest_info \<Rightarrow> proto_digest" where
  "proto_digest_of hex_encode d = \<lparr>pd_hash = hash_to_string hex_encode d, pd_size = dsize d\<rparr>"

definition digest_from_proto :: "proto_digest \<Rightarrow> digest_info cas_result" where
  "digest_from_proto m =
     (case digest_new (pd_hash m) (pd_size m) of
        Inl e \<Rightarrow> Inl (Storage (''Invalid digest: '' @ rbe_error_text e))
      | Inr d \<Rightarrow> Inr d)"

definition response_digest :: "proto_digest option \<Rightarrow> string \<Rightarrow> digest_info cas_result" where
  "response_digest m operation =
     (case m of
        None \<Rightarrow> Inl (Storage (''Missing digest in batch '' @ operation @ '' response''))
      | Some m \<Rightarrow> digest_from_proto m)"

definition response_ok :: "status option \<Rightarrow> bool" where
  "response_ok st = (case st of None \<Rightarrow> True | Some st \<Rightarrow> st_code st = CodeOk)"

definition batch_update_request :: "(bytes \<Rightarrow> string) \<Rightarrow> (digest_info \<times> bytes) list \<Rightarrow> (proto_digest option \<times> bytes) list" where
  "batch_update_request hex_encode items = map (\<lambda>(d, data). (Some (proto_digest_of hex_encode d), data)) items"

definition instance_prefix :: "string \<Rightarrow> string" where
  "instance_prefix instance_name = (if instance_name = [] then [] else instance_name @ ''/'')"

section \<open>Lookups\<close>

definition grpc_contains ::
  "(bytes \<Rightarrow> string) \<Rightarrow> 's cas_rpc \<Rightarrow> digest_info \<Rightarrow> 's \<Rightarrow> bool cas_result \<times> 's" where
  "grpc_contains hex_encode rpc d s =
     (case rpc_find_missing rpc [proto_digest_of hex_encode d] s of
        (Inr missing, s1) \<Rightarrow> (Inr (missing = []), s1)
      | (Inl e, s1) \<Rightarrow> (Inr False, s1))"

definition grpc_find_missing ::
  "(bytes \<Rightarrow> string) \<Rightarrow> 's cas_rpc \<Rightarrow> digest_info list \<Rightarrow> 's \<Rightarrow> digest_info list cas_result \<times> 's" where
  "grpc_find_missing hex_encode rpc ds s =
     (if ds = [] then (Inr [], s)
      else case rpc_find_missing rpc (map (proto_digest_of hex_encode) ds) s of
             (Inr missing, s1) \<Rightarrow> (collect_results (map digest_from_proto missing), s1)
           | (Inl e, s1) \<Rightarrow> (Inr ds, s1))"

definition grpc_read ::
  "(bytes \<Rightarrow> string) \<Rightarrow> 's cas_rpc \<Rightarrow> digest_info \<Rightarrow> 's \<Rightarrow> bytes option cas_result \<times> 's" where
  "grpc_read hex_encode rpc d s =
     (case rpc_batch_read rpc [proto_digest_of hex_encode d] s of
        (Inr responses, s1) \<Rightarrow>
          (Inr (case responses of
                  [] \<Rightarrow> None
                | r # _ \<Rightarrow> if response_ok (rr_status r) then Some (rr_data r) else None), s1)
      | (Inl e, s1) \<Rightarrow> (Inr None, s1))"

definition read_result :: "read_response \<Rightarrow> (digest_info \<times> bytes option) cas_result" where
  "read_result r =
     (case response_digest (rr_digest r) ''read'' of
        Inl e \<Rightarrow> Inl e
      | Inr d \<Rightarrow> Inr (d, if response_ok (rr_status r) then Some (rr_data r) else None))"

definition grpc_batch_read ::
  "(bytes \<Rightarrow> string) \<Rightarrow> 's cas_rpc \<Rightarrow> digest_info list \<Rightarrow> 's \<Rightarrow> (digest_info \<times> bytes option) list cas_result \<times> 's" where
  "grpc_batch_read hex_encode rpc ds s =
     (if ds = [] then (Inr [], s)
      else case rpc_batch_read rpc (map (proto_digest_of hex_encode) ds) s of
             (Inr responses, s1) \<Rightarrow> (collect_results (map read_result responses), s1)
           | (Inl e, s1) \<Rightarrow> (Inl (Storage (''gRPC batch read failed: '' @ st_message e)), s1))"

definition read_error :: "status + bytes \<Rightarrow> bytes cas_result" where
  "read_error message =
     (case message of Inr data \<Rightarrow> Inr data | Inl e \<Rightarrow> Inl (Storage (''ByteStream read error: '' @ st_message e)))"

definition grpc_read_stream ::
  "(bytes \<Rightarrow> string) \<Rightarrow> string \<Rightarrow> 's cas_rpc \<Rightarrow> digest_info \<Rightarrow> nat \<Rightarrow> nat option \<Rightarrow> 's \<Rightarrow> blob_stream option cas_result \<times> 's" where
  "grpc_read_stream hex_encode instance_name rpc d offset limit s =
     (case rpc_read rpc
             (instance_prefix instance_name @ ''blobs/'' @ hash_to_string hex_encode d @ ''/'' @ show_int (dsize d))
             (signed64 offset) (case limit of None \<Rightarrow> 0 | Some l \<Rightarrow> signed64 l) s of
        (Inr messages, s1) \<Rightarrow> (Inr (Some (map read_error messages)), s1)
      | (Inl e, s1) \<Rightarrow>
          if dsize d \<ge> UNARY_READ_FALLBACK_LIMIT
          then (Inl (Storage (''ByteStream read failed: '' @ st_message e)), s1)
          else (case grpc_read hex_encode rpc d s1 of
                  (Inl e, s2) \<Rightarrow> (Inl e, s2)
                | (Inr None, s2) \<Rightarrow> (Inr None, s2)
                | (Inr (Some data), s2) \<Rightarrow> (Inr (Some [Inr data]), s2)))"

section \<open>Writes\<close>

definition grpc_write ::
  "(bytes \<Rightarrow> string) \<Rightarrow> 's cas_rpc \<Rightarrow> digest_info \<Rightarrow> bytes \<Rightarrow> 's \<Rightarrow> unit cas_result \<times> 's" where
  "grpc_write hex_encode rpc d data s =
     (case rpc_batch_update rpc (batch_update_request hex_encode [(d, data)]) s of
        (Inr _, s1) \<Rightarrow> (Inr (), s1)
      | (Inl e, s1) \<Rightarrow> (Inl (Storage (''gRPC error: '' @ st_message e)), s1))"

fun code_number :: "grpc_code \<Rightarrow> nat" where
  "code_number CodeOk = 0"
| "code_number CodeUnknown = 2"
| "code_number CodeInvalidArgument = 3"
| "code_number CodeNotFound = 5"
| "code_number CodeOutOfRange = 11"
| "code_number CodeUnimplemented = 12"
| "code_number CodeInternal = 13"
| "code_number CodeUnauthenticated = 16"

definition write_result :: "update_response \<Rightarrow> (digest_info \<times> unit cas_result) cas_result" where
  "write_result r =
     (case response_digest (ur_digest r) ''write'' of
        Inl e \<Rightarrow> Inl e
      | Inr d \<Rightarrow>
          Inr (d, case ur_status r of
                    None \<Rightarrow> Inr ()
                  | Some st \<Rightarrow>
                      if st_code st = CodeOk then Inr ()
                      else Inl (Storage (''CAS rejected blob: '' @ st_message st @ '' (code '' @ show_nat (code_number (st_code st)) @ '')''))))"

definition grpc_batch_write ::
  "(bytes \<Rightarrow> string) \<Rightarrow> 's cas_rpc \<Rightarrow> (digest_info \<times> bytes) list \<Rightarrow> 's \<Rightarrow>
   (digest_info \<times> unit cas_result) list cas_result \<times> 's" where
  "grpc_batch_write hex_encode rpc items s =
     (if items = [] then (Inr [], s)
      else case rpc_batch_update rpc (batch_update_request hex_encode items) s of
             (Inr responses, s1) \<Rightarrow> (collect_results (map write_result responses), s1)
           | (Inl e, s1) \<Rightarrow> (Inl (Storage (''gRPC batch write failed: '' @ st_message e)), s1))"

fun feed_upload :: "string \<Rightarrow> int \<Rightarrow> nat \<Rightarrow> blob_stream \<Rightarrow> write_request list \<times> unit cas_result" where
  "feed_upload name offset cap [] =
     (if cap = 0 then []
      else [\<lparr>wr_resource_name = name, wr_write_offset = offset, wr_finish_write = True, wr_data = []\<rparr>], Inr ())"
| "feed_upload name offset cap (Inl e # stream) = ([], Inl e)"
| "feed_upload name offset cap (Inr chunk # stream) =
     (if cap = 0 then ([], Inl (Storage ''ByteStream receiver dropped''))
      else case feed_upload [] (offset + int (length chunk)) (cap - 1) stream of (requests, r) \<Rightarrow>
             (\<lparr>wr_resource_name = name, wr_write_offset = offset, wr_finish_write = False, wr_data = chunk\<rparr> # requests, r))"

definition grpc_write_stream ::
  "(bytes \<Rightarrow> string) \<Rightarrow> string \<Rightarrow> 's cas_rpc \<Rightarrow> string \<Rightarrow> nat \<Rightarrow> digest_info \<Rightarrow> blob_stream \<Rightarrow> 's \<Rightarrow> unit cas_result \<times> 's" where
  "grpc_write_stream hex_encode instance_name rpc uuid cap d stream s =
     (let name = instance_prefix instance_name @ ''uploads/'' @ uuid @ ''/blobs/'' @ hash_to_string hex_encode d
                   @ ''/'' @ show_int (dsize d)
      in case feed_upload name 0 cap stream of (requests, fed) \<Rightarrow>
           (case rpc_write rpc (map Inr requests) s of
              (Inl e, s1) \<Rightarrow> (Inl (Storage (''gRPC ByteStream write failed: '' @ st_message e)), s1)
            | (Inr committed, s1) \<Rightarrow>
                (case fed of
                   Inl e \<Rightarrow> (Inl (Storage (''Local stream error during ByteStream upload: '' @ cas_error_text e)), s1)
                 | Inr _ \<Rightarrow>
                     if committed \<noteq> dsize d
                     then (Inl (Storage (''Partial ByteStream upload: expected '' @ show_int (dsize d)
                             @ '' bytes, committed '' @ show_int committed)), s1)
                     else (Inr (), s1))))"

definition grpc_delete :: "digest_info \<Rightarrow> 's \<Rightarrow> unit cas_result \<times> 's" where
  "grpc_delete d s = (Inr (), s)"

definition grpc_local_path :: "digest_info \<Rightarrow> 's \<Rightarrow> path option cas_result \<times> 's" where
  "grpc_local_path d s = (Inr None, s)"

section \<open>The client and the server together\<close>

lemma proto_digest_msg: "proto_digest_of lower_hex d = digest_msg d"
  by (simp add: proto_digest_of_def digest_msg_def hash_to_string_def)

lemma digest_msg_wf: "digest_wf d \<Longrightarrow> to_digest_info (digest_msg d) = Inr d \<and> i64_size (digest_msg d)"
  using digest_msg_parses [of d] by (simp add: digest_wf_def i64_size_def) (simp add: digest_msg_def)

lemma response_ok_status [simp]: "response_ok (rpc_status code text) \<longleftrightarrow> code = CodeOk"
  by (simp add: response_ok_def rpc_status_def)

context cas_backend
begin

lemma grpc_contains_sound:
  assumes "ok s" "digest_wf d" "grpc_contains lower_hex (server_rpc lower_hex ops room) d s = (r, s')"
  shows "\<exists>p. r = Inr p \<and> (p \<longrightarrow> present holds s d)"
proof -
  obtain q s1 where f: "find_missing_blobs lower_hex ops [digest_msg d] s = (q, s1)" by fastforce
  show ?thesis
  proof (cases q)
    case (Inr ms)
    have "ms = [] \<Longrightarrow> present holds s d"
      using find_missing_blobs_spec [OF assms(1) _ f [unfolded Inr], of "digest_msg d"] digest_msg_wf [OF assms(2)]
      by (auto simp: digest_msg_def)
    then show ?thesis using assms(3) f Inr by (auto simp: grpc_contains_def server_rpc_def proto_digest_msg)
  qed (use assms(3) f in \<open>auto simp: grpc_contains_def server_rpc_def proto_digest_msg\<close>)
qed

lemma batch_read_one:
  assumes "ok s" "digest_wf d" "batch_read_blobs lower_hex (batch_read (cb_read ops)) [digest_msg d] s = (Inr rs, s')"
  shows "rs \<noteq> [] \<and> (response_ok (rr_status (hd rs)) \<longrightarrow> holds s d = Some (rr_data (hd rs)))"
proof -
  have m: "to_digest_info (digest_msg d) = Inr d" "pd_hash (digest_msg d) = lower_hex (hash d)"
    using digest_msg_wf [OF assms(2)] by (simp_all add: digest_msg_def)
  obtain q s1 where b: "batch_read (cb_read ops) [d] s = (q, s1)" by fastforce
  note spec = batch_read_spec [OF assms(1) _ b]
  show ?thesis
    using assms(2,3) b spec m
    by (cases q) (auto simp: batch_read_blobs_def read_item_def hash_to_string_def split: option.splits)
qed

lemma grpc_read_sound:
  assumes "ok s" "digest_wf d" "grpc_read lower_hex (server_rpc lower_hex ops room) d s = (r, s')"
  shows "\<exists>x. r = Inr x \<and> (x \<noteq> None \<longrightarrow> x = holds s d)"
proof -
  obtain q s1 where f: "batch_read_blobs lower_hex (batch_read (cb_read ops)) [digest_msg d] s = (q, s1)" by fastforce
  show ?thesis
  proof (cases q)
    case (Inr rs)
    then show ?thesis
      using batch_read_one [OF assms(1,2) f [unfolded Inr]] f assms(3)
      by (cases rs) (auto simp: grpc_read_def server_rpc_def proto_digest_msg)
  qed (use assms(3) f in \<open>auto simp: grpc_read_def server_rpc_def proto_digest_msg\<close>)
qed

end

section \<open>Streamed uploads\<close>

lemma feed_upload_uploaded:
  "feed_upload name offset cap stream = (requests, Inr ()) \<Longrightarrow>
   \<exists>data. stream_data stream = Some data \<and> uploaded (map Inr requests) = length data"
proof (induction name offset cap stream arbitrary: requests rule: feed_upload.induct)
  case (3 name offset cap chunk stream)
  then show ?case by (fastforce simp: uploaded_def split: if_splits prod.splits)
qed (auto simp: uploaded_def split: if_splits)

lemma feed_upload_first: "feed_upload name offset cap stream = (r # requests, x) \<Longrightarrow> wr_resource_name r = name"
  by (cases stream; cases "hd stream") (auto split: if_splits prod.splits)

text \<open>
  C12: what a client of this server believes about its blobs is true. Whatever fails at the server,
  a blob the client finds is stored there, and what it reads are the bytes the digest names.
\<close>

theorem remote_lookup_sound:
  assumes "disk_ok sha256 k" "digest_wf d"
    and rpc_def: "rpc = server_rpc lower_hex (disk_ops io lower_hex sha256 now uuid) room"
  shows "(fst (grpc_contains lower_hex rpc d k) = Inr True \<longrightarrow> present disk_holds k d) \<and>
    (\<forall>b. fst (grpc_read lower_hex rpc d k) = Inr (Some b) \<longrightarrow> disk_holds k d = Some b \<and> sha256 b = hash d)"
proof -
  obtain r k1 where c: "grpc_contains lower_hex rpc d k = (r, k1)" by fastforce
  obtain q k2 where g: "grpc_read lower_hex rpc d k = (q, k2)" by fastforce
  have "q = Inr (Some b) \<Longrightarrow> disk_holds k d = Some b" for b
    using disk_backend.grpc_read_sound [OF assms(1,2) g [unfolded rpc_def]] by force
  moreover have "disk_holds k d = Some b \<Longrightarrow> sha256 b = hash d" for b using disk_cas.holds_sound [OF assms(1,2)] by blast
  moreover have "r = Inr True \<Longrightarrow> present disk_holds k d"
    using disk_backend.grpc_contains_sound [OF assms(1,2) c [unfolded rpc_def]] by auto
  ultimately show ?thesis using c g by simp
qed

theorem remote_lookup_sound_witness:
  "let rpc = server_rpc lower_hex (disk_ops no_fault lower_hex (\<lambda>_. hash loop_digest) 0 ''u'') 1
   in fst (grpc_read lower_hex rpc loop_digest loop_disk) = Inr (Some [1]) \<and> disk_holds loop_disk loop_digest = Some [1]"
proof -
  define rpc where "rpc = server_rpc lower_hex (disk_ops no_fault lower_hex (\<lambda>_. hash loop_digest) 0 ''u'') 1"
  have wf: "digest_wf loop_digest" by (simp add: digest_wf_def loop_digest_def)
  obtain k' where r: "cb_read (disk_ops no_fault lower_hex (\<lambda>_. hash loop_digest) 0 ''u'') loop_digest loop_disk = (Inr (Some [1]), k')"
    using loop_read by blast
  have "pd_hash (digest_msg loop_digest) = lower_hex (hash loop_digest)" by (simp add: digest_msg_def)
  then have g: "fst (grpc_read lower_hex rpc loop_digest loop_disk) = Inr (Some [1])"
    using r by (simp add: rpc_def server_rpc_def grpc_read_def proto_digest_msg batch_read_blobs_def loop_msg(1) read_item_def hash_to_string_def)
  moreover have "disk_holds loop_disk loop_digest = Some [1]"
    using remote_lookup_sound [OF loop_ok(1) wf rpc_def] g by blast
  ultimately show ?thesis unfolding Let_def rpc_def [symmetric] by blast
qed

definition upload_resource :: "string \<Rightarrow> string \<Rightarrow> digest_info \<Rightarrow> string" where
  "upload_resource i uuid d = resource_name (instance_prefix i @ ''uploads/'' @ uuid @ ''/blobs'') d"

lemma upload_resource: "upload_resource i uuid d \<noteq> []" "digest_wf d \<Longrightarrow> resource_digest (upload_resource i uuid d) = Inr d"
  unfolding upload_resource_def by (simp add: resource_name_def) (rule resource_name_parses)

lemma grpc_write_stream_unfold:
  "grpc_write_stream lower_hex i rpc uuid cap d stream s =
     (case feed_upload (upload_resource i uuid d) 0 cap stream of (requests, fed) \<Rightarrow>
        (case rpc_write rpc (map Inr requests) s of
           (Inl e, s1) \<Rightarrow> (Inl (Storage (''gRPC ByteStream write failed: '' @ st_message e)), s1)
         | (Inr committed, s1) \<Rightarrow>
             (case fed of
                Inl e \<Rightarrow> (Inl (Storage (''Local stream error during ByteStream upload: '' @ cas_error_text e)), s1)
              | Inr _ \<Rightarrow>
                  if committed \<noteq> dsize d
                  then (Inl (Storage (''Partial ByteStream upload: expected '' @ show_int (dsize d)
                          @ '' bytes, committed '' @ show_int committed)), s1)
                  else (Inr (), s1))))"
  by (simp add: grpc_write_stream_def upload_resource_def resource_name_def hash_to_string_def Let_def)



section \<open>Where the two ends disagree\<close>

lemma i64_wrap_small: "- (2 ^ 63) \<le> x \<Longrightarrow> x < 2 ^ 63 \<Longrightarrow> i64_wrap x = x"
  by (simp add: i64_wrap_def sint_sbintrunc' signed_take_bit_int_eq_self)

text \<open>
  A write of bytes that do not match their digest is reported as done. The server refuses the
  blob in the status of its item, which the client does not read, so nothing is stored.
\<close>

theorem remote_write_unreported:
  assumes "digest_wf d" "\<not> present disk_holds k d" "sha256 data \<noteq> hash d"
  shows "grpc_write lower_hex (server_rpc lower_hex (disk_ops no_fault lower_hex sha256 now uuid) room) d data k = (Inr (), k)"
proof -
  have c: "disk_contains no_fault lower_hex now d k = (Inr False, k)"
    using assms(2) by (auto simp: disk_contains_def Let_def present_def has_size_def disk_holds_def file_len_def split: option.splits)
  obtain e where "verify_digest lower_hex sha256 data d = Inl e"
    using verify_digest_Inr [OF lower_hex_is_codec, of sha256 data d] assms(3) by (cases "verify_digest lower_hex sha256 data d") auto
  then have "disk_write no_fault lower_hex sha256 now uuid d data k = (Inl e, k)" using c by (simp add: disk_write_def)
  then show ?thesis
    using digest_msg_wf [OF assms(1)]
    by (simp add: grpc_write_def server_rpc_def batch_update_request_def proto_digest_msg batch_update_blobs_def update_item_def
        default_batch_write_def Let_def)
qed

theorem remote_write_unreported_witness:
  "grpc_write lower_hex (server_rpc lower_hex (disk_ops no_fault lower_hex (\<lambda>_. replicate 32 9) 0 ''u'') 1) loop_digest [2] (disk_new [])
     = (Inr (), disk_new [])"
  by (rule remote_write_unreported)
    (simp_all add: loop_digest_def digest_wf_def present_def disk_holds_def disk_new_def disk_with_max_size_def disk_with_max_size_bytes_def)

text \<open>
  Uploading a blob the server already has can fail. The server's disk does not read the stream
  of a blob it has; when it drops the stream early, the server acknowledges the bytes received so
  far, which the client takes for a partial upload.
\<close>

theorem stored_upload_fails:
  assumes "digest_wf d" "present disk_holds k d" "dsize d < 2 ^ 62" "int (length chunk) < dsize d" "cap > 0"
  shows "\<exists>text k'. grpc_write_stream lower_hex instance_name
      (server_rpc lower_hex (disk_ops no_fault lower_hex sha256 now u) 0) uuid cap d (Inr chunk # stream) k = (Inl (Storage text), k')"
proof -
  define name where "name = upload_resource instance_name uuid d"
  have name: "resource_digest name = Inr d" "name \<noteq> []" unfolding name_def by (simp_all add: upload_resource assms(1))
  obtain k1 where "disk_contains no_fault lower_hex now d k = (Inr True, k1)"
    using assms(2) by (auto simp: disk_contains_def Let_def present_def has_size_def disk_holds_def file_len_def split: option.splits)
  then have ws: "disk_write_stream no_fault lower_hex sha256 now u d [] k = (Inr (), k1)" by (simp add: disk_write_stream_def)
  obtain rest fed where f: "feed_upload name 0 cap (Inr chunk # stream) =
      (\<lparr>wr_resource_name = name, wr_write_offset = 0, wr_finish_write = False, wr_data = chunk\<rparr> # rest, fed)"
    using assms(5) by (cases "feed_upload [] (int (length chunk)) (cap - 1) stream") simp
  have "i64_wrap (int (length chunk)) = int (length chunk)" "i64_wrap (dsize d * 2) = dsize d * 2"
    using assms(3,4) by (simp_all add: i64_wrap_small)
  then have "bs_write (disk_ops no_fault lower_hex sha256 now u) 0
      (map Inr (\<lparr>wr_resource_name = name, wr_write_offset = 0, wr_finish_write = False, wr_data = chunk\<rparr> # rest)) k = (Inr (int (length chunk)), k1)"
    using name ws assms(4) by (simp add: bs_write_def upload_loop.simps MAX_UPLOAD_OVERRUN_FACTOR_def Let_def)
  then show ?thesis
    unfolding grpc_write_stream_unfold name_def [symmetric] server_rpc_def f using assms(4) by (cases fed) simp_all
qed

theorem stored_upload_fails_witness:
  "\<exists>text k'. grpc_write_stream lower_hex []
      (server_rpc lower_hex (disk_ops no_fault lower_hex (\<lambda>_. hash loop_digest) 0 ''u'') 0) ''v'' 2 loop_digest [Inr [], Inr [1]] loop_disk
     = (Inl (Storage text), k')"
  by (rule stored_upload_fails)
    (simp_all add: digest_wf_def present_def disk_holds_def loop_files blob_path_def has_size_def, simp_all add: loop_digest_def)

end
