(* ===== verification/Output_Handler.thy ===== *)
theory Output_Handler
  imports Byte_Stream
begin

text \<open>
  \<open>execution/output_handler.rs\<close>: where the standard output and error of an action go, inline or into
  the CAS. The two sizes come from the environment and are arguments.
\<close>

text \<open>A size from the environment, or its default.\<close>

definition size_from_env :: "nat \<Rightarrow> string option \<Rightarrow> nat" where
  "size_from_env dflt v = (case Option.bind v (parse_unsigned 64) of None \<Rightarrow> dflt | Some n \<Rightarrow> n)"

definition inline_output_threshold :: "string option \<Rightarrow> nat" where
  "inline_output_threshold v = size_from_env (1024 * 1024) v"

definition max_capture_size :: "string option \<Rightarrow> nat" where
  "max_capture_size v = size_from_env (100 * 1024 * 1024) v"

record output_result =
  or_raw :: "bytes option"
  or_digest :: "digest_info option"
  or_truncated :: bool

definition or_inline :: "bytes \<Rightarrow> output_result" where
  "or_inline data = \<lparr>or_raw = Some data, or_digest = None, or_truncated = False\<rparr>"

definition or_stored :: "digest_info \<Rightarrow> output_result" where
  "or_stored d = \<lparr>or_raw = None, or_digest = Some d, or_truncated = False\<rparr>"

definition or_cut :: "bytes \<Rightarrow> digest_info option \<Rightarrow> output_result" where
  "or_cut raw d = \<lparr>or_raw = Some raw, or_digest = d, or_truncated = True\<rparr>"

definition is_inline :: "output_result \<Rightarrow> bool" where
  "is_inline r = (or_raw r \<noteq> None \<and> or_digest r = None)"

definition is_stored :: "output_result \<Rightarrow> bool" where
  "is_stored r = (or_digest r \<noteq> None)"

definition or_size :: "output_result \<Rightarrow> nat" where
  "or_size r = (case or_raw r of None \<Rightarrow> 0 | Some b \<Rightarrow> length b)"

text \<open>\<open>str::as_bytes\<close> of a text in ASCII.\<close>

definition text_bytes :: "string \<Rightarrow> bytes" where
  "text_bytes s = map (\<lambda>c. of_nat (of_char c)) s"

definition store_in_cas :: "(bytes \<Rightarrow> bytes) \<Rightarrow> 's cas_ops \<Rightarrow> bytes \<Rightarrow> 's \<Rightarrow> output_result cas_result \<times> 's" where
  "store_in_cas sha256 ops data s =
     (let d = from_bytes sha256 data in
      case cb_contains ops d s of
        (Inl e, s1) \<Rightarrow> (Inl e, s1)
      | (Inr True, s1) \<Rightarrow> (Inr (or_stored d), s1)
      | (Inr False, s1) \<Rightarrow>
          (case cb_write ops d data s1 of
             (Inl e, s2) \<Rightarrow> (Inl e, s2)
           | (Inr _, s2) \<Rightarrow> (Inr (or_stored d), s2)))"

definition truncation_msg :: "nat \<Rightarrow> bytes" where
  "truncation_msg n = text_bytes ([CHR 0x0A] @ ''[Output truncated: exceeded maximum size of '' @ show_nat n @ '' bytes]'' @ [CHR 0x0A])"

definition truncate_and_store ::
  "(bytes \<Rightarrow> bytes) \<Rightarrow> 's cas_ops \<Rightarrow> bytes \<Rightarrow> nat \<Rightarrow> 's \<Rightarrow> output_result cas_result \<times> 's" where
  "truncate_and_store sha256 ops data limit s =
     (let kept = take limit data; d = from_bytes sha256 kept in
      case cb_contains ops d s of
        (Inl e, s1) \<Rightarrow> (Inl e, s1)
      | (Inr True, s1) \<Rightarrow> (Inr (or_cut (kept @ truncation_msg limit) (Some d)), s1)
      | (Inr False, s1) \<Rightarrow>
          (case cb_write ops d kept s1 of
             (Inl e, s2) \<Rightarrow> (Inl e, s2)
           | (Inr _, s2) \<Rightarrow> (Inr (or_cut (kept @ truncation_msg limit) (Some d)), s2)))"

definition process_output ::
  "(bytes \<Rightarrow> bytes) \<Rightarrow> 's cas_ops \<Rightarrow> nat \<Rightarrow> nat \<Rightarrow> bytes \<Rightarrow> 's \<Rightarrow> output_result cas_result \<times> 's" where
  "process_output sha256 ops max_capture inline_threshold data s =
     (if data = [] then (Inr (or_inline []), s)
      else if length data > max_capture then truncate_and_store sha256 ops data max_capture s
      else if length data < inline_threshold then (Inr (or_inline data), s)
      else store_in_cas sha256 ops data s)"

definition retrieve_output ::
  "(bytes \<Rightarrow> string) \<Rightarrow> 's cas_ops \<Rightarrow> output_result \<Rightarrow> 's \<Rightarrow> bytes cas_result \<times> 's" where
  "retrieve_output hex_encode ops r s =
     (case or_raw r of
        Some data \<Rightarrow> (Inr data, s)
      | None \<Rightarrow>
          (case or_digest r of
             None \<Rightarrow> (Inr [], s)
           | Some d \<Rightarrow>
               (case cb_read ops d s of
                  (Inl e, s1) \<Rightarrow> (Inl e, s1)
                | (Inr (Some data), s1) \<Rightarrow> (Inr data, s1)
                | (Inr None, s1) \<Rightarrow>
                    (Inr (text_bytes (''[Output not found in CAS: '' @ hash_to_string hex_encode d @ '']'')), s1))))"

section \<open>What a reader gets back\<close>

lemma from_bytes_wf: "sha256_width sha256 \<Longrightarrow> length data < 2 ^ 63 \<Longrightarrow> digest_wf (from_bytes sha256 data)"
  by (simp add: digest_wf_def from_bytes_def sha256_width_def)

context durable_backend
begin

lemma ensure_stored:
  assumes "sha256_width sha256" "length data < 2 ^ 63" "ok s" "cb_contains ops (from_bytes sha256 data) s = (q, s1)"
    "cb_write ops (from_bytes sha256 data) data s1 = (w, s2)"
  shows "ok s1 \<and> ok s2 \<and> (q = Inr True \<longrightarrow> present holds s1 (from_bytes sha256 data)) \<and>
    (w = Inr () \<longrightarrow> present holds s2 (from_bytes sha256 data))"
proof -
  note wf = from_bytes_wf [OF assms(1,2)]
  have c: "ok s1" "holds s1 = holds s" "q = Inr True \<longrightarrow> present holds s (from_bytes sha256 data)"
    using contains_law [OF assms(3) wf assms(4)] by auto
  moreover have "ok s2" using write_ok [OF c(1) wf assms(2)] assms(5) by (metis snd_conv)
  moreover have "w = Inr () \<longrightarrow> present holds s2 (from_bytes sha256 data)"
    using write_stores [OF c(1) wf assms(2)] assms(5) by blast
  ultimately show ?thesis using present_cong [OF c(2)] by simp
qed

lemma store_in_cas_spec:
  assumes "sha256_width sha256" "length data < 2 ^ 63" "ok s" "store_in_cas sha256 ops data s = (Inr r, s')"
  shows "r = or_stored (from_bytes sha256 data) \<and> ok s' \<and> present holds s' (from_bytes sha256 data)"
proof -
  obtain q s1 where c: "cb_contains ops (from_bytes sha256 data) s = (q, s1)" by fastforce
  obtain w s2 where w: "cb_write ops (from_bytes sha256 data) data s1 = (w, s2)" by fastforce
  show ?thesis using assms(4) ensure_stored [OF assms(1-3) c w]
    by (cases q; cases w) (auto simp: store_in_cas_def Let_def c w split: bool.splits)
qed

lemma truncate_and_store_spec:
  assumes "sha256_width sha256" "limit < 2 ^ 63" "ok s" "truncate_and_store sha256 ops data limit s = (Inr r, s')"
  shows "r = or_cut (take limit data @ truncation_msg limit) (Some (from_bytes sha256 (take limit data))) \<and> ok s' \<and>
    present holds s' (from_bytes sha256 (take limit data))"
proof -
  obtain q s1 where c: "cb_contains ops (from_bytes sha256 (take limit data)) s = (q, s1)" by fastforce
  obtain w s2 where w: "cb_write ops (from_bytes sha256 (take limit data)) (take limit data) s1 = (w, s2)" by fastforce
  have "length (take limit data) < 2 ^ 63" using assms(2) by simp
  from assms(4) ensure_stored [OF assms(1) this assms(3) c w] show ?thesis
    by (cases q; cases w) (auto simp: truncate_and_store_def Let_def c w split: bool.splits)
qed

end

end
