(* ===== verification/Action_Cache_Log.thy ===== *)
theory Action_Cache_Log
  imports Fair_Queue
begin

text \<open>
  \<open>cache/action_cache_log.rs\<close>: what an invocation's lookups and executions were. The two caches of the
  \<open>moka\<close> package drop invocations on their own, at any time: \<open>log_forget_lookups\<close> and
  \<open>log_forget_placements\<close> are such steps. A worker
  index and an output key are \<open>u32\<close> and \<open>u64\<close> values.
\<close>

unbundle bit_operations_syntax

definition MAX_PLACED_OUTPUTS :: nat where
  "MAX_PLACED_OUTPUTS = 1000000"

definition FNV_OFFSET :: u64 where
  "FNV_OFFSET = 0xcbf29ce484222325"

definition FNV_PRIME :: u64 where
  "FNV_PRIME = 0x100000001b3"

definition output_key :: "string \<Rightarrow> u64" where
  "output_key p = foldl (\<lambda>h c. (h XOR of_nat (of_char c)) * FNV_PRIME) FNV_OFFSET p"

section \<open>Placements\<close>

record worker_placements =
  wp_workers :: "string list"
  wp_outputs :: "(u64 \<times> 32 word) list"

definition placements_default :: worker_placements where
  "placements_default = \<lparr>wp_workers = [], wp_outputs = []\<rparr>"

text \<open>\<open>slice::binary_search_by_key\<close> between two positions, on the keys of a slice sorted by them.\<close>

function key_search :: "(u64 \<times> 32 word) list \<Rightarrow> u64 \<Rightarrow> nat \<Rightarrow> nat \<Rightarrow> nat option" where
  "key_search xs key lo hi =
     (if lo \<ge> hi then None
      else let mid = lo + (hi - lo) div 2; k = fst (xs ! mid) in
           if k = key then Some mid
           else if k < key then key_search xs key (mid + 1) hi
           else key_search xs key lo mid)"
  by pat_completeness auto
termination
  by (relation "measure (\<lambda>(_, _, lo, hi). hi - lo)") (auto simp: Let_def)

declare key_search.simps [simp del]

definition worker_of :: "worker_placements \<Rightarrow> string \<Rightarrow> string option" where
  "worker_of p path =
     (case key_search (wp_outputs p) (output_key path) 0 (length (wp_outputs p)) of
        None \<Rightarrow> None
      | Some i \<Rightarrow>
          (let w = unat (snd (wp_outputs p ! i))
           in if w < length (wp_workers p) then Some (wp_workers p ! w) else None))"

definition placements_is_empty :: "worker_placements \<Rightarrow> bool" where
  "placements_is_empty p = (wp_outputs p = [])"

record placements_builder =
  pb_workers :: "string list"
  pb_worker_index :: "string \<rightharpoonup> 32 word"
  pb_outputs :: "(u64 \<times> 32 word) list"

definition builder_default :: placements_builder where
  "builder_default = \<lparr>pb_workers = [], pb_worker_index = Map.empty, pb_outputs = []\<rparr>"

fun place_outputs :: "string list \<Rightarrow> 32 word \<Rightarrow> placements_builder \<Rightarrow> placements_builder" where
  "place_outputs [] index b = b"
| "place_outputs (p # ps) index b =
     (if length (pb_outputs b) \<ge> MAX_PLACED_OUTPUTS then b
      else place_outputs ps index (b\<lparr>pb_outputs := AList.update (output_key p) index (pb_outputs b)\<rparr>))"

definition builder_place :: "string \<Rightarrow> string list \<Rightarrow> placements_builder \<Rightarrow> placements_builder" where
  "builder_place worker outputs b =
     (let fresh = of_nat (length (pb_workers b));
          index = (case pb_worker_index b worker of Some i \<Rightarrow> i | None \<Rightarrow> fresh);
          b1 = b\<lparr>pb_worker_index := (pb_worker_index b)(worker \<mapsto> index)\<rparr>;
          b2 = (if index = fresh then b1\<lparr>pb_workers := pb_workers b1 @ [worker]\<rparr> else b1)
      in place_outputs outputs index b2)"

definition builder_placements :: "placements_builder \<Rightarrow> worker_placements" where
  "builder_placements b = \<lparr>wp_workers = pb_workers b, wp_outputs = sort (pb_outputs b)\<rparr>"

section \<open>Lookups\<close>

record action_inputs =
  ai_mnemonic :: string
  ai_files :: nat
  ai_bytes :: nat
  ai_groups :: "input_group list"

record target_stats =
  ts_hits :: u64
  ts_misses :: u64
  ts_missed_mnemonics :: "(string \<times> u64) list"
  ts_heaviest_inputs :: "action_inputs option"

definition stats_default :: target_stats where
  "stats_default = \<lparr>ts_hits = 0, ts_misses = 0, ts_missed_mnemonics = [], ts_heaviest_inputs = None\<rparr>"

definition count_lookup :: "string \<Rightarrow> bool \<Rightarrow> target_stats \<Rightarrow> target_stats" where
  "count_lookup mnemonic hit st =
     (if hit then st\<lparr>ts_hits := ts_hits st + 1\<rparr>
      else st\<lparr>ts_misses := ts_misses st + 1,
              ts_missed_mnemonics := AList.update mnemonic
                ((case map_of (ts_missed_mnemonics st) mnemonic of None \<Rightarrow> 0 | Some n \<Rightarrow> n) + 1) (ts_missed_mnemonics st)\<rparr>)"

definition keep_heaviest :: "action_inputs \<Rightarrow> target_stats \<Rightarrow> target_stats" where
  "keep_heaviest inputs st =
     (case ts_heaviest_inputs st of
        None \<Rightarrow> st\<lparr>ts_heaviest_inputs := Some inputs\<rparr>
      | Some known \<Rightarrow> if ai_bytes inputs > ai_bytes known then st\<lparr>ts_heaviest_inputs := Some inputs\<rparr> else st)"

record ac_log =
  log_invocations :: "(string \<times> (string \<times> target_stats) list) list"
  log_placements :: "(string \<times> placements_builder) list"

definition log_new :: ac_log where
  "log_new = \<lparr>log_invocations = [], log_placements = []\<rparr>"

text \<open>\<open>entry(target).or_default()\<close> on the targets of an invocation, which is made if it is new.\<close>

definition with_target :: "string \<Rightarrow> string \<Rightarrow> (target_stats \<Rightarrow> target_stats) \<Rightarrow> ac_log \<Rightarrow> ac_log" where
  "with_target invocation target f l =
     (let targets = (case map_of (log_invocations l) invocation of None \<Rightarrow> [] | Some ts \<Rightarrow> ts);
          st = (case map_of targets target of None \<Rightarrow> stats_default | Some st \<Rightarrow> st)
      in l\<lparr>log_invocations := AList.update invocation (AList.update target (f st) targets) (log_invocations l)\<rparr>)"

definition log_record :: "string \<Rightarrow> string \<Rightarrow> string \<Rightarrow> bool \<Rightarrow> ac_log \<Rightarrow> ac_log" where
  "log_record invocation target mnemonic hit l = with_target invocation target (count_lookup mnemonic hit) l"

definition log_record_inputs :: "string \<Rightarrow> string \<Rightarrow> action_inputs \<Rightarrow> ac_log \<Rightarrow> ac_log" where
  "log_record_inputs invocation target inputs l = with_target invocation target (keep_heaviest inputs) l"

definition log_record_placement :: "string \<Rightarrow> string \<Rightarrow> string list \<Rightarrow> ac_log \<Rightarrow> ac_log" where
  "log_record_placement invocation worker outputs l =
     (let b = (case map_of (log_placements l) invocation of None \<Rightarrow> builder_default | Some b \<Rightarrow> b)
      in l\<lparr>log_placements := AList.update invocation (builder_place worker outputs b) (log_placements l)\<rparr>)"

definition log_placements_of :: "string \<Rightarrow> ac_log \<Rightarrow> worker_placements" where
  "log_placements_of invocation l =
     (case map_of (log_placements l) invocation of None \<Rightarrow> placements_default | Some b \<Rightarrow> builder_placements b)"

definition log_snapshot :: "string \<Rightarrow> ac_log \<Rightarrow> (string \<times> target_stats) list" where
  "log_snapshot invocation l =
     (case map_of (log_invocations l) invocation of None \<Rightarrow> [] | Some ts \<Rightarrow> sort_key fst ts)"

definition log_forget_lookups :: "string \<Rightarrow> ac_log \<Rightarrow> ac_log" where
  "log_forget_lookups invocation l = l\<lparr>log_invocations := AList.delete invocation (log_invocations l)\<rparr>"

definition log_forget_placements :: "string \<Rightarrow> ac_log \<Rightarrow> ac_log" where
  "log_forget_placements invocation l = l\<lparr>log_placements := AList.delete invocation (log_placements l)\<rparr>"

section \<open>The search\<close>

lemma key_search_sound:
  "key_search xs key lo hi = Some i \<Longrightarrow> lo \<le> i \<and> i < hi \<and> fst (xs ! i) = key"
proof (induction xs key lo hi rule: key_search.induct)
  case (1 xs key lo hi)
  define mid where "mid = lo + (hi - lo) div 2"
  have run: "lo < hi" "(if fst (xs ! mid) = key then Some mid
      else if fst (xs ! mid) < key then key_search xs key (mid + 1) hi else key_search xs key lo mid) = Some i"
    using "1.prems" by (subst (asm) key_search.simps, simp add: Let_def mid_def split: if_splits)+
  have mid: "lo \<le> mid" "mid < hi" using run(1) by (auto simp: mid_def)
  note IH = "1.IH" [unfolded Let_def, OF _ refl refl, folded mid_def]
  consider "fst (xs ! mid) = key" | "fst (xs ! mid) < key" | "\<not> fst (xs ! mid) \<le> key" by force
  then show ?case
  proof cases
    case 1
    then show ?thesis using run mid by simp
  next
    case 2
    then have n: "fst (xs ! mid) \<noteq> key" by blast
    with 2 run(2) have "key_search xs key (mid + 1) hi = Some i" by simp
    with IH(1) n 2 run(1) mid show ?thesis by simp
  next
    case 3
    then have n: "fst (xs ! mid) \<noteq> key" "\<not> fst (xs ! mid) < key" by (blast, force)
    with run(2) have "key_search xs key lo mid = Some i" by simp
    with IH(2) n run(1) mid show ?thesis by simp
  qed
qed

lemma key_search_complete:
  assumes "sorted (map fst xs)" "hi \<le> length xs" "lo \<le> j" "j < hi" "fst (xs ! j) = key"
  shows "key_search xs key lo hi \<noteq> None"
  using assms
proof (induction xs key lo hi rule: key_search.induct)
  case (1 xs key lo hi)
  define mid where "mid = lo + (hi - lo) div 2"
  have mid: "lo \<le> mid" "mid < hi" using "1.prems" by (auto simp: mid_def)
  have low: "fst (xs ! i) \<le> fst (xs ! j')" if "i \<le> j'" "j' < hi" for i j'
    using sorted_nth_mono [OF "1.prems"(1), of i j'] that "1.prems"(2) by simp
  show ?case
  proof (cases "fst (xs ! mid)" key rule: linorder_cases)
    case less
    then have "mid + 1 \<le> j" using low [of j mid] mid(2) "1.prems"(5) by fastforce
    with 1 mid less show ?thesis by (subst key_search.simps) (simp add: Let_def mid_def)
  next
    case equal
    with mid show ?thesis by (subst key_search.simps) (simp add: Let_def mid_def)
  next
    case greater
    then have "j < mid" using low [of mid j] "1.prems"(4,5) by (meson leD not_le)
    with 1 mid greater show ?thesis by (subst key_search.simps) (auto simp: Let_def mid_def)
  qed
qed

text \<open>On a slice sorted by distinct keys the search is the lookup of the association list.\<close>

lemma key_search_map_of:
  assumes "sorted (map fst xs)" "distinct (map fst xs)"
  shows "map_option (\<lambda>i. snd (xs ! i)) (key_search xs key 0 (length xs)) = map_of xs key"
proof (cases "key_search xs key 0 (length xs)")
  case None
  have "key \<notin> fst ` set xs"
  proof
    assume "key \<in> fst ` set xs"
    then obtain j where "j < length xs" "fst (xs ! j) = key" by (auto simp: in_set_conv_nth)
    with key_search_complete [OF assms(1), of "length xs" 0 j key] None show False by simp
  qed
  then show ?thesis using None map_of_eq_None_iff [of xs key] by simp
next
  case (Some i)
  from key_search_sound [OF this] have "i < length xs" "fst (xs ! i) = key" by auto
  then have "(key, snd (xs ! i)) \<in> set xs" using nth_mem [of i xs] by (cases "xs ! i") simp
  with Some assms(2) show ?thesis by simp
qed

section \<open>Placements of an invocation\<close>

definition builder_wf :: "placements_builder \<Rightarrow> bool" where
  "builder_wf b \<longleftrightarrow>
     distinct (map fst (pb_outputs b)) \<and> length (pb_workers b) < 2 ^ 32 \<and>
     (\<forall>w i. pb_worker_index b w = Some i \<longrightarrow> unat i < length (pb_workers b) \<and> pb_workers b ! unat i = w) \<and>
     (\<forall>(k, i) \<in> set (pb_outputs b). unat i < length (pb_workers b))"

lemma builder_default_wf: "builder_wf builder_default"
  by (simp add: builder_wf_def builder_default_def)

text \<open>The worker that the builder's maps give to a key.\<close>

definition placed_worker :: "placements_builder \<Rightarrow> u64 \<Rightarrow> string option" where
  "placed_worker b key = map_option (\<lambda>i. pb_workers b ! unat i) (map_of (pb_outputs b) key)"

lemma sorted_fst: "sorted (xs :: ('a :: linorder \<times> 'b :: linorder) list) \<Longrightarrow> sorted (map fst xs)"
  by (induction xs) (auto simp: less_eq_prod_def)

lemma map_of_sort:
  assumes "distinct (map fst (xs :: ('a :: linorder \<times> 'b :: linorder) list))"
  shows "map_of (sort xs) = map_of xs"
proof -
  have "distinct (map fst (sort xs))"
    using assms by (simp add: distinct_map)
  then show ?thesis using map_of_inject_set [of "sort xs" xs] assms by simp
qed

lemma worker_of_placements:
  assumes "builder_wf b"
  shows "worker_of (builder_placements b) p = placed_worker b (output_key p)"
proof -
  let ?xs = "sort (pb_outputs b)"
  have d: "distinct (map fst (pb_outputs b))" using assms by (simp add: builder_wf_def)
  have "distinct (map fst ?xs)" using d by (simp add: distinct_map)
  from key_search_map_of [OF sorted_fst [OF sorted_sort] this]
  have m: "map_option (\<lambda>i. snd (?xs ! i)) (key_search ?xs (output_key p) 0 (length ?xs)) = map_of (pb_outputs b) (output_key p)"
    using map_of_sort [OF d] by simp
  show ?thesis
  proof (cases "map_of (pb_outputs b) (output_key p)")
    case None
    then show ?thesis using m by (simp add: worker_of_def builder_placements_def placed_worker_def)
  next
    case (Some i)
    then have "unat i < length (pb_workers b)" using assms by (auto simp: builder_wf_def dest!: map_of_SomeD)
    then show ?thesis using m Some by (auto simp: worker_of_def builder_placements_def placed_worker_def Let_def)
  qed
qed

lemma place_outputs_frame:
  "pb_workers (place_outputs ps i b) = pb_workers b \<and> pb_worker_index (place_outputs ps i b) = pb_worker_index b"
  by (induction ps i b rule: place_outputs.induct) auto

lemma length_update_le: "length (AList.update k v xs) \<le> length xs + 1"
  by (induction xs) auto

lemma place_outputs_map:
  "length (pb_outputs b) + length ps \<le> MAX_PLACED_OUTPUTS \<Longrightarrow>
   map_of (pb_outputs (place_outputs ps i b)) k =
     (if k \<in> output_key ` set ps then Some i else map_of (pb_outputs b) k)"
proof (induction ps i b rule: place_outputs.induct)
  case (2 p ps i b)
  have "length (AList.update (output_key p) i (pb_outputs b)) + length ps \<le> MAX_PLACED_OUTPUTS"
    using "2.prems" length_update_le [of "output_key p" i "pb_outputs b"] by simp
  then show ?case using 2 by (auto simp: update_conv')
qed auto

lemma update_entries: "set (AList.update k v xs) \<subseteq> insert (k, v) (set xs)"
  by (induction xs) auto

lemma place_outputs_wf:
  "distinct (map fst (pb_outputs b)) \<Longrightarrow> \<forall>(k, j) \<in> set (pb_outputs b). unat j < n \<Longrightarrow> unat i < n \<Longrightarrow>
   distinct (map fst (pb_outputs (place_outputs ps i b))) \<and> (\<forall>(k, j) \<in> set (pb_outputs (place_outputs ps i b)). unat j < n)"
proof (induction ps i b rule: place_outputs.induct)
  case (2 p ps i b)
  have "distinct (map fst (AList.update (output_key p) i (pb_outputs b)))" using "2.prems"(1) by (simp add: distinct_update)
  moreover have "\<forall>(k, j) \<in> set (AList.update (output_key p) i (pb_outputs b)). unat j < n"
    using "2.prems"(2,3) update_entries [of "output_key p" i "pb_outputs b"] by fastforce
  ultimately show ?case using 2 by simp
qed auto

lemma builder_place_spec:
  assumes wf: "builder_wf b" and room: "length (pb_outputs b) + length ps \<le> MAX_PLACED_OUTPUTS"
    "length (pb_workers b) + 1 < 2 ^ 32"
  shows "builder_wf (builder_place w ps b)"
    and "placed_worker (builder_place w ps b) k = (if k \<in> output_key ` set ps then Some w else placed_worker b k)"
proof -
  define fresh :: "32 word" where "fresh = of_nat (length (pb_workers b))"
  define i where "i = (case pb_worker_index b w of Some i \<Rightarrow> i | None \<Rightarrow> fresh)"
  define b2 where "b2 = (if i = fresh then b\<lparr>pb_worker_index := (pb_worker_index b)(w \<mapsto> i), pb_workers := pb_workers b @ [w]\<rparr>
      else b\<lparr>pb_worker_index := (pb_worker_index b)(w \<mapsto> i)\<rparr>)"
  have b: "builder_place w ps b = place_outputs ps i b2"
    by (simp add: builder_place_def Let_def b2_def i_def [symmetric] fresh_def [symmetric])
  have f: "unat fresh = length (pb_workers b)" using room(2) by (simp add: fresh_def unat_of_nat take_bit_nat_eq_self)
  have new: "i = fresh \<longleftrightarrow> pb_worker_index b w = None"
    using wf f by (fastforce simp: i_def builder_wf_def split: option.splits)
  have iw: "unat i < length (pb_workers b2) \<and> pb_workers b2 ! unat i = w"
    using wf f new by (auto simp: b2_def i_def builder_wf_def split: option.splits)
  have old: "j < length (pb_workers b) \<Longrightarrow> j < length (pb_workers b2) \<and> pb_workers b2 ! j = pb_workers b ! j" for j
    by (simp add: b2_def nth_append)
  have outs: "pb_outputs b2 = pb_outputs b" by (simp add: b2_def)
  have idx: "pb_worker_index b2 = (pb_worker_index b)(w \<mapsto> i)" by (simp add: b2_def)
  have d: "distinct (map fst (pb_outputs b2))" "\<forall>(k, j) \<in> set (pb_outputs b2). unat j < length (pb_workers b2)"
    using wf outs old by (auto simp: builder_wf_def)
  note pw = place_outputs_wf [OF d conjunct1 [OF iw], of ps]
  have "length (pb_workers b2) < 2 ^ 32" using room(2) by (simp add: b2_def)
  moreover have "\<forall>v j. pb_worker_index b2 v = Some j \<longrightarrow> unat j < length (pb_workers b2) \<and> pb_workers b2 ! unat j = v"
    using wf old iw idx by (auto simp: builder_wf_def)
  ultimately show "builder_wf (builder_place w ps b)"
    using pw by (simp add: b builder_wf_def place_outputs_frame)
  have keep: "map_option (\<lambda>j. pb_workers b2 ! unat j) (map_of (pb_outputs b) k) = placed_worker b k"
    using wf old by (cases "map_of (pb_outputs b) k") (auto simp: placed_worker_def builder_wf_def dest!: map_of_SomeD)
  have "length (pb_outputs b2) + length ps \<le> MAX_PLACED_OUTPUTS" using room(1) outs by simp
  from place_outputs_map [OF this, of i k] show "placed_worker (builder_place w ps b) k = (if k \<in> output_key ` set ps then Some w else placed_worker b k)"
    using keep iw outs by (simp add: b placed_worker_def place_outputs_frame)
qed

definition log_ok :: "ac_log \<Rightarrow> bool" where
  "log_ok l \<longleftrightarrow> (\<forall>invocation b. map_of (log_placements l) invocation = Some b \<longrightarrow> builder_wf b)"

definition builder_of :: "string \<Rightarrow> ac_log \<Rightarrow> placements_builder" where
  "builder_of invocation l = (case map_of (log_placements l) invocation of None \<Rightarrow> builder_default | Some b \<Rightarrow> b)"

lemma builder_of_wf: "log_ok l \<Longrightarrow> builder_wf (builder_of invocation l)"
  by (auto simp: log_ok_def builder_of_def builder_default_wf split: option.split)

lemma placements_of_builder: "log_placements_of invocation l = builder_placements (builder_of invocation l)"
  by (simp add: log_placements_of_def builder_of_def builder_placements_def builder_default_def placements_default_def split: option.split)

lemma builder_of_record:
  "builder_of v (log_record_placement invocation w ps l) =
     (if v = invocation then builder_place w ps (builder_of invocation l) else builder_of v l)"
  by (simp add: builder_of_def log_record_placement_def update_conv')



end
