(* ===== verification/Action_Cache_Service.thy ===== *)
theory Action_Cache_Service
  imports Tiered_Action_Cache Output_Handler Action_Cache_Log
begin

text \<open>
  \<open>server/action_cache_service.rs\<close>: lookups in the action cache that check the CAS for every blob a
  result refers to. The memo of verified trees is a cache of the \<open>moka\<close> package and an argument:
  \<open>memo_ok\<close> says that an entry it has was inserted less than its lifetime ago. The store of results is
  a record of the operations of the \<open>ActionCacheStore\<close> trait. The metrics are left out.
\<close>

definition VERIFIED_TREE_TTL :: millis where
  "VERIFIED_TREE_TTL = 15 * 60 * 1000"

section \<open>The blobs of a result\<close>

text \<open>The digests of a list of messages that are not empty and parse.\<close>

definition needed :: "proto_digest list \<Rightarrow> digest_info list" where
  "needed ms = List.map_filter parsed (filter (\<lambda>m. pd_size m > 0) ms)"

definition tree_digests :: "action_result \<Rightarrow> digest_info list" where
  "tree_digests r = needed (List.map_filter rd_tree_digest (ar_output_directories r))"

definition tree_file_digests :: "(bytes \<Rightarrow> string + tree) \<Rightarrow> bytes \<Rightarrow> digest_info list cas_result" where
  "tree_file_digests decode bytes =
     (case decode bytes of
        Inl e \<Rightarrow> Inl (InvalidData (''Failed to decode Tree: '' @ e))
      | Inr t \<Rightarrow>
          Inr (needed (List.map_filter fm_digest
                 (concat (map dir_files ((case tree_root t of None \<Rightarrow> [] | Some d \<Rightarrow> [d]) @ tree_children t))))))"

definition option_list :: "'a option \<Rightarrow> 'a list" where
  "option_list x = (case x of None \<Rightarrow> [] | Some y \<Rightarrow> [y])"

definition referenced_blobs :: "action_result \<Rightarrow> digest_info list" where
  "referenced_blobs r =
     needed (List.map_filter rf_digest (ar_output_files r) @ List.map_filter rd_tree_digest (ar_output_directories r) @
             option_list (ar_stdout_digest r) @ option_list (ar_stderr_digest r))"

section \<open>Verification\<close>

record 'm memo =
  memo_get :: "string \<Rightarrow> millis \<Rightarrow> 'm \<Rightarrow> bool \<times> 'm"
  memo_insert :: "string \<Rightarrow> millis \<Rightarrow> 'm \<Rightarrow> 'm"

text \<open>The loop's body: the blobs one tree adds to those that are missing.\<close>

definition verify_tree ::
  "(bytes \<Rightarrow> string) \<Rightarrow> 's cas_ops \<Rightarrow> 'm memo \<Rightarrow> (bytes \<Rightarrow> string + tree) \<Rightarrow> millis \<Rightarrow> digest_info \<Rightarrow> 's \<Rightarrow> 'm \<Rightarrow>
   nat cas_result \<times> 's \<times> 'm" where
  "verify_tree hex_encode ops memo decode now d s m =
     (let key = hash_to_string hex_encode d in
      case memo_get memo key now m of
        (True, m1) \<Rightarrow> (Inr 0, s, m1)
      | (False, m1) \<Rightarrow>
          (case cb_read ops d s of
             (Inl e, s1) \<Rightarrow> (Inl e, s1, m1)
           | (Inr None, s1) \<Rightarrow> (Inr 1, s1, m1)
           | (Inr (Some bytes), s1) \<Rightarrow>
               (case tree_file_digests decode bytes of
                  Inl e \<Rightarrow> (Inl e, s1, m1)
                | Inr files \<Rightarrow>
                    (case cb_find_missing ops files s1 of
                       (Inl e, s2) \<Rightarrow> (Inl e, s2, m1)
                     | (Inr lost, s2) \<Rightarrow> (Inr (length lost), s2, if lost = [] then memo_insert memo key now m1 else m1)))))"

fun missing_in_trees ::
  "(bytes \<Rightarrow> string) \<Rightarrow> 's cas_ops \<Rightarrow> 'm memo \<Rightarrow> (bytes \<Rightarrow> string + tree) \<Rightarrow> millis \<Rightarrow> digest_info list \<Rightarrow> nat \<Rightarrow> 's \<Rightarrow> 'm \<Rightarrow>
   nat cas_result \<times> 's \<times> 'm" where
  "missing_in_trees hex_encode ops memo decode now [] missing s m = (Inr missing, s, m)"
| "missing_in_trees hex_encode ops memo decode now (d # ds) missing s m =
     (case verify_tree hex_encode ops memo decode now d s m of
        (Inl e, s1, m1) \<Rightarrow> (Inl e, s1, m1)
      | (Inr n, s1, m1) \<Rightarrow> missing_in_trees hex_encode ops memo decode now ds (missing + n) s1 m1)"

definition missing_blobs ::
  "(bytes \<Rightarrow> string) \<Rightarrow> 's cas_ops \<Rightarrow> 'm memo \<Rightarrow> (bytes \<Rightarrow> string + tree) \<Rightarrow> millis \<Rightarrow> action_result \<Rightarrow> 's \<Rightarrow> 'm \<Rightarrow>
   nat cas_result \<times> 's \<times> 'm" where
  "missing_blobs hex_encode ops memo decode now r s m =
     (case cb_find_missing ops (referenced_blobs r) s of
        (Inl e, s1) \<Rightarrow> (Inl e, s1, m)
      | (Inr missing, s1) \<Rightarrow> missing_in_trees hex_encode ops memo decode now (tree_digests r) (length missing) s1 m)"

section \<open>The service\<close>

record 'a ac_store =
  as_get :: "digest_info \<Rightarrow> 'a \<Rightarrow> action_result cache_action_result option \<times> 'a"
  as_get_with_tier :: "digest_info \<Rightarrow> 'a \<Rightarrow> action_result get_result \<times> 'a"
  as_put :: "digest_info \<Rightarrow> action_result cache_action_result \<Rightarrow> 'a \<Rightarrow> 'a"
  as_remove :: "digest_info \<Rightarrow> 'a \<Rightarrow> 'a"

definition l1_ac_store :: "millis \<Rightarrow> action_result l1_cache ac_store" where
  "l1_ac_store now =
     \<lparr>as_get = l1_get now,
      as_get_with_tier = (\<lambda>d c. case l1_get now d c of (r, c1) \<Rightarrow> (\<lparr>gr_result = r, gr_tier = (if r \<noteq> None then L1 else Miss)\<rparr>, c1)),
      as_put = l1_put now, as_remove = invalidate\<rparr>"

definition disk_ac_store ::
  "(fs_call \<Rightarrow> bool) \<Rightarrow> (bytes \<Rightarrow> string) \<Rightarrow> (action_result \<Rightarrow> bytes) \<Rightarrow> (bytes \<Rightarrow> action_result option) \<Rightarrow> millis \<Rightarrow> string \<Rightarrow>
   action_result disk_ac ac_store" where
  "disk_ac_store io hex_encode encode decode now uuid =
     \<lparr>as_get = ac_get io hex_encode decode now,
      as_get_with_tier = ac_get_with_tier io hex_encode decode now,
      as_put = ac_put io hex_encode encode now uuid,
      as_remove = ac_remove io hex_encode\<rparr>"

definition tiered_ac_store ::
  "(fs_call \<Rightarrow> bool) \<Rightarrow> (string \<Rightarrow> string) \<Rightarrow> (bytes \<Rightarrow> string) \<Rightarrow> (action_result \<Rightarrow> bytes) \<Rightarrow> (bytes \<Rightarrow> action_result option) \<Rightarrow>
   's object_ac \<Rightarrow> millis \<Rightarrow> string \<Rightarrow> (action_result, 's) tiered_ac ac_store" where
  "tiered_ac_store io object_path hex_encode encode decode oa now uuid =
     \<lparr>as_get = tiered_ac_get io object_path hex_encode encode decode oa now uuid,
      as_get_with_tier = tiered_ac_get_with_tier io object_path hex_encode encode decode oa now uuid,
      as_put = tiered_ac_put io object_path hex_encode encode oa now uuid,
      as_remove = tiered_ac_remove io object_path hex_encode oa\<rparr>"

record ('s, 'a, 'm) cache_state =
  cs_cas :: 's
  cs_store :: 'a
  cs_memo :: 'm
  cs_log :: "ac_log option"

definition ac_action_digest_of :: "proto_digest option \<Rightarrow> status + digest_info" where
  "ac_action_digest_of m =
     (case m of
        None \<Rightarrow> Inl (invalid_argument ''Missing action_digest'')
      | Some m \<Rightarrow>
          (case digest_new (pd_hash m) (pd_size m) of
             Inl e \<Rightarrow> Inl (invalid_argument (''Invalid digest: '' @ rbe_error_text e))
           | Inr d \<Rightarrow> Inr d))"

definition log_get :: "request_metadata option \<Rightarrow> bool \<Rightarrow> ac_log option \<Rightarrow> ac_log option" where
  "log_get caller hit l =
     (case (l, caller) of
        (Some l, Some c) \<Rightarrow>
          if tool_invocation_id c \<noteq> [] \<and> target_id c \<noteq> []
          then Some (log_record (tool_invocation_id c) (target_id c) (action_mnemonic c) hit l) else Some l
      | _ \<Rightarrow> l)"

definition get_action_result ::
  "(bytes \<Rightarrow> string) \<Rightarrow> 's cas_ops \<Rightarrow> 'm memo \<Rightarrow> (bytes \<Rightarrow> string + tree) \<Rightarrow> 'a ac_store \<Rightarrow> millis \<Rightarrow> request_metadata option \<Rightarrow>
   proto_digest option \<Rightarrow> ('s, 'a, 'm) cache_state \<Rightarrow> (status + action_result) \<times> ('s, 'a, 'm) cache_state" where
  "get_action_result hex_encode ops memo decode store now caller msg c =
     (case ac_action_digest_of msg of
        Inl e \<Rightarrow> (Inl e, c)
      | Inr d \<Rightarrow>
          (case as_get_with_tier store d (cs_store c) of (g, a1) \<Rightarrow>
             (case gr_result g of
                None \<Rightarrow>
                  (Inl (not_found ''Action result not found in cache''),
                   c\<lparr>cs_store := a1, cs_log := log_get caller False (cs_log c)\<rparr>)
              | Some r \<Rightarrow>
                  (case missing_blobs hex_encode ops memo decode now (car_proto r) (cs_cas c) (cs_memo c) of
                     (Inr 0, s1, m1) \<Rightarrow>
                       (Inr (car_proto r),
                        c\<lparr>cs_cas := s1, cs_memo := m1, cs_store := a1, cs_log := log_get caller True (cs_log c)\<rparr>)
                   | (Inr (Suc n), s1, m1) \<Rightarrow>
                       (Inl (not_found ''Action result outputs were evicted from the CAS''),
                        c\<lparr>cs_cas := s1, cs_memo := m1, cs_store := as_remove store d a1, cs_log := log_get caller False (cs_log c)\<rparr>)
                   | (Inl e, s1, m1) \<Rightarrow>
                       (Inl (not_found ''Action result could not be verified against the CAS''),
                        c\<lparr>cs_cas := s1, cs_memo := m1, cs_store := a1, cs_log := log_get caller False (cs_log c)\<rparr>)))))"

definition update_action_result ::
  "'a ac_store \<Rightarrow> proto_digest option \<Rightarrow> action_result option \<Rightarrow> ('s, 'a, 'm) cache_state \<Rightarrow>
   (status + action_result) \<times> ('s, 'a, 'm) cache_state" where
  "update_action_result store msg result c =
     (case result of
        None \<Rightarrow> (Inl (invalid_argument ''Missing action_result''), c)
      | Some r \<Rightarrow>
          (case ac_action_digest_of msg of
             Inl e \<Rightarrow> (Inl e, c)
           | Inr d \<Rightarrow> (Inr r, c\<lparr>cs_store := as_put store d \<lparr>car_digest = d, car_proto = r\<rparr> (cs_store c)\<rparr>)))"

section \<open>A hit is complete\<close>

text \<open>What the code relies on of the memo: an entry it has was inserted, less than its lifetime ago.\<close>

definition memo_ok :: "'m memo \<Rightarrow> ('m \<Rightarrow> (string \<times> millis) set) \<Rightarrow> bool" where
  "memo_ok memo entries \<longleftrightarrow>
     (\<forall>k now m q m'. memo_get memo k now m = (q, m') \<longrightarrow> entries m' \<subseteq> entries m \<and>
        (q \<longrightarrow> (\<exists>t. (k, t) \<in> entries m \<and> now < t + VERIFIED_TREE_TTL))) \<and>
     (\<forall>k now m. entries (memo_insert memo k now m) \<subseteq> insert (k, now) (entries m))"

text \<open>Sizes are \<open>int64\<close> values in every message.\<close>

definition i64_result :: "action_result \<Rightarrow> bool" where
  "i64_result r \<longleftrightarrow> (\<forall>m \<in> set (List.map_filter rf_digest (ar_output_files r) @ List.map_filter rd_tree_digest (ar_output_directories r) @
     option_list (ar_stdout_digest r) @ option_list (ar_stderr_digest r)). i64_size m)"

definition i64_tree_decoder :: "(bytes \<Rightarrow> string + tree) \<Rightarrow> bool" where
  "i64_tree_decoder decode \<longleftrightarrow>
     (\<forall>b files. tree_file_digests decode b = Inr files \<longrightarrow> (\<forall>d \<in> set files. digest_wf d))"

definition tree_complete :: "('s \<Rightarrow> digest_info \<Rightarrow> bytes option) \<Rightarrow> (bytes \<Rightarrow> string + tree) \<Rightarrow> 's \<Rightarrow> digest_info \<Rightarrow> bool" where
  "tree_complete holds decode s d \<longleftrightarrow>
     (\<exists>b files. holds s d = Some b \<and> tree_file_digests decode b = Inr files \<and> (\<forall>f \<in> set files. present holds s f))"

lemma needed_wf: "\<forall>m \<in> set ms. i64_size m \<Longrightarrow> d \<in> set (needed ms) \<Longrightarrow> digest_wf d"
  by (auto simp: needed_def parsed_def List.map_filter_def split: sum.splits intro: to_digest_info_wf(2))

lemma referenced_wf: "i64_result r \<Longrightarrow> \<forall>d \<in> set (referenced_blobs r). digest_wf d"
  using needed_wf unfolding i64_result_def referenced_blobs_def by blast

lemma trees_wf: "i64_result r \<Longrightarrow> \<forall>d \<in> set (tree_digests r). digest_wf d"
  using needed_wf unfolding i64_result_def tree_digests_def by (metis UnI1 UnI2 set_append)

text \<open>A memo whose new entries are complete trees.\<close>

definition memo_sound where
  "memo_sound hex_encode holds decode s entries now old m \<longleftrightarrow>
     (\<forall>(k, t) \<in> entries m. (k, t) \<in> old \<or> t = now \<and> (\<exists>d. k = hash_to_string hex_encode d \<and> tree_complete holds decode s d))"

definition tree_served where
  "tree_served hex_encode holds decode s now old d \<longleftrightarrow>
     (\<exists>t. (hash_to_string hex_encode d, t) \<in> old \<and> now < t + VERIFIED_TREE_TTL) \<or>
     (\<exists>d'. hash_to_string hex_encode d' = hash_to_string hex_encode d \<and> tree_complete holds decode s d')"

context cas_backend
begin

lemma tree_complete_cong: "holds s' = holds s \<Longrightarrow> tree_complete holds decode s' = tree_complete holds decode s"
  using present_cong [of s' s] by (simp add: tree_complete_def fun_eq_iff)

lemma verify_tree_spec:
  assumes memo: "memo_ok memo entries" and dec: "i64_tree_decoder decode"
    and run: "verify_tree hex_encode ops memo decode now d s m = (r, s', m')" and ok: "ok s" and wf: "digest_wf d"
    and sound: "memo_sound hex_encode holds decode s entries now old m"
  shows "ok s' \<and> holds s' = holds s \<and> memo_sound hex_encode holds decode s entries now old m' \<and>
     (r = Inr 0 \<longrightarrow> tree_served hex_encode holds decode s now old d)"
proof -
  let ?k = "hash_to_string hex_encode d"
  obtain q m1 where q: "memo_get memo ?k now m = (q, m1)" by fastforce
  have sub: "entries m1 \<subseteq> entries m" and hit: "q \<Longrightarrow> \<exists>t. (?k, t) \<in> entries m \<and> now < t + VERIFIED_TREE_TTL"
    using memo q unfolding memo_ok_def by blast+
  have m1: "memo_sound hex_encode holds decode s entries now old m1" using sound sub unfolding memo_sound_def by blast
  have add: "memo_sound hex_encode holds decode s entries now old (memo_insert memo ?k now m1)" if "tree_complete holds decode s d"
  proof -
    have "entries (memo_insert memo ?k now m1) \<subseteq> insert (?k, now) (entries m1)" using memo unfolding memo_ok_def by blast
    then show ?thesis using m1 that unfolding memo_sound_def by blast
  qed
  obtain v s1 where v: "cb_read ops d s = (v, s1)" by fastforce
  have s1: "ok s1" "holds s1 = holds s" "\<And>x. v = Inr x \<Longrightarrow> x = holds s d" using read_law [OF ok wf v] by auto
  consider (memo) q | (unread) e where "\<not> q" "v = Inl e" | (lost) "\<not> q" "v = Inr None"
    | (undecoded) b e where "\<not> q" "v = Inr (Some b)" "tree_file_digests decode b = Inl e"
    | (read) b files where "\<not> q" "v = Inr (Some b)" "tree_file_digests decode b = Inr files"
    by (cases q; cases v; cases "projr v"; cases "tree_file_digests decode (the (projr v))") auto
  then show ?thesis
  proof cases
    case memo
    then obtain t where t: "(?k, t) \<in> entries m" "now < t + VERIFIED_TREE_TTL" using hit by blast
    then have "tree_served hex_encode holds decode s now old d" using bspec [OF sound [unfolded memo_sound_def] t(1)] unfolding tree_served_def by auto
    then show ?thesis using run q memo ok m1 by (simp add: verify_tree_def Let_def)
  next
    case (read b files)
    obtain l s2 where l: "cb_find_missing ops files s1 = (l, s2)" by fastforce
    have fwf: "\<forall>d \<in> set files. digest_wf d" using dec read(3) unfolding i64_tree_decoder_def by blast
    have s2: "ok s2" "holds s2 = holds s" "\<And>ms. l = Inr ms \<Longrightarrow> ms = filter (\<lambda>d. \<not> present holds s d) files"
      using missing_law [OF s1(1) fwf l] s1(2) present_cong [OF s1(2)] by auto
    have "tree_complete holds decode s d" if "l = Inr []"
      using s1(3) [OF read(2), symmetric] read(3) s2(3) [OF that, symmetric] by (auto simp: tree_complete_def filter_empty_conv)
    then show ?thesis
      using run q read v l s2(1,2) m1 add by (cases l) (auto simp: verify_tree_def Let_def tree_served_def)
  qed (use run q v s1 m1 in \<open>auto simp: verify_tree_def Let_def\<close>)
qed

lemma missing_in_trees_spec:
  assumes "memo_ok memo entries" "i64_tree_decoder decode"
  shows "missing_in_trees hex_encode ops memo decode now ds missing s m = (r, s', m') \<Longrightarrow> ok s \<Longrightarrow> \<forall>d \<in> set ds. digest_wf d \<Longrightarrow>
     memo_sound hex_encode holds decode s entries now old m \<Longrightarrow>
     ok s' \<and> holds s' = holds s \<and> memo_sound hex_encode holds decode s entries now old m' \<and>
     (\<forall>n. r = Inr n \<longrightarrow> missing \<le> n \<and> (n = missing \<longrightarrow> (\<forall>d \<in> set ds. tree_served hex_encode holds decode s now old d)))"
proof (induction ds arbitrary: missing s m r s' m')
  case (Cons d ds)
  obtain q s1 m1 where v: "verify_tree hex_encode ops memo decode now d s m = (q, s1, m1)" by (metis prod_cases3)
  have wf: "digest_wf d" "\<forall>d \<in> set ds. digest_wf d" using Cons.prems(3) by simp_all
  from verify_tree_spec [OF assms v Cons.prems(2) wf(1) Cons.prems(4)]
  have s1: "ok s1" "holds s1 = holds s" "memo_sound hex_encode holds decode s entries now old m1"
    "q = Inr 0 \<Longrightarrow> tree_served hex_encode holds decode s now old d" by auto
  have eq: "memo_sound hex_encode holds decode s1 = memo_sound hex_encode holds decode s"
    "tree_served hex_encode holds decode s1 = tree_served hex_encode holds decode s"
    using tree_complete_cong [OF s1(2)] by (simp_all add: memo_sound_def tree_served_def fun_eq_iff)
  show ?case
  proof (cases q)
    case (Inr k)
    then have "missing_in_trees hex_encode ops memo decode now ds (missing + k) s1 m1 = (r, s', m')" using Cons.prems(1) v by simp
    from Cons.IH [OF this s1(1) wf(2)] s1 Inr show ?thesis by (fastforce simp: eq)
  qed (use Cons.prems(1) v s1 in auto)
qed simp

lemma missing_blobs_spec:
  assumes memo: "memo_ok memo entries" "i64_tree_decoder decode" and r: "i64_result r" and ok: "ok s"
    and run: "missing_blobs hex_encode ops memo decode now r s m = (q, s', m')"
  shows "ok s' \<and> holds s' = holds s \<and> memo_sound hex_encode holds decode s entries now (entries m) m' \<and>
     (q = Inr 0 \<longrightarrow> (\<forall>d \<in> set (referenced_blobs r). present holds s d) \<and>
        (\<forall>d \<in> set (tree_digests r). tree_served hex_encode holds decode s now (entries m) d))"
proof -
  have old: "memo_sound hex_encode holds decode s entries now (entries m) m" by (auto simp: memo_sound_def)
  obtain l s1 where l: "cb_find_missing ops (referenced_blobs r) s = (l, s1)" by fastforce
  have s1: "ok s1" "holds s1 = holds s" "\<And>ms. l = Inr ms \<Longrightarrow> ms = filter (\<lambda>d. \<not> present holds s d) (referenced_blobs r)"
    using missing_law [OF ok referenced_wf [OF r] l] by auto
  have eq: "memo_sound hex_encode holds decode s1 = memo_sound hex_encode holds decode s"
    "tree_served hex_encode holds decode s1 = tree_served hex_encode holds decode s"
    using tree_complete_cong [OF s1(2)] by (simp_all add: memo_sound_def tree_served_def fun_eq_iff)
  show ?thesis
  proof (cases l)
    case (Inr ms)
    then have "missing_in_trees hex_encode ops memo decode now (tree_digests r) (length ms) s1 m = (q, s', m')"
      using run l by (simp add: missing_blobs_def)
    from missing_in_trees_spec [OF memo this s1(1) trees_wf [OF r], of "entries m"] old s1 Inr show ?thesis
      by (fastforce simp: eq filter_empty_conv)
  qed (use run l s1 old in \<open>auto simp: missing_blobs_def\<close>)
qed

end

section \<open>What a lookup decides\<close>

text \<open>Operations that do not fail, and trees that decode.\<close>

definition steady :: "'s cas_ops \<Rightarrow> bool" where
  "steady ops \<longleftrightarrow> (\<forall>d s e. fst (cb_read ops d s) \<noteq> Inl e) \<and> (\<forall>ds s e. fst (cb_find_missing ops ds s) \<noteq> Inl e)"

definition tree_readable :: "('s \<Rightarrow> digest_info \<Rightarrow> bytes option) \<Rightarrow> (bytes \<Rightarrow> string + tree) \<Rightarrow> 's \<Rightarrow> digest_info \<Rightarrow> bool" where
  "tree_readable holds decode s d \<longleftrightarrow> (\<forall>b. holds s d = Some b \<longrightarrow> (\<exists>files. tree_file_digests decode b = Inr files))"

lemma complete_readable: "tree_complete holds decode s d \<Longrightarrow> tree_readable holds decode s d"
  by (auto simp: tree_complete_def tree_readable_def)

context cas_backend
begin

lemma steady_read:
  assumes "steady ops" "ok s" "digest_wf d"
  obtains s1 where "cb_read ops d s = (Inr (holds s d), s1)" "ok s1" "holds s1 = holds s"
proof -
  obtain v s1 where v: "cb_read ops d s = (v, s1)" by fastforce
  then obtain x where "v = Inr x" using assms(1) unfolding steady_def by (metis fst_conv sum.exhaust)
  then show ?thesis using that read_law [OF assms(2,3) v] v by blast
qed

lemma steady_missing:
  assumes "steady ops" "ok s" "\<forall>d \<in> set ds. digest_wf d"
  obtains s1 where "cb_find_missing ops ds s = (Inr (filter (\<lambda>d. \<not> present holds s d) ds), s1)" "ok s1" "holds s1 = holds s"
proof -
  obtain v s1 where v: "cb_find_missing ops ds s = (v, s1)" by fastforce
  then obtain x where "v = Inr x" using assms(1) unfolding steady_def by (metis fst_conv sum.exhaust)
  then show ?thesis using that missing_law [OF assms(2,3) v] v by blast
qed

lemma verify_tree_steady:
  assumes "steady ops" "i64_tree_decoder decode" "ok s" "digest_wf d" "tree_readable holds decode s d"
  shows "\<exists>n s' m'. verify_tree hex_encode ops memo decode now d s m = (Inr n, s', m') \<and> ok s' \<and> holds s' = holds s \<and>
     (tree_complete holds decode s d \<longrightarrow> n = 0)"
proof -
  obtain q m1 where q: "memo_get memo (hash_to_string hex_encode d) now m = (q, m1)" by fastforce
  obtain s1 where v: "cb_read ops d s = (Inr (holds s d), s1)" "ok s1" "holds s1 = holds s"
    by (rule steady_read [OF assms(1,3,4)])
  show ?thesis
  proof (cases "holds s d")
    case None
    then show ?thesis using q v assms(3) by (cases q) (auto simp: verify_tree_def Let_def tree_complete_def)
  next
    case (Some b)
    then obtain files where f: "tree_file_digests decode b = Inr files" using assms(5) by (auto simp: tree_readable_def)
    have "\<forall>d \<in> set files. digest_wf d" using assms(2) f unfolding i64_tree_decoder_def by blast
    then obtain s2 where l: "cb_find_missing ops files s1 = (Inr (filter (\<lambda>d. \<not> present holds s1 d) files), s2)" "ok s2" "holds s2 = holds s1"
      by (rule steady_missing [OF assms(1) v(2)])
    then show ?thesis
      using q v Some f assms(3) present_cong [OF v(3)] by (cases q) (auto simp: verify_tree_def Let_def tree_complete_def filter_empty_conv)
  qed
qed

lemma missing_in_trees_steady:
  assumes "steady ops" "i64_tree_decoder decode"
  shows "ok s \<Longrightarrow> \<forall>d \<in> set ds. digest_wf d \<and> tree_readable holds decode s d \<Longrightarrow>
     \<exists>n s' m'. missing_in_trees hex_encode ops memo decode now ds missing s m = (Inr n, s', m') \<and> missing \<le> n \<and>
       ((\<forall>d \<in> set ds. tree_complete holds decode s d) \<longrightarrow> n = missing)"
proof (induction ds arbitrary: missing s m)
  case (Cons d ds)
  from verify_tree_steady [OF assms Cons.prems(1), of d hex_encode memo now m] Cons.prems(2)
  obtain n s1 m1 where v: "verify_tree hex_encode ops memo decode now d s m = (Inr n, s1, m1)" "ok s1" "holds s1 = holds s"
    "tree_complete holds decode s d \<longrightarrow> n = 0" by auto
  have eq: "tree_readable holds decode s1 = tree_readable holds decode s" using v(3) by (simp add: tree_readable_def fun_eq_iff)
  show ?case
    using Cons.IH [OF v(2), of "missing + n" m1] Cons.prems(2) v(1,4) tree_complete_cong [OF v(3)] eq by fastforce
qed simp

lemma missing_blobs_steady:
  assumes "steady ops" "i64_tree_decoder decode" "ok s" "i64_result r" "\<forall>d \<in> set (tree_digests r). tree_readable holds decode s d"
  shows "\<exists>n s' m'. missing_blobs hex_encode ops memo decode now r s m = (Inr n, s', m') \<and>
    ((\<exists>d \<in> set (referenced_blobs r). \<not> present holds s d) \<longrightarrow> n > 0) \<and>
    ((\<forall>d \<in> set (referenced_blobs r). present holds s d) \<longrightarrow> (\<forall>d \<in> set (tree_digests r). tree_complete holds decode s d) \<longrightarrow> n = 0)"
proof -
  obtain s1 where l: "cb_find_missing ops (referenced_blobs r) s = (Inr (filter (\<lambda>d. \<not> present holds s d) (referenced_blobs r)), s1)"
    "ok s1" "holds s1 = holds s"
    by (rule steady_missing [OF assms(1,3) referenced_wf [OF assms(4)]])
  have "\<forall>d \<in> set (tree_digests r). digest_wf d \<and> tree_readable holds decode s1 d"
    using assms(5) trees_wf [OF assms(4)] l(3) by (simp add: tree_readable_def)
  from missing_in_trees_steady [OF assms(1,2) l(2) this, of hex_encode memo now "length (filter (\<lambda>d. \<not> present holds s d) (referenced_blobs r))" m]
  show ?thesis using l(1) tree_complete_cong [OF l(3)] by (auto simp: missing_blobs_def filter_empty_conv)
qed

end

lemma disk_steady: "steady (disk_ops no_fault hex_encode sha256 now uuid)"
proof -
  have "fst (disk_read no_fault hex_encode sha256 d k) \<noteq> Inl e" for d k e
    by (auto simp: disk_read_def Let_def split: option.split sum.split)
  moreover have "fst (find_missing (disk_contains no_fault hex_encode now) ds k) \<noteq> Inl e" for ds k e
    using find_missing_no_fault [of hex_encode now ds k] by auto
  ultimately show ?thesis by (simp add: steady_def)
qed

lemma disk_tree_served:
  assumes "digest_wf d" "tree_served lower_hex disk_holds decode k now old d"
  shows "(\<exists>t. (lower_hex (hash d), t) \<in> old \<and> now < t + VERIFIED_TREE_TTL) \<or> tree_complete disk_holds decode k d"
proof -
  have "tree_complete disk_holds decode k d" if "hash_to_string lower_hex d' = hash_to_string lower_hex d" "tree_complete disk_holds decode k d'" for d'
  proof -
    have "blob_path lower_hex d' = blob_path lower_hex d" using that(1) by (simp add: blob_path_def entry_path_def Let_def)
    then show ?thesis using that(2) by (simp add: tree_complete_def disk_holds_def)
  qed
  then show ?thesis using assms(2) by (auto simp: tree_served_def hash_to_string_def)
qed


text \<open>
  C23: what a lookup decides when the disk does not fail. A stored result that is complete is returned; one
  that refers to a blob that is gone is not found and is removed from the cache.
\<close>

theorem cache_lookup_decides:
  assumes "i64_tree_decoder decode" "disk_ok sha256 (cs_cas c)" "ac_action_digest_of msg = Inr d"
    and "as_get_with_tier store d (cs_store c) = (g, a)" "gr_result g = Some q" "i64_result (car_proto q)"
    and "\<forall>t \<in> set (tree_digests (car_proto q)). tree_readable disk_holds decode (cs_cas c) t"
    and "get_action_result lower_hex (disk_ops no_fault lower_hex sha256 now uuid) memo decode store now caller msg c = (r, c')"
  shows "((\<forall>b \<in> set (referenced_blobs (car_proto q)). present disk_holds (cs_cas c) b) \<and>
      (\<forall>t \<in> set (tree_digests (car_proto q)). tree_complete disk_holds decode (cs_cas c) t) \<longrightarrow> r = Inr (car_proto q) \<and> cs_store c' = a) \<and>
    ((\<exists>b \<in> set (referenced_blobs (car_proto q)). \<not> present disk_holds (cs_cas c) b) \<longrightarrow>
       (\<exists>text. r = Inl (not_found text)) \<and> cs_store c' = as_remove store d a)"
proof -
  let ?ops = "disk_ops no_fault lower_hex sha256 now uuid"
  obtain n s' m' where mb: "missing_blobs lower_hex ?ops memo decode now (car_proto q) (cs_cas c) (cs_memo c) = (Inr n, s', m')"
    and n: "(\<exists>d \<in> set (referenced_blobs (car_proto q)). \<not> present disk_holds (cs_cas c) d) \<longrightarrow> n > 0"
      "(\<forall>d \<in> set (referenced_blobs (car_proto q)). present disk_holds (cs_cas c) d) \<longrightarrow>
       (\<forall>d \<in> set (tree_digests (car_proto q)). tree_complete disk_holds decode (cs_cas c) d) \<longrightarrow> n = 0"
    using disk_backend.missing_blobs_steady [OF disk_steady assms(1,2,6,7), of lower_hex now uuid memo now "cs_memo c"] by blast
  show ?thesis
  proof (cases n)
    case 0
    then have "r = Inr (car_proto q)" "cs_store c' = a" using assms(8) mb by (auto simp: get_action_result_def assms(3-5))
    then show ?thesis using n(1) 0 by blast
  next
    case (Suc k)
    then have "r = Inl (not_found ''Action result outputs were evicted from the CAS'')" "cs_store c' = as_remove store d a"
      using assms(8) mb by (auto simp: get_action_result_def assms(3-5))
    then show ?thesis using n(2) Suc by blast
  qed
qed

text \<open>A stored result is in memory right after, in a cache without a size limit.\<close>

lemma put_then_get:
  fixes k :: "'p disk_ac"
  assumes "l1_inv (ac_l1 k)" "ac_max_size k = 0" "now' \<le> now + default_ttl (ac_l1 k)"
  shows "\<exists>k'. ac_get_with_tier io' hex_encode decode now' d (ac_put io hex_encode encode now uuid d r k) =
    (\<lparr>gr_result = Some r, gr_tier = L1\<rparr>, k')"
proof -
  have "ac_l1 (persist io hex_encode now uuid d data j) = ac_l1 j" if "ac_max_size j = 0" for j :: "'p disk_ac" and data
    using that by (simp add: persist_def Let_def ac_evict_if_needed_def split: option.split)
  then have "ac_l1 (ac_put io hex_encode encode now uuid d r k) = l1_put now d r (ac_l1 k)"
    using assms(2) by (simp add: ac_put_def Let_def split: option.split)
  moreover have "map_of (l1_map (l1_put now d r (ac_l1 k))) d = Some (cache_entry_new now r (default_ttl (ac_l1 k)))"
    using put_spec [OF assms(1)] by blast
  ultimately show ?thesis
    using assms(3) by (auto simp: ac_get_with_tier_def l1_get_def cache_entry_new_def is_expired_def)
qed

text \<open>A result with one output file, the blob of \<open>loop_disk\<close>, and a memo that keeps nothing.\<close>

definition one_file_result :: action_result where
  "one_file_result = \<lparr>ar_output_files = [\<lparr>rf_path = ''out'', rf_digest = Some (digest_msg loop_digest), rf_is_executable = False\<rparr>],
     ar_output_symlinks = [], ar_output_directories = [], ar_exit_code = 0, ar_stdout_raw = [], ar_stdout_digest = None,
     ar_stderr_raw = [], ar_stderr_digest = None, ar_execution_metadata = None\<rparr>"

definition no_memo :: "unit memo" where
  "no_memo = \<lparr>memo_get = (\<lambda>key now m. (False, m)), memo_insert = (\<lambda>key now m. m)\<rparr>"

lemma one_file_blobs: "referenced_blobs one_file_result = [loop_digest]" "tree_digests one_file_result = []" "i64_result one_file_result"
  using loop_msg by (simp_all add: referenced_blobs_def tree_digests_def needed_def parsed_def one_file_result_def i64_result_def
      option_list_def map_filter_simps digest_msg_def loop_digest_def)

lemma loop_present: "present disk_holds loop_disk loop_digest"
  by (simp add: present_def disk_holds_def loop_files blob_path_def has_size_def loop_digest_def)

lemma one_file_readable: "\<forall>t \<in> set (tree_digests one_file_result). tree_readable disk_holds decode k t"
  by (simp add: one_file_blobs)

definition empty_ac :: "action_result disk_ac" where
  "empty_ac = ac_with_max_size_bytes [] 0 10 1 10"

definition one_file_cache where
  "one_file_cache = \<lparr>cs_cas = loop_disk, cs_store = ac_put no_fault lower_hex (\<lambda>_. []) 5 ''u'' loop_digest
      \<lparr>car_digest = loop_digest, car_proto = one_file_result\<rparr> empty_ac, cs_memo = (), cs_log = None\<rparr>"

lemma one_file_lookup:
  "\<exists>a. as_get_with_tier (disk_ac_store no_fault lower_hex (\<lambda>_. []) (\<lambda>_. None) 6 ''u'') loop_digest (cs_store one_file_cache) =
     (\<lparr>gr_result = Some \<lparr>car_digest = loop_digest, car_proto = one_file_result\<rparr>, gr_tier = L1\<rparr>, a)"
  using put_then_get [of empty_ac 6 5 no_fault lower_hex "\<lambda>_. None" loop_digest no_fault "\<lambda>_. []" "''u''"
      "\<lparr>car_digest = loop_digest, car_proto = one_file_result\<rparr>"] l1_inv_new [of 1 10]
  by (simp add: disk_ac_store_def one_file_cache_def empty_ac_def ac_with_max_size_bytes_def l1_new_def)

lemma loop_action_digest: "ac_action_digest_of (Some (digest_msg loop_digest)) = Inr loop_digest"
  using loop_msg(1) by (simp add: ac_action_digest_of_def to_digest_info_Inr)

lemma one_file_served:
  "fst (get_action_result lower_hex (disk_ops no_fault lower_hex (\<lambda>_. hash loop_digest) 6 ''u'') no_memo (\<lambda>_. Inl ''bad'')
     (disk_ac_store no_fault lower_hex (\<lambda>_. []) (\<lambda>_. None) 6 ''u'') 6 None (Some (digest_msg loop_digest)) one_file_cache) =
   Inr one_file_result"
proof -
  have cas: "cs_cas one_file_cache = loop_disk" by (simp add: one_file_cache_def)
  have d: "i64_tree_decoder (\<lambda>_. Inl ''bad'')" by (simp add: i64_tree_decoder_def tree_file_digests_def)
  obtain s' m' where "missing_blobs lower_hex (disk_ops no_fault lower_hex (\<lambda>_. hash loop_digest) 6 ''u'') no_memo (\<lambda>_. Inl ''bad'') 6
      one_file_result loop_disk () = (Inr 0, s', m')"
    using disk_backend.missing_blobs_steady [OF disk_steady d loop_ok(1) one_file_blobs(3) one_file_readable, of lower_hex 6 "''u''" no_memo 6 "()"]
      loop_present by (auto simp: one_file_blobs)
  then show ?thesis using one_file_lookup by (auto simp: get_action_result_def loop_action_digest cas)
qed

theorem cache_lookup_decides_witness:
  "fst (get_action_result lower_hex (disk_ops no_fault lower_hex (\<lambda>_. hash loop_digest) 6 ''u'') no_memo (\<lambda>_. Inl ''bad'')
     (disk_ac_store no_fault lower_hex (\<lambda>_. []) (\<lambda>_. None) 6 ''u'') 6 None (Some (digest_msg loop_digest)) one_file_cache) =
   Inr one_file_result"
proof -
  let ?g = "get_action_result lower_hex (disk_ops no_fault lower_hex (\<lambda>_. hash loop_digest) 6 ''u'') no_memo (\<lambda>_. Inl ''bad'')
     (disk_ac_store no_fault lower_hex (\<lambda>_. []) (\<lambda>_. None) 6 ''u'') 6 None (Some (digest_msg loop_digest)) one_file_cache"
  obtain a where a: "as_get_with_tier (disk_ac_store no_fault lower_hex (\<lambda>_. []) (\<lambda>_. None) 6 ''u'') loop_digest (cs_store one_file_cache) =
     (\<lparr>gr_result = Some \<lparr>car_digest = loop_digest, car_proto = one_file_result\<rparr>, gr_tier = L1\<rparr>, a)"
    using one_file_lookup by blast
  obtain r c' where g: "?g = (r, c')" by fastforce
  have cas: "cs_cas one_file_cache = loop_disk" by (simp add: one_file_cache_def)
  show ?thesis
    using cache_lookup_decides [OF _ _ loop_action_digest a _ _ _ g] loop_ok(1) loop_present one_file_blobs g
    by (simp add: cas i64_tree_decoder_def tree_file_digests_def)
qed


end
