(* ===== verification/Critical_Actions.thy ===== *)
theory Critical_Actions
  imports Rust_Text Fair_Queue
begin

text \<open>
  \<open>server/critical_actions.rs\<close>: the actions the server puts on the critical path by their mnemonic and
  target. The set of configured actions is a list without an order that matters.
\<close>

record critical_actions =
  ca_actions :: "(string \<times> string) list"
  ca_pool :: "string option"

definition normalize_target :: "string \<Rightarrow> string" where
  "normalize_target target =
     (case (case strip_prefix ''@@'' target of Some r \<Rightarrow> Some r | None \<Rightarrow> strip_prefix ''@'' target) of
        Some rest \<Rightarrow> if starts_with ''//'' rest then rest else target
      | None \<Rightarrow> target)"

definition ENV_ACTIONS :: string where
  "ENV_ACTIONS = ''RBE_CRITICAL_ACTIONS''"

definition ENV_POOL :: string where
  "ENV_POOL = ''RBE_CRITICAL_POOL''"

definition parse_critical_entry :: "string \<Rightarrow> string + string \<times> string" where
  "parse_critical_entry entry =
     (case split_once (CHR '':'') entry of
        None \<Rightarrow> Inl (ENV_ACTIONS @ '': '' @ debug_string entry @ '' is not <mnemonic>:<target>'')
      | Some (mnemonic, target) \<Rightarrow>
          if mnemonic \<noteq> [] \<and> (starts_with ''//'' target \<or> starts_with ''@'' target)
          then Inr (mnemonic, normalize_target target)
          else Inl (ENV_ACTIONS @ '': '' @ debug_string entry @ '' is not <mnemonic>:<target>''))"

definition parse_critical :: "string \<Rightarrow> string option \<Rightarrow> string + critical_actions" where
  "parse_critical actions pool =
     (case collect_results (map parse_critical_entry (filter (\<lambda>e. e \<noteq> []) (map trim (split_on (CHR '','') actions)))) of
        Inl e \<Rightarrow> Inl e
      | Inr entries \<Rightarrow>
          (case map_option trim pool of
             Some [] \<Rightarrow> Inl (ENV_POOL @ '' is empty'')
           | p \<Rightarrow> Inr \<lparr>ca_actions = entries, ca_pool = p\<rparr>))"

definition critical_from_env :: "string option \<Rightarrow> string option \<Rightarrow> string + critical_actions" where
  "critical_from_env actions pool = parse_critical (case actions of None \<Rightarrow> [] | Some a \<Rightarrow> a) pool"

definition critical_is_empty :: "critical_actions \<Rightarrow> bool" where
  "critical_is_empty ca = (ca_actions ca = [])"

definition properties_for ::
  "critical_actions \<Rightarrow> request_metadata option \<Rightarrow> (string \<times> string) list \<Rightarrow> (string \<times> string) list" where
  "properties_for ca metadata properties =
     (case metadata of
        None \<Rightarrow> []
      | Some m \<Rightarrow>
          if (action_mnemonic m, normalize_target (target_id m)) \<notin> set (ca_actions ca) then []
          else (let has = (\<lambda>name. \<exists>p \<in> set properties. fst p = name) in
                (if has ''Priority'' then [] else [(''Priority'', ''critical'')]) @
                (case ca_pool ca of
                   Some pool \<Rightarrow> if has ''Pool'' then [] else [(''Pool'', pool)]
                 | None \<Rightarrow> [])))"

section \<open>What the server adds\<close>

text \<open>What an action sets itself is kept: nothing is added under a name it has.\<close>

lemma properties_added:
  "p \<in> set (properties_for ca metadata properties) \<Longrightarrow>
   fst p \<notin> fst ` set properties \<and> (p = (''Priority'', ''critical'') \<or> (\<exists>pool. ca_pool ca = Some pool \<and> p = (''Pool'', pool)))"
  by (auto simp: properties_for_def Let_def image_iff split: option.splits if_splits)

text \<open>
  The three ways Bazel writes a label of the main repository name one target, so an action is critical
  under each of them or under none.
\<close>

lemma normalize_target_forms:
  "normalize_target (''@//'' @ t) = ''//'' @ t" "normalize_target (''@@//'' @ t) = ''//'' @ t" "normalize_target (''//'' @ t) = ''//'' @ t"
  by (simp_all add: normalize_target_def strip_prefix_def starts_with_def)

lemma normalize_target_idem: "normalize_target (normalize_target t) = normalize_target t"
proof (cases "\<exists>r. normalize_target t = ''//'' @ r")
  case True
  then show ?thesis using normalize_target_forms(3) by metis
next
  case False
  then have "normalize_target t = t"
    by (auto simp: normalize_target_def starts_with_def split: option.splits if_splits) (metis append_take_drop_id append_Cons append_Nil)+
  then show ?thesis by simp
qed


end
