(* ===== verification/Execution_Service.thy ===== *)
theory Execution_Service
  imports Engine_Run Action_Cache_Service Critical_Actions
begin

text \<open>
  \<open>server/execution_service.rs\<close>: \<open>Execute\<close> and \<open>WaitExecution\<close> over the engine, the action cache and the
  CAS, and the recorder that turns a worker's result into the response and caches it. \<open>wall\<close> is the
  wall clock and \<open>now\<close> the monotonic one. A response in an operation is kept as the message and not as
  its encoding. The metrics are left out. The client's stream is the list of the items sent to it.
\<close>

section \<open>Responses\<close>

record google_status =
  rpc_code :: int
  rpc_message :: string

record execute_response =
  xr_result :: "action_result option"
  xr_cached_result :: bool
  xr_status :: "google_status option"
  xr_message :: string

record operation =
  opn_name :: string
  opn_done :: bool
  opn_result :: "(string \<times> execute_response) option"

definition EXECUTE_RESPONSE_TYPE_URL :: string where
  "EXECUTE_RESPONSE_TYPE_URL = ''type.googleapis.com/build.bazel.remote.execution.v2.ExecuteResponse''"

definition RPC_DEADLINE_EXCEEDED :: int where
  "RPC_DEADLINE_EXCEEDED = 4"

definition RPC_INTERNAL :: int where
  "RPC_INTERNAL = 13"

definition ok_status :: "google_status option" where
  "ok_status = Some \<lparr>rpc_code = 0, rpc_message = []\<rparr>"

definition result_status :: "execution_result \<Rightarrow> google_status option" where
  "result_status r =
     (case er_error r of
        Some e \<Rightarrow> Some \<lparr>rpc_code = RPC_INTERNAL, rpc_message = e\<rparr>
      | None \<Rightarrow>
          if er_timed_out r then Some \<lparr>rpc_code = RPC_DEADLINE_EXCEEDED, rpc_message = ''action timed out and was killed''\<rparr>
          else ok_status)"

definition pack_response :: "execute_response \<Rightarrow> string \<times> execute_response" where
  "pack_response r = (EXECUTE_RESPONSE_TYPE_URL, r)"

definition mk_operation :: "string \<Rightarrow> (string \<times> execute_response) option \<Rightarrow> operation" where
  "mk_operation name result = \<lparr>opn_name = name, opn_done = (result \<noteq> None), opn_result = result\<rparr>"

definition proto_output_files :: "output_file list \<Rightarrow> result_file list" where
  "proto_output_files fs =
     map (\<lambda>f. \<lparr>rf_path = of_path f, rf_digest = Some \<lparr>pd_hash = of_digest f, pd_size = of_size_bytes f\<rparr>,
               rf_is_executable = of_is_executable f\<rparr>) fs"

definition proto_output_directories :: "output_directory list \<Rightarrow> result_directory list" where
  "proto_output_directories ds =
     map (\<lambda>d. \<lparr>rd_path = od_path d, rd_tree_digest = Some \<lparr>pd_hash = od_digest d, pd_size = od_size_bytes d\<rparr>\<rparr>) ds"

definition proto_output_symlinks :: "output_symlink list \<Rightarrow> result_symlink list" where
  "proto_output_symlinks ss = map (\<lambda>s. \<lparr>rs_path = os_path s, rs_target = os_target s\<rparr>) ss"

definition timestamp_of :: "int \<Rightarrow> timestamp" where
  "timestamp_of ms = (ms div 1000, (ms mod 1000) * 1000000)"

definition timestamp_ms :: "int \<Rightarrow> timestamp option" where
  "timestamp_ms ms = (if ms > 0 then Some (timestamp_of ms) else None)"

definition execution_metadata :: "execution_result \<Rightarrow> millis option \<Rightarrow> executed_metadata" where
  "execution_metadata r created =
     (let t = er_timestamps r in
      \<lparr>em_worker = er_worker_id r, em_queued = map_option (\<lambda>q. timestamp_of (int q)) created,
       em_worker_start = timestamp_ms (worker_start_ms t), em_worker_completed = timestamp_ms (worker_completed_ms t),
       em_input_fetch_start = timestamp_ms (input_fetch_start_ms t),
       em_input_fetch_completed = timestamp_ms (input_fetch_completed_ms t),
       em_execution_start = timestamp_ms (execution_start_ms t), em_execution_completed = timestamp_ms (execution_completed_ms t),
       em_output_upload_start = timestamp_ms (output_upload_start_ms t),
       em_output_upload_completed = timestamp_ms (output_upload_completed_ms t)\<rparr>)"

definition phase_durations :: "execution_result \<Rightarrow> millis option \<Rightarrow> (string \<times> nat) list" where
  "phase_durations r created =
     (let t = er_timestamps r; queued_ms = (case created of None \<Rightarrow> 0 | Some q \<Rightarrow> int q) in
      map (\<lambda>(phase, from, to). (phase, nat (to - from)))
        (filter (\<lambda>(_, from, to). from > 0 \<and> to \<ge> from)
           [(''queued'', queued_ms, worker_start_ms t), (''input_fetch'', input_fetch_start_ms t, input_fetch_completed_ms t),
            (''execution'', execution_start_ms t, execution_completed_ms t),
            (''output_upload'', output_upload_start_ms t, output_upload_completed_ms t)]))"

definition queued_at :: "millis \<Rightarrow> millis \<Rightarrow> machine \<Rightarrow> millis option" where
  "queued_at wall now m = (if machine_elapsed now m < wall then Some (wall - machine_elapsed now m) else None)"

definition worker_action_result ::
  "execution_result \<Rightarrow> millis option \<Rightarrow> bytes \<Rightarrow> proto_digest option \<Rightarrow> bytes \<Rightarrow> proto_digest option \<Rightarrow> action_result" where
  "worker_action_result r created stdout_raw stdout_digest stderr_raw stderr_digest =
     \<lparr>ar_output_files = proto_output_files (er_output_files r), ar_output_symlinks = proto_output_symlinks (er_output_symlinks r),
      ar_output_directories = proto_output_directories (er_output_directories r), ar_exit_code = er_exit_code r,
      ar_stdout_raw = stdout_raw, ar_stdout_digest = stdout_digest, ar_stderr_raw = stderr_raw,
      ar_stderr_digest = stderr_digest, ar_execution_metadata = Some (execution_metadata r created)\<rparr>"

definition completed_response :: "action_result \<Rightarrow> execution_result \<Rightarrow> execute_response" where
  "completed_response ar r =
     \<lparr>xr_result = Some ar, xr_cached_result = False, xr_status = result_status r,
      xr_message = (case result_status r of None \<Rightarrow> [] | Some s \<Rightarrow> rpc_message s)\<rparr>"

definition missing_result_response :: execute_response where
  "missing_result_response =
     \<lparr>xr_result = None, xr_cached_result = False,
      xr_status = Some \<lparr>rpc_code = 2, rpc_message = ''Execution result not found''\<rparr>, xr_message = ''Execution result not found''\<rparr>"

definition inline_bytes :: "output_result \<Rightarrow> bytes" where
  "inline_bytes q = (if is_inline q then (case or_raw q of None \<Rightarrow> [] | Some b \<Rightarrow> b) else [])"

definition output_digest :: "(bytes \<Rightarrow> string) \<Rightarrow> output_result \<Rightarrow> proto_digest option" where
  "output_digest hex_encode q = map_option (\<lambda>d. \<lparr>pd_hash = hash_to_string hex_encode d, pd_size = dsize d\<rparr>) (or_digest q)"

section \<open>The log\<close>

definition record_cache_hit :: "request_metadata \<Rightarrow> ac_log \<Rightarrow> ac_log" where
  "record_cache_hit caller l =
     (if tool_invocation_id caller = [] \<or> target_id caller = [] then l
      else log_record (tool_invocation_id caller) (target_id caller) (action_mnemonic caller) True l)"

definition record_inputs :: "request_metadata \<Rightarrow> input_stats \<Rightarrow> ac_log \<Rightarrow> ac_log" where
  "record_inputs caller stats l =
     (if tool_invocation_id caller = [] \<or> target_id caller = [] then l
      else log_record_inputs (tool_invocation_id caller) (target_id caller)
             \<lparr>ai_mnemonic = action_mnemonic caller, ai_files = is_files stats, ai_bytes = is_bytes stats, ai_groups = is_groups stats\<rparr> l)"

definition exec_path :: "string \<Rightarrow> string \<Rightarrow> string" where
  "exec_path working_directory p =
     (if working_directory = [] then p else trim_end_char (CHR ''/'') working_directory @ ''/'' @ p)"

definition record_placement :: "request_metadata \<Rightarrow> string \<Rightarrow> execution_result \<Rightarrow> ac_log \<Rightarrow> ac_log" where
  "record_placement caller working_directory r l =
     (if tool_invocation_id caller = [] \<or> er_worker_id r = [] then l
      else log_record_placement (tool_invocation_id caller) (er_worker_id r)
             (map (exec_path working_directory)
                (map of_path (er_output_files r) @ map od_path (er_output_directories r) @ map os_path (er_output_symlinks r))) l)"

section \<open>The recorder\<close>

definition cache_success ::
  "'a ac_store \<Rightarrow> digest_info \<Rightarrow> execution_result \<Rightarrow> execute_response \<Rightarrow> 'a \<Rightarrow> 'a" where
  "cache_success store d r response a =
     (if er_exit_code r \<noteq> 0 \<or> er_error r \<noteq> None \<or> er_timed_out r then a
      else (case xr_result response of Some ar \<Rightarrow> as_put store d \<lparr>car_digest = d, car_proto = ar\<rparr> a | None \<Rightarrow> a))"

definition recorder_output ::
  "(bytes \<Rightarrow> bytes) \<Rightarrow> 's cas_ops \<Rightarrow> nat \<Rightarrow> nat \<Rightarrow> bytes \<Rightarrow> digest_info option \<Rightarrow> 's \<Rightarrow> output_result \<times> 's" where
  "recorder_output sha256 ops max_capture inline_threshold bytes stored s =
     (case stored of
        Some d \<Rightarrow> (or_stored d, s)
      | None \<Rightarrow>
          (case process_output sha256 ops max_capture inline_threshold bytes s of
             (Inr q, s1) \<Rightarrow> (q, s1)
           | (Inl e, s1) \<Rightarrow> (or_inline bytes, s1)))"

definition recorder_response ::
  "(bytes \<Rightarrow> string) \<Rightarrow> (bytes \<Rightarrow> bytes) \<Rightarrow> 's cas_ops \<Rightarrow> nat \<Rightarrow> nat \<Rightarrow> execution_result \<Rightarrow> millis option \<Rightarrow> 's \<Rightarrow>
   execute_response \<times> 's" where
  "recorder_response hex_encode sha256 ops max_capture inline_threshold r created s =
     (case recorder_output sha256 ops max_capture inline_threshold (er_stdout r) (er_stdout_digest r) s of (so, s1) \<Rightarrow>
      case recorder_output sha256 ops max_capture inline_threshold (er_stderr r) (er_stderr_digest r) s1 of (se, s2) \<Rightarrow>
        (completed_response
           (worker_action_result r created (inline_bytes so) (output_digest hex_encode so) (inline_bytes se) (output_digest hex_encode se)) r,
         s2))"

definition recorder_record ::
  "(bytes \<Rightarrow> string) \<Rightarrow> (bytes \<Rightarrow> bytes) \<Rightarrow> 's cas_ops \<Rightarrow> 'a ac_store \<Rightarrow> nat \<Rightarrow> nat \<Rightarrow> millis \<Rightarrow> millis \<Rightarrow>
   executable_action option \<Rightarrow> machine \<Rightarrow> execution_result \<Rightarrow> ('s, 'a, 'm) cache_state \<Rightarrow> execute_response \<times> ('s, 'a, 'm) cache_state" where
  "recorder_record hex_encode sha256 ops store max_capture inline_threshold wall now act m r c =
     (case recorder_response hex_encode sha256 ops max_capture inline_threshold r (queued_at wall now m) (cs_cas c) of (response, s) \<Rightarrow>
        let a = (case act of
                   Some x \<Rightarrow> if ea_do_not_cache x then cs_store c else cache_success store (ea_action_digest x) r response (cs_store c)
                 | None \<Rightarrow> cs_store c);
            l = (case (cs_log c, Option.bind act ea_metadata, er_input_stats r) of
                   (Some l, Some caller, Some stats) \<Rightarrow> Some (record_inputs caller stats l)
                 | _ \<Rightarrow> cs_log c)
        in (response, c\<lparr>cs_cas := s, cs_store := a, cs_log := l\<rparr>))"

section \<open>The action of a request\<close>

record action_msg =
  am_command_digest :: "proto_digest option"
  am_input_root_digest :: "proto_digest option"
  am_timeout :: "int option"
  am_do_not_cache :: bool
  am_platform :: "(string \<times> string) list option"

record command_msg =
  cm_arguments :: "string list"
  cm_environment_variables :: "(string \<times> string) list"
  cm_output_files :: "string list"
  cm_output_directories :: "string list"
  cm_output_paths :: "string list"
  cm_platform :: "(string \<times> string) list option"
  cm_working_directory :: string

record execute_request =
  xq_action_digest :: "proto_digest option"
  xq_skip_cache_lookup :: bool
  xq_priority :: "int option"

record service_config =
  sc_critical_actions :: critical_actions
  sc_default_action_timeout :: millis
  sc_extra_platform_properties :: "string list"

definition DEFAULT_ACTION_TIMEOUT :: millis where
  "DEFAULT_ACTION_TIMEOUT = 1800 * 1000"

definition MIN_PRIORITY :: int where
  "MIN_PRIORITY = 0"

definition MAX_PRIORITY :: int where
  "MAX_PRIORITY = 1000"

definition parse_property_names :: "string \<Rightarrow> string list" where
  "parse_property_names names = filter (\<lambda>n. n \<noteq> []) (map trim (split_on (CHR '','') names))"

definition service_config_new :: "string option \<Rightarrow> string option \<Rightarrow> service_config" where
  "service_config_new timeout_secs names =
     \<lparr>sc_critical_actions = \<lparr>ca_actions = [], ca_pool = None\<rparr>,
      sc_default_action_timeout = timeout_from_env DEFAULT_ACTION_TIMEOUT timeout_secs,
      sc_extra_platform_properties = (case names of None \<Rightarrow> [] | Some s \<Rightarrow> parse_property_names s)\<rparr>"

definition platform_properties :: "(string \<times> string) list option \<Rightarrow> (string \<times> string) list" where
  "platform_properties p = (case p of None \<Rightarrow> [] | Some ps \<Rightarrow> ps)"

definition x_action_digest_of :: "proto_digest option \<Rightarrow> status + digest_info" where
  "x_action_digest_of m =
     (case m of
        None \<Rightarrow> Inl (invalid_argument ''Missing action_digest'')
      | Some m \<Rightarrow>
          (case digest_new (pd_hash m) (pd_size m) of
             Inl e \<Rightarrow> Inl (invalid_argument (''Invalid action_digest: '' @ rbe_error_text e))
           | Inr d \<Rightarrow> Inr d))"

definition fetch_action ::
  "(bytes \<Rightarrow> string + action_msg) \<Rightarrow> 's cas_ops \<Rightarrow> digest_info \<Rightarrow> 's \<Rightarrow> action_msg option cas_result \<times> 's" where
  "fetch_action decode ops d s =
     (case cb_read ops d s of
        (Inl e, s1) \<Rightarrow> (Inl e, s1)
      | (Inr None, s1) \<Rightarrow> (Inr None, s1)
      | (Inr (Some b), s1) \<Rightarrow>
          ((case decode b of Inl e \<Rightarrow> Inl (InvalidData (''Failed to decode Action: '' @ e)) | Inr a \<Rightarrow> Inr (Some a)), s1))"

definition fetch_command ::
  "(bytes \<Rightarrow> string + command_msg) \<Rightarrow> 's cas_ops \<Rightarrow> digest_info \<Rightarrow> 's \<Rightarrow> command_msg option cas_result \<times> 's" where
  "fetch_command decode ops d s =
     (case cb_read ops d s of
        (Inl e, s1) \<Rightarrow> (Inl e, s1)
      | (Inr None, s1) \<Rightarrow> (Inr None, s1)
      | (Inr (Some b), s1) \<Rightarrow>
          ((case decode b of Inl e \<Rightarrow> Inl (InvalidData (''Failed to decode Command: '' @ e)) | Inr a \<Rightarrow> Inr (Some a)), s1))"

fun platform_error_text :: "platform_error \<Rightarrow> string" where
  "platform_error_text (UnsupportedNetwork v) = ''unsupported Network '' @ debug_string v @ ''; supported: on, off''"
| "platform_error_text (UnsupportedIsa v) = ''unsupported ISA '' @ debug_string v @ ''; supported: arm-a64, x86-64''"
| "platform_error_text (UnsupportedProperty n supported) =
     ''unsupported platform property '' @ debug_string n @ ''; supported: '' @ join '', '' supported"
| "platform_error_text (UnsupportedPriority v) = ''unsupported Priority '' @ debug_string v @ ''; supported: critical''"

definition unsupported_platform :: "platform_error \<Rightarrow> status" where
  "unsupported_platform e = invalid_argument (''Unsupported platform: '' @ platform_error_text e)"

definition input_root_of :: "action_msg \<Rightarrow> status + digest_info option" where
  "input_root_of act =
     (case am_input_root_digest act of
        None \<Rightarrow> Inr None
      | Some m \<Rightarrow>
          (case digest_new (pd_hash m) (pd_size m) of
             Inl e \<Rightarrow> Inl (invalid_argument (''Invalid input_root_digest: '' @ rbe_error_text e))
           | Inr i \<Rightarrow> Inr (Some i)))"

definition outputs_of :: "command_msg \<Rightarrow> string list \<times> string list" where
  "outputs_of cmd = (if cm_output_paths cmd \<noteq> [] then (cm_output_paths cmd, []) else (cm_output_files cmd, cm_output_directories cmd))"

definition properties_of :: "service_config \<Rightarrow> request_metadata option \<Rightarrow> action_msg \<Rightarrow> command_msg \<Rightarrow> (string \<times> string) list" where
  "properties_of cfg metadata act cmd =
     (let platform = (case am_platform act of Some (p # ps) \<Rightarrow> Some (p # ps) | _ \<Rightarrow> cm_platform cmd);
          own = platform_properties platform
      in own @ properties_for (sc_critical_actions cfg) metadata own)"

definition timeout_of :: "service_config \<Rightarrow> action_msg \<Rightarrow> millis" where
  "timeout_of cfg act =
     (case am_timeout act of
        Some secs \<Rightarrow> if secs > 0 then nat secs * 1000 else sc_default_action_timeout cfg
      | None \<Rightarrow> sc_default_action_timeout cfg)"

definition priority_of :: "execute_request \<Rightarrow> int" where
  "priority_of req = (case xq_priority req of None \<Rightarrow> 0 | Some p \<Rightarrow> max MIN_PRIORITY (min MAX_PRIORITY p))"

text \<open>The part after both messages were fetched.\<close>

definition assemble_action ::
  "service_config \<Rightarrow> execute_request \<Rightarrow> request_metadata option \<Rightarrow> op_id \<Rightarrow> digest_info \<Rightarrow> action_msg \<Rightarrow> command_msg \<Rightarrow>
   status + executable_action" where
  "assemble_action cfg req metadata op d act cmd =
     (case input_root_of act of
        Inl e \<Rightarrow> Inl e
      | Inr input_root \<Rightarrow>
          (let properties = properties_of cfg metadata act cmd in
           case from_platform_with properties (sc_extra_platform_properties cfg) of
             Inl e \<Rightarrow> Inl (unsupported_platform e)
           | Inr requirements \<Rightarrow>
               (case priority_from_platform properties of
                  Inl e \<Rightarrow> Inl (unsupported_platform e)
                | Inr priority \<Rightarrow>
                    (case network_from_platform properties of
                       Inl e \<Rightarrow> Inl (unsupported_platform e)
                     | Inr network \<Rightarrow>
                         Inr \<lparr>ea_operation_id = op, ea_action_digest = d, ea_command = cm_arguments cmd, ea_timeout = timeout_of cfg act,
                              ea_priority = priority, ea_output_files = fst (outputs_of cmd), ea_output_directories = snd (outputs_of cmd),
                              ea_working_directory = (if cm_working_directory cmd = [] then None else Some (cm_working_directory cmd)),
                              ea_input_root_digest = input_root, ea_environment_variables = cm_environment_variables cmd,
                              ea_do_not_cache = am_do_not_cache act, ea_requirements = requirements, ea_network = network,
                              ea_worker_losses = 0, ea_execution_priority = priority_of req, ea_metadata = metadata\<rparr>))))"

definition create_executable_action ::
  "(bytes \<Rightarrow> string) \<Rightarrow> (bytes \<Rightarrow> string + action_msg) \<Rightarrow> (bytes \<Rightarrow> string + command_msg) \<Rightarrow> 's cas_ops \<Rightarrow> service_config \<Rightarrow>
   execute_request \<Rightarrow> request_metadata option \<Rightarrow> op_id \<Rightarrow> 's \<Rightarrow> (status + executable_action) \<times> 's" where
  "create_executable_action hex_encode decode_action decode_command ops cfg req metadata op s =
     (case x_action_digest_of (xq_action_digest req) of
        Inl e \<Rightarrow> (Inl e, s)
      | Inr d \<Rightarrow>
          (case fetch_action decode_action ops d s of
             (Inl e, s1) \<Rightarrow> (Inl (internal ''Failed to fetch action''), s1)
           | (Inr None, s1) \<Rightarrow> (Inl (not_found (''Action not found: '' @ hash_to_string hex_encode d)), s1)
           | (Inr (Some act), s1) \<Rightarrow>
               (case am_command_digest act of
                  None \<Rightarrow> (Inl (invalid_argument ''Action missing command_digest''), s1)
                | Some cd \<Rightarrow>
                    (case digest_new (pd_hash cd) (pd_size cd) of
                       Inl e \<Rightarrow> (Inl (invalid_argument (''Invalid command_digest: '' @ rbe_error_text e)), s1)
                     | Inr c \<Rightarrow>
                         (case fetch_command decode_command ops c s1 of
                            (Inl e, s2) \<Rightarrow> (Inl (internal ''Failed to fetch command''), s2)
                          | (Inr None, s2) \<Rightarrow> (Inl (not_found (''Command not found: '' @ hash_to_string hex_encode c)), s2)
                          | (Inr (Some cmd), s2) \<Rightarrow> (assemble_action cfg req metadata op d act cmd, s2))))))"

section \<open>The handlers\<close>

definition cached_operation :: "(bytes \<Rightarrow> string) \<Rightarrow> digest_info \<Rightarrow> action_result \<Rightarrow> operation" where
  "cached_operation hex_encode d cached =
     mk_operation (''operations/'' @ digest_display hex_encode d)
       (Some (pack_response \<lparr>xr_result = Some cached, xr_cached_result = True, xr_status = ok_status, xr_message = []\<rparr>))"

definition execute_lookup ::
  "(bytes \<Rightarrow> string) \<Rightarrow> 's cas_ops \<Rightarrow> 'm memo \<Rightarrow> (bytes \<Rightarrow> string + tree) \<Rightarrow> 'a ac_store \<Rightarrow> millis \<Rightarrow> request_metadata option \<Rightarrow>
   digest_info \<Rightarrow> ('s, 'a, 'm) cache_state \<Rightarrow> action_result option \<times> ('s, 'a, 'm) cache_state" where
  "execute_lookup hex_encode ops memo decode store now metadata d c =
     (case as_get store d (cs_store c) of
        (None, a) \<Rightarrow> (None, c\<lparr>cs_store := a\<rparr>)
      | (Some r, a) \<Rightarrow>
          (case missing_blobs hex_encode ops memo decode now (car_proto r) (cs_cas c) (cs_memo c) of
             (Inr 0, s, m) \<Rightarrow>
               (Some (car_proto r),
                c\<lparr>cs_cas := s, cs_store := a, cs_memo := m,
                  cs_log := (case (cs_log c, metadata) of (Some l, Some caller) \<Rightarrow> Some (record_cache_hit caller l) | _ \<Rightarrow> cs_log c)\<rparr>)
           | (Inr (Suc n), s, m) \<Rightarrow> (None, c\<lparr>cs_cas := s, cs_store := as_remove store d a, cs_memo := m\<rparr>)
           | (Inl e, s, m) \<Rightarrow> (None, c\<lparr>cs_cas := s, cs_store := a, cs_memo := m\<rparr>)))"

record follow =
  fw_operation :: op_id
  fw_name :: string
  fw_metadata :: "request_metadata option"
  fw_working_directory :: string

definition operation_name :: "op_id \<Rightarrow> string" where
  "operation_name op = ''operations/'' @ show_nat op"

text \<open>
  The items sent before the handler returns, and the task it leaves behind that follows an operation.
  \<open>op\<close> is the id \<open>OperationId::generate\<close> draws.
\<close>

definition queue_refused :: "millis \<Rightarrow> op_id \<Rightarrow> digest_info \<Rightarrow> 'resp engine \<Rightarrow> bool" where
  "queue_refused now op d e =
     (case transition_to now Queued (heap (create_machine_with_id now op d (eng_machines e)) op) of Inl err \<Rightarrow> True | Inr m \<Rightarrow> False)"

definition execute ::
  "(bytes \<Rightarrow> string) \<Rightarrow> (bytes \<Rightarrow> string + action_msg) \<Rightarrow> (bytes \<Rightarrow> string + command_msg) \<Rightarrow> (bytes \<Rightarrow> string + tree) \<Rightarrow>
   's cas_ops \<Rightarrow> 'm memo \<Rightarrow> 'a ac_store \<Rightarrow> service_config \<Rightarrow> millis \<Rightarrow> op_id \<Rightarrow> request_metadata option \<Rightarrow> execute_request \<Rightarrow>
   ('s, 'a, 'm) cache_state \<Rightarrow> execute_response engine \<Rightarrow>
   (status + (status + operation) list \<times> follow option) \<times> ('s, 'a, 'm) cache_state \<times> execute_response engine" where
  "execute hex_encode decode_action decode_command decode_tree ops memo store cfg now op metadata req c e =
     (case x_action_digest_of (xq_action_digest req) of
        Inl err \<Rightarrow> (Inl err, c, e)
      | Inr d \<Rightarrow>
          (case (if xq_skip_cache_lookup req then (None, c) else execute_lookup hex_encode ops memo decode_tree store now metadata d c) of
             (Some cached, c1) \<Rightarrow> (Inr ([Inr (cached_operation hex_encode d cached)], None), c1, e)
           | (None, c1) \<Rightarrow>
               (case create_executable_action hex_encode decode_action decode_command ops cfg req metadata op (cs_cas c1) of
                  (Inl err, s) \<Rightarrow>
                    (Inr ([Inl err], None), c1\<lparr>cs_cas := s\<rparr>,
                     e\<lparr>eng_machines := remove_machine op (create_machine_with_id now op d (eng_machines e))\<rparr>)
                | (Inr a, s) \<Rightarrow>
                    (case submit now a e of
                       (None, e1) \<Rightarrow>
                         (Inr ([Inl (internal (if queue_refused now op d e then ''Failed to queue action'' else ''In-flight operation lost''))], None),
                          c1\<lparr>cs_cas := s\<rparr>, e1)
                     | (Some owner, e1) \<Rightarrow>
                         (Inr ([Inr (mk_operation (operation_name owner) None)],
                               Some \<lparr>fw_operation = owner, fw_name = operation_name owner, fw_metadata = metadata,
                                     fw_working_directory = (case ea_working_directory a of None \<Rightarrow> [] | Some w \<Rightarrow> w)\<rparr>),
                          c1\<lparr>cs_cas := s\<rparr>, e1)))))"

definition final_response :: "op_id \<Rightarrow> execute_response engine \<Rightarrow> execute_response" where
  "final_response op e =
     (case results_get op (eng_results e) of Some fin \<Rightarrow> fo_response fin | None \<Rightarrow> missing_result_response)"

text \<open>What the task of \<open>Execute\<close> does when the operation has ended and the client is still there.\<close>

definition execute_finish ::
  "follow \<Rightarrow> execute_response engine \<Rightarrow> ac_log option \<Rightarrow> operation \<times> ac_log option" where
  "execute_finish f e l =
     (mk_operation (fw_name f) (Some (pack_response (final_response (fw_operation f) e))),
      (case (results_get (fw_operation f) (eng_results e), l, fw_metadata f) of
         (Some fin, Some l, Some caller) \<Rightarrow> Some (record_placement caller (fw_working_directory f) (fo_result fin) l)
       | _ \<Rightarrow> l))"

text \<open>
  The wait for the end of an operation, by what happens next: the machine is terminal, the client is
  gone, or a tick of the timer and whether its update could be sent. The result is what was sent and,
  once the wait is over, whether the client is still there.
\<close>

datatype watch_event = Terminal | Closed | Tick bool

fun until_finished :: "string \<Rightarrow> watch_event list \<Rightarrow> operation list \<times> bool option" where
  "until_finished name [] = ([], None)"
| "until_finished name (Terminal # evs) = ([], Some True)"
| "until_finished name (Closed # evs) = ([], Some False)"
| "until_finished name (Tick sent # evs) =
     (if sent then (case until_finished name evs of (ops, r) \<Rightarrow> (mk_operation name None # ops, r)) else ([], Some False))"

definition watch_operation :: "op_id \<Rightarrow> 'resp engine \<Rightarrow> 'resp engine" where
  "watch_operation op e = set_machine op (watch (machine_at op e)) e"

definition unwatch_operation :: "millis \<Rightarrow> op_id \<Rightarrow> 'resp engine \<Rightarrow> 'resp engine" where
  "unwatch_operation now op e = set_machine op (drop_watch now (machine_at op e)) e"

definition wait_execution ::
  "string \<Rightarrow> execute_response engine \<Rightarrow> status + (status + operation) list \<times> follow option" where
  "wait_execution name e =
     (case parse_unsigned 64 (trim_start_matches ''operations/'' name) of
        None \<Rightarrow> Inl (invalid_argument ''Invalid operation name'')
      | Some op \<Rightarrow>
          (case get_machine op (eng_machines e) of
             None \<Rightarrow> Inr ([Inl (not_found ''Operation not found'')], None)
           | Some sm \<Rightarrow>
               Inr ([], Some \<lparr>fw_operation = op, fw_name = name, fw_metadata = None, fw_working_directory = []\<rparr>)))"

definition wait_finish :: "follow \<Rightarrow> execute_response engine \<Rightarrow> operation" where
  "wait_finish f e = mk_operation (fw_name f) (Some (pack_response (final_response (fw_operation f) e)))"

section \<open>What is cached is served\<close>

text \<open>Only an action that ran, exited with zero and may be cached reaches the cache.\<close>

definition clean_success :: "execution_result \<Rightarrow> bool" where
  "clean_success r \<longleftrightarrow> er_exit_code r = 0 \<and> er_error r = None \<and> \<not> er_timed_out r"

lemma recorder_store:
  assumes "recorder_record hex_encode sha256 ops store max_capture inline_threshold wall now act m r c = (response, c')"
  shows "\<exists>ar. xr_result response = Some ar \<and>
    cs_store c' = (case act of
        Some a \<Rightarrow> if clean_success r \<and> \<not> ea_do_not_cache a
                  then as_put store (ea_action_digest a) \<lparr>car_digest = ea_action_digest a, car_proto = ar\<rparr> (cs_store c) else cs_store c
      | None \<Rightarrow> cs_store c)"
  using assms
  by (auto simp: recorder_record_def recorder_response_def completed_response_def cache_success_def clean_success_def Let_def
      split: prod.splits option.splits if_splits)

lemma execute_lookup_complete:
  assumes "i64_tree_decoder decode" "disk_ok sha256 (cs_cas c)" "as_get store d (cs_store c) = (Some q, a)" "i64_result (car_proto q)"
    and "\<forall>b \<in> set (referenced_blobs (car_proto q)). present disk_holds (cs_cas c) b"
    and "\<forall>t \<in> set (tree_digests (car_proto q)). tree_complete disk_holds decode (cs_cas c) t"
  shows "\<exists>c'. execute_lookup lower_hex (disk_ops no_fault lower_hex sha256 now uuid) memo decode store now' metadata d c = (Some (car_proto q), c')"
proof -
  have "\<forall>t \<in> set (tree_digests (car_proto q)). tree_readable disk_holds decode (cs_cas c) t" using assms(6) by (simp add: complete_readable)
  from disk_backend.missing_blobs_steady [OF disk_steady assms(1,2,4) this, of lower_hex now uuid memo now' "cs_memo c"]
  obtain n s' m' where "missing_blobs lower_hex (disk_ops no_fault lower_hex sha256 now uuid) memo decode now' (car_proto q) (cs_cas c) (cs_memo c) =
      (Inr n, s', m')" "n = 0" using assms(5,6) by blast
  then show ?thesis using assms(3) by (simp add: execute_lookup_def)
qed


section \<open>Truncated output\<close>


section \<open>The actions a request makes\<close>

definition action_ok :: "executable_action \<Rightarrow> bool" where
  "action_ok a \<longleftrightarrow> digest_wf (ea_action_digest a) \<and> (\<forall>d. ea_input_root_digest a = Some d \<longrightarrow> length (hash d) = 32) \<and>
     0 < ea_timeout a \<and> MIN_PRIORITY \<le> ea_execution_priority a \<and> ea_execution_priority a \<le> MAX_PRIORITY \<and>
     ea_worker_losses a = 0 \<and> req_worker_type (ea_requirements a) = None \<and> distinct (req_labels (ea_requirements a)) \<and>
     (\<forall>w. ea_working_directory a = Some w \<longrightarrow> w \<noteq> [])"

lemma platform_loop_distinct: "platform_loop extra found ps = Inr ls \<Longrightarrow> distinct found \<Longrightarrow> distinct ls"
  by (induction extra found ps rule: platform_loop.induct) (auto split: sum.splits option.splits if_splits)

lemma digest_new_length: "digest_new h z = Inr d \<Longrightarrow> length (hash d) = 32"
  using to_digest_info_wf(2) [of "\<lparr>pd_hash = h, pd_size = 0\<rparr>" "d\<lparr>dsize := 0\<rparr>"]
  by (auto simp: to_digest_info_Inr digest_new_def i64_size_def digest_wf_def split: sum.splits)

lemma input_root_length: "input_root_of act = Inr (Some d) \<Longrightarrow> length (hash d) = 32"
  using digest_new_length by (auto simp: input_root_of_def split: option.splits sum.splits)

lemma requirements_distinct: "from_platform_with ps extra = Inr q \<Longrightarrow> req_worker_type q = None \<and> distinct (req_labels q)"
  using platform_loop_distinct by (fastforce simp: from_platform_with_def split: sum.splits)

lemma priority_in_range: "MIN_PRIORITY \<le> priority_of req \<and> priority_of req \<le> MAX_PRIORITY"
  by (simp add: priority_of_def MIN_PRIORITY_def MAX_PRIORITY_def split: option.split)

lemma timeout_positive: "0 < sc_default_action_timeout cfg \<Longrightarrow> 0 < timeout_of cfg act"
  by (simp add: timeout_of_def split: option.split)

lemma assemble_action_ok:
  assumes "assemble_action cfg req metadata op d act cmd = Inr a" "digest_wf d" "0 < sc_default_action_timeout cfg"
  shows "action_ok a \<and> ea_operation_id a = op"
  using assms(1,2) input_root_length requirements_distinct priority_in_range timeout_positive [OF assms(3)]
  by (auto simp: assemble_action_def action_ok_def Let_def split: sum.splits if_splits)

text \<open>
  C25: every action a request makes is well formed. Whatever the client sent and the CAS holds, an action that
  reaches the scheduler has a digest of 32 bytes, a positive timeout, a priority in the range the server
  announces, no lost workers, and requirements without duplicates.
\<close>

theorem created_action_ok:
  assumes "\<And>m. xq_action_digest req = Some m \<Longrightarrow> i64_size m" "0 < sc_default_action_timeout cfg"
    and "create_executable_action hex_encode decode_action decode_command ops cfg req metadata op s = (Inr a, s')"
  shows "action_ok a \<and> ea_operation_id a = op"
proof -
  obtain d act cmd where d: "x_action_digest_of (xq_action_digest req) = Inr d" and a: "assemble_action cfg req metadata op d act cmd = Inr a"
    using assms(3) by (auto simp: create_executable_action_def split: sum.splits prod.splits option.splits)
  obtain m where "xq_action_digest req = Some m" "to_digest_info m = Inr d"
    using d by (auto simp: x_action_digest_of_def to_digest_info_Inr split: option.splits sum.splits)
  then have "digest_wf d" using assms(1) to_digest_info_wf(2) by blast
  from assemble_action_ok [OF a this assms(2)] show ?thesis by simp
qed

section \<open>Names of operations\<close>

lemma digit_not_letter: "d < 10 \<Longrightarrow> digit_char d \<noteq> CHR ''o''"
proof
  assume "d < 10" "digit_char d = CHR ''o''"
  then have "of_char (char_of (48 + d) :: char) = (of_char (CHR ''o'') :: nat)" by (simp add: digit_char_def)
  then show False using \<open>d < 10\<close> by simp
qed

lemma wait_name: "op < 2 ^ 64 \<Longrightarrow> parse_unsigned 64 (trim_start_matches ''operations/'' (operation_name op)) = Some op"
proof -
  assume op: "op < 2 ^ 64"
  have "trim_start_matches ''operations/'' (show_nat op) = show_nat op"
    by (rule show_nat_Cons [of op], rule trim_absent) (auto simp: digit_not_letter)
  then show ?thesis using op trim_prefix [of "''operations/''" "show_nat op"] by (simp add: operation_name_def parse_unsigned_show_nat)
qed

text \<open>
  C26: a client that lost its stream can wait for the operation by the name it was sent. While the operation is
  tracked, \<open>WaitExecution\<close> follows the operation \<open>Execute\<close> followed, and ends with the same operation.
\<close>

theorem wait_follows_execute:
  assumes "execute hex_encode decode_action decode_command decode_tree ops memo store cfg now op metadata req c e = (Inr (updates, Some f), c', e')"
    and "fw_operation f < 2 ^ 64" "get_machine (fw_operation f) (eng_machines e2) = Some sm"
  shows "\<exists>g. wait_execution (fw_name f) e2 = Inr ([], Some g) \<and> wait_finish g e3 = fst (execute_finish f e3 l)"
proof -
  have "fw_name f = operation_name (fw_operation f)"
    using assms(1) by (auto simp: execute_def split: sum.splits prod.splits option.splits if_splits)
  then show ?thesis
    using assms(3) wait_name [OF assms(2)] by (simp add: wait_execution_def wait_finish_def execute_finish_def)
qed

section \<open>Instances\<close>

definition one_file_exec :: execution_result where
  "one_file_exec = \<lparr>er_execution_id = ''exec-1'', er_exit_code = 0, er_stdout = [], er_stderr = [], er_stdout_digest = None,
     er_stderr_digest = None, er_output_files = [\<lparr>of_path = ''out'', of_digest = lower_hex (hash loop_digest), of_size_bytes = 1, of_is_executable = False\<rparr>],
     er_output_directories = [], er_output_symlinks = [], er_execution_duration = 0, er_error = None, er_timed_out = False,
     er_worker_id = ''w'', er_timestamps = phase_timestamps_default, er_input_stats = None\<rparr>"

definition loop_action :: executable_action where
  "loop_action = \<lparr>ea_operation_id = 1, ea_action_digest = loop_digest, ea_command = [], ea_timeout = 1000, ea_priority = Medium,
     ea_output_files = [''out''], ea_output_directories = [], ea_working_directory = None, ea_input_root_digest = None,
     ea_environment_variables = [], ea_do_not_cache = False, ea_requirements = \<lparr>req_worker_type = None, req_labels = []\<rparr>,
     ea_network = WorkerDefault, ea_worker_losses = 0, ea_execution_priority = 0, ea_metadata = None\<rparr>"

definition loop_request :: execute_request where
  "loop_request = \<lparr>xq_action_digest = Some (digest_msg loop_digest), xq_skip_cache_lookup = False, xq_priority = None\<rparr>"

definition loop_cache where
  "loop_cache = \<lparr>cs_cas = loop_disk, cs_store = empty_ac, cs_memo = (), cs_log = None\<rparr>"

definition loop_config :: service_config where
  "loop_config = service_config_new None None"

lemma loop_request_digest: "x_action_digest_of (xq_action_digest loop_request) = Inr loop_digest"
  using loop_msg(1) by (simp add: x_action_digest_of_def loop_request_def to_digest_info_Inr)

lemma one_file_recorded:
  "\<exists>response ar. recorder_record lower_hex (\<lambda>_. hash loop_digest) (disk_ops no_fault lower_hex (\<lambda>_. hash loop_digest) 5 ''u'')
      (disk_ac_store no_fault lower_hex (\<lambda>_. []) (\<lambda>_. None) 5 ''u'') 10 10 9 5 (Some loop_action) (machine_new 0 1 loop_digest) one_file_exec loop_cache =
     (response, loop_cache\<lparr>cs_store := ac_put no_fault lower_hex (\<lambda>_. []) 5 ''u'' loop_digest \<lparr>car_digest = loop_digest, car_proto = ar\<rparr> empty_ac\<rparr>) \<and>
     xr_result response = Some ar \<and> referenced_blobs ar = [loop_digest] \<and> tree_digests ar = [] \<and> i64_result ar"
  using loop_msg
  by (simp add: recorder_record_def recorder_response_def recorder_output_def process_output_def one_file_exec_def or_inline_def
      completed_response_def worker_action_result_def cache_success_def loop_action_def disk_ac_store_def loop_cache_def Let_def
      inline_bytes_def output_digest_def is_inline_def proto_output_files_def proto_output_directories_def proto_output_symlinks_def
      referenced_blobs_def tree_digests_def needed_def parsed_def i64_result_def option_list_def map_filter_simps digest_msg_def
      loop_digest_def)



text \<open>A request whose action and command are the blob of \<open>loop_disk\<close>.\<close>

definition loop_action_msg :: action_msg where
  "loop_action_msg = \<lparr>am_command_digest = Some (digest_msg loop_digest), am_input_root_digest = None, am_timeout = None,
     am_do_not_cache = False, am_platform = None\<rparr>"

definition loop_command_msg :: command_msg where
  "loop_command_msg = \<lparr>cm_arguments = [''true''], cm_environment_variables = [], cm_output_files = [], cm_output_directories = [],
     cm_output_paths = [''out''], cm_platform = None, cm_working_directory = []\<rparr>"

lemma loop_assembled: "\<exists>a. assemble_action loop_config loop_request None 1 loop_digest loop_action_msg loop_command_msg = Inr a \<and> ea_operation_id a = 1 \<and> ea_working_directory a = None"
  by (simp add: assemble_action_def input_root_of_def loop_action_msg_def properties_of_def loop_command_msg_def platform_properties_def
      properties_for_def from_platform_with_def priority_from_platform_def network_from_platform_def Let_def)

lemma loop_created:
  "\<exists>a s'. create_executable_action lower_hex (\<lambda>_. Inr loop_action_msg) (\<lambda>_. Inr loop_command_msg)
      (disk_ops no_fault lower_hex (\<lambda>_. hash loop_digest) 5 ''u'') loop_config loop_request None 1 loop_disk = (Inr a, s') \<and> ea_operation_id a = 1 \<and> ea_working_directory a = None"
proof -
  let ?ops = "disk_ops no_fault lower_hex (\<lambda>_. hash loop_digest) 5 ''u''"
  have wf: "digest_wf loop_digest" by (simp add: digest_wf_def loop_digest_def)
  have h: "disk_holds loop_disk loop_digest = Some [1]" by (simp add: disk_holds_def loop_files blob_path_def)
  obtain s1 where s1: "cb_read ?ops loop_digest loop_disk = (Inr (Some [1]), s1)" "disk_ok (\<lambda>_. hash loop_digest) s1" "disk_holds s1 = disk_holds loop_disk"
    using disk_backend.steady_read [OF disk_steady loop_ok(1) wf] h by metis
  obtain s2 where s2: "cb_read ?ops loop_digest s1 = (Inr (Some [1]), s2)"
    using disk_backend.steady_read [OF disk_steady s1(2) wf] h s1(3) by metis
  obtain a where a: "assemble_action loop_config loop_request None 1 loop_digest loop_action_msg loop_command_msg = Inr a" "ea_operation_id a = 1" "ea_working_directory a = None"
    using loop_assembled by blast
  have d: "digest_new (pd_hash (digest_msg loop_digest)) (pd_size (digest_msg loop_digest)) = Inr loop_digest"
    using loop_msg(1) by (simp add: to_digest_info_Inr)
  have c: "am_command_digest loop_action_msg = Some (digest_msg loop_digest)" by (simp add: loop_action_msg_def)
  show ?thesis
    using s1(1) s2 a by (simp add: create_executable_action_def loop_request_digest fetch_action_def fetch_command_def c d del: disk_ops_simps)
qed

theorem created_action_ok_witness:
  "\<exists>a s'. create_executable_action lower_hex (\<lambda>_. Inr loop_action_msg) (\<lambda>_. Inr loop_command_msg)
      (disk_ops no_fault lower_hex (\<lambda>_. hash loop_digest) 5 ''u'') loop_config loop_request None 1 loop_disk = (Inr a, s') \<and> action_ok a"
proof -
  obtain a s' where a: "create_executable_action lower_hex (\<lambda>_. Inr loop_action_msg) (\<lambda>_. Inr loop_command_msg)
      (disk_ops no_fault lower_hex (\<lambda>_. hash loop_digest) 5 ''u'') loop_config loop_request None 1 loop_disk = (Inr a, s')"
    using loop_created by blast
  have "action_ok a"
    using created_action_ok [OF _ _ a] loop_msg(2)
    by (simp add: loop_request_def loop_config_def service_config_new_def timeout_from_env_def DEFAULT_ACTION_TIMEOUT_def)
  with a show ?thesis by blast
qed

section \<open>The engine under requests\<close>

lemma engine_inv_refused:
  assumes "engine_inv e {#}" "op \<notin> set (machines (eng_machines e))"
  shows "engine_inv (e\<lparr>eng_machines := remove_machine op (create_machine_with_id now op d (eng_machines e))\<rparr>) {#}"
proof -
  have "remove_machine op (create_machine_with_id now op d (eng_machines e)) =
      (eng_machines e)\<lparr>heap := (heap (eng_machines e))(op := machine_new now op d)\<rparr>"
    using assms(2) by (simp add: remove_machine_def create_machine_with_id_def Let_def)
  then show ?thesis using assms places_ok_unregistered by (simp add: engine_inv_def active_actions_def placed_def wires_ok_def)
qed

lemma created_operation:
  "create_executable_action hex_encode decode_action decode_command ops cfg req metadata op s = (Inr a, s') \<Longrightarrow> ea_operation_id a = op"
  by (auto simp: create_executable_action_def assemble_action_def Let_def split: sum.splits prod.splits option.splits)

lemma submit_tracked: "submit now a e = (Some owner, e') \<Longrightarrow> owner \<in> set (machines (eng_machines e'))"
  by (auto simp: submit_def Let_def create_machine_with_id_def get_machine_def set_machine_def split: sum.splits prod.splits if_splits)

text \<open>
  C24: a request keeps the engine in order. Whether \<open>Execute\<close> answers from the cache, refuses, joins an operation
  or queues a new one, every unfinished operation is still in exactly one place and in flight exactly when it waits or
  runs; and an operation that is followed is one the engine tracks.
\<close>

theorem execute_keeps_engine:
  assumes "engine_inv e {#}" "op \<notin> set (machines (eng_machines e))"
    and "execute hex_encode decode_action decode_command decode_tree ops memo store cfg now op metadata req c e = (reply, c', e')"
  shows "engine_inv e' {#} \<and> (\<forall>updates f. reply = Inr (updates, Some f) \<longrightarrow> fw_operation f \<in> set (machines (eng_machines e')))"
proof -
  have step: "engine_inv e' {#} \<and> (\<forall>owner. w = Some owner \<longrightarrow> owner \<in> set (machines (eng_machines e')))"
    if "create_executable_action hex_encode decode_action decode_command ops cfg req metadata op s = (Inr a, s')" "submit now a e = (w, e')"
    for s a s' w e'
    using engine_inv_submit [of e a now] submit_tracked [of now a e] created_operation [OF that(1)] assms(1,2) that(2) by auto
  show ?thesis
    using assms(3) engine_inv_refused [OF assms(1,2)] assms(1)
    by (auto simp: execute_def split: sum.splits prod.splits option.splits if_splits dest!: step)
qed

lemma submit_fresh:
  assumes "ea_operation_id a \<notin> set (machines (eng_machines e))" "map_of (in_flight_actions (eng_scheduler e)) (ea_action_digest a) = None"
  shows "fst (submit now a e) = Some (ea_operation_id a)"
  by (rule submit_create [OF assms(1) refl, of now]) (simp add: assms(2) enqueue_def Let_def)

lemma loop_followed:
  "\<exists>updates c' e'. execute lower_hex (\<lambda>_. Inr loop_action_msg) (\<lambda>_. Inr loop_command_msg) (\<lambda>_. Inl ''bad'')
      (disk_ops no_fault lower_hex (\<lambda>_. hash loop_digest) 5 ''u'') no_memo (disk_ac_store no_fault lower_hex (\<lambda>_. []) (\<lambda>_. None) 5 ''u'')
      loop_config 5 1 None loop_request loop_cache (engine_new 0 None None None) =
    (Inr (updates, Some \<lparr>fw_operation = 1, fw_name = operation_name 1, fw_metadata = None, fw_working_directory = []\<rparr>), c', e')"
proof -
  let ?e = "engine_new 0 None None None :: execute_response engine"
  obtain a s' where a: "create_executable_action lower_hex (\<lambda>_. Inr loop_action_msg) (\<lambda>_. Inr loop_command_msg)
      (disk_ops no_fault lower_hex (\<lambda>_. hash loop_digest) 5 ''u'') loop_config loop_request None 1 loop_disk = (Inr a, s')"
    "ea_operation_id a = 1" "ea_working_directory a = None"
    using loop_created by blast
  have "\<exists>k. as_get (disk_ac_store no_fault lower_hex (\<lambda>_. []) (\<lambda>_. None) 5 ''u'') loop_digest empty_ac = (None, k)"
    by (simp add: disk_ac_store_def ac_get_def ac_get_with_tier_def empty_ac_def ac_with_max_size_bytes_def l1_get_def l1_new_def
        read_disk_def ac_entry_path_def Let_def)
  then obtain k where miss: "as_get (disk_ac_store no_fault lower_hex (\<lambda>_. []) (\<lambda>_. None) 5 ''u'') loop_digest empty_ac = (None, k)" by blast
  have "fst (submit 5 a ?e) = Some 1"
    using submit_fresh [of a ?e 5] a(2) by (simp add: engine_new_def scheduler_new_def)
  then obtain e' where "submit 5 a ?e = (Some 1, e')" by (metis prod.collapse)
  then show ?thesis
    using a loop_request_digest miss by (simp add: execute_def execute_lookup_def loop_cache_def)
qed

theorem wait_follows_execute_witness:
  "\<exists>g. wait_execution (operation_name 1) ((engine_new 0 None None None)\<lparr>eng_machines :=
       \<lparr>machines = [1], heap = (\<lambda>op. machine_new 0 op loop_digest)\<rparr>\<rparr>) = Inr ([], Some g) \<and>
     wait_finish g (engine_new 0 None None None) =
       fst (execute_finish \<lparr>fw_operation = 1, fw_name = operation_name 1, fw_metadata = None, fw_working_directory = []\<rparr> (engine_new 0 None None None) None)"
proof -
  let ?e2 = "(engine_new 0 None None None)\<lparr>eng_machines := \<lparr>machines = [1], heap = (\<lambda>op. machine_new 0 op loop_digest)\<rparr>\<rparr> :: execute_response engine"
  have "get_machine 1 (eng_machines ?e2) = Some 1" by (simp add: get_machine_def)
  then show ?thesis using loop_followed wait_follows_execute [of lower_hex _ _ _ _ _ _ _ _ _ _ _ _ _ _ "\<lparr>fw_operation = 1, fw_name = operation_name 1, fw_metadata = None, fw_working_directory = []\<rparr>" _ _ ?e2 1 "engine_new 0 None None None" None]
    by fastforce
qed

theorem execute_keeps_engine_witness:
  "engine_inv (snd (snd (execute lower_hex (\<lambda>_. Inr loop_action_msg) (\<lambda>_. Inr loop_command_msg) (\<lambda>_. Inl ''bad'')
      (disk_ops no_fault lower_hex (\<lambda>_. hash loop_digest) 5 ''u'') no_memo (disk_ac_store no_fault lower_hex (\<lambda>_. []) (\<lambda>_. None) 5 ''u'')
      loop_config 5 1 None loop_request loop_cache (engine_new 0 None None None)))) {#}"
proof -
  let ?x = "execute lower_hex (\<lambda>_. Inr loop_action_msg) (\<lambda>_. Inr loop_command_msg) (\<lambda>_. Inl ''bad'')
      (disk_ops no_fault lower_hex (\<lambda>_. hash loop_digest) 5 ''u'') no_memo (disk_ac_store no_fault lower_hex (\<lambda>_. []) (\<lambda>_. None) 5 ''u'')
      loop_config 5 1 None loop_request loop_cache (engine_new 0 None None None)"
  obtain reply c' e' where x: "?x = (reply, c', e')" by (metis prod_cases3)
  have "1 \<notin> set (machines (eng_machines (engine_new 0 None None None :: execute_response engine)))" by (simp add: engine_new_def)
  from execute_keeps_engine [OF engine_inv_start this x] show ?thesis unfolding x by simp
qed

end
