(* ===== verification/Output_Uploader.thy ===== *)
theory Output_Uploader
  imports Action_Cache_Service
begin

text \<open>
  \<open>worker/output_uploader.rs\<close>: what a worker sends to the CAS after an action ran. \<open>node_at\<close> is what the
  system finds at a path of the execroot, \<open>io\<close> says at which paths its calls fail while the outputs are
  hashed, and \<open>rd\<close> is what reading a file gives when it is sent, which may be something else than was
  hashed. The two encoders are \<open>prost\<close>. A file is hashed at once where the code goes through a
  buffer, and sends that run at the same time are run in the order \<open>sched\<close> puts them.
\<close>

section \<open>Files and plans\<close>

datatype fnode = FFile bytes bool | FLink string | FDir "(string \<times> fnode) list"

datatype blob_source = FileSource string | BytesSource bytes

type_synonym blobs = "(digest_info \<times> blob_source) list"

definition blobs_add :: "digest_info \<Rightarrow> blob_source \<Rightarrow> blobs \<Rightarrow> blobs" where
  "blobs_add d src bs = (if map_of bs d = None then bs @ [(d, src)] else bs)"

record uploaded_file =
  uf_path :: string
  uf_digest :: digest_info
  uf_size :: int
  uf_is_executable :: bool

record uploaded_directory =
  ud_path :: string
  ud_tree_digest :: digest_info
  ud_file_count :: nat

record uploaded_symlink =
  us_path :: string
  us_target :: string

datatype planned_kind = PlannedFile uploaded_file | PlannedDirectory uploaded_directory | PlannedSymlink uploaded_symlink

record planned_output =
  po_kind :: planned_kind
  po_digests :: "digest_info list"

fun planned_path :: "planned_kind \<Rightarrow> string" where
  "planned_path (PlannedFile f) = uf_path f"
| "planned_path (PlannedDirectory d) = ud_path d"
| "planned_path (PlannedSymlink s) = us_path s"

record upload_result =
  up_files :: "uploaded_file list"
  up_directories :: "uploaded_directory list"
  up_symlinks :: "uploaded_symlink list"
  up_bytes_uploaded :: nat
  up_cached_files :: nat
  up_errors :: "(string \<times> string) list"

definition FIND_MISSING_CHUNK :: nat where
  "FIND_MISSING_CHUNK = 10000"

definition max_batch_size :: "string option \<Rightarrow> int" where
  "max_batch_size v = (case Option.bind v parse_i64 of None \<Rightarrow> 4 * 1024 * 1024 | Some n \<Rightarrow> n)"

definition hash_file :: "(bytes \<Rightarrow> string) \<Rightarrow> (bytes \<Rightarrow> bytes) \<Rightarrow> (string \<Rightarrow> bool) \<Rightarrow> string \<Rightarrow> bytes \<Rightarrow> digest_info cas_result" where
  "hash_file hex_encode sha256 io p data =
     (if io p then Inl Io
      else case digest_new (hex_encode (sha256 data)) (i64_wrap (int (length data))) of
             Inl e \<Rightarrow> Inl (cas_error.InvalidDigest (''Invalid file digest: '' @ rbe_error_text e))
           | Inr d \<Rightarrow> Inr d)"

definition read_link_target :: "(string \<Rightarrow> bool) \<Rightarrow> string \<Rightarrow> string \<Rightarrow> string cas_result" where
  "read_link_target io p target = (if io p then Inl Io else Inr target)"

record plan_state =
  ps_blobs :: blobs
  ps_digests :: "digest_info list"
  ps_children :: "directory list"

definition add_blob :: "digest_info \<Rightarrow> blob_source \<Rightarrow> plan_state \<Rightarrow> plan_state" where
  "add_blob d src st = st\<lparr>ps_blobs := blobs_add d src (ps_blobs st), ps_digests := ps_digests st @ [d]\<rparr>"

definition empty_directory :: directory where
  "empty_directory = \<lparr>dir_files = [], dir_directories = [], dir_symlinks = []\<rparr>"

definition sort_directory :: "directory \<Rightarrow> directory" where
  "sort_directory d = d\<lparr>dir_files := sort_key fm_name (dir_files d), dir_directories := sort_key dm_name (dir_directories d),
     dir_symlinks := sort_key sl_name (dir_symlinks d)\<rparr>"

definition proto_of :: "(bytes \<Rightarrow> string) \<Rightarrow> digest_info \<Rightarrow> proto_digest" where
  "proto_of hex_encode d = \<lparr>pd_hash = hash_to_string hex_encode d, pd_size = dsize d\<rparr>"

text \<open>The loop of \<open>plan_directory\<close> over the entries of the directory \<open>p\<close>.\<close>

function plan_entries ::
  "(bytes \<Rightarrow> string) \<Rightarrow> (bytes \<Rightarrow> bytes) \<Rightarrow> (directory \<Rightarrow> bytes) \<Rightarrow> (string \<Rightarrow> bool) \<Rightarrow> string \<Rightarrow> (string \<times> fnode) list \<Rightarrow>
   directory \<Rightarrow> nat \<Rightarrow> plan_state \<Rightarrow> (directory \<times> nat) cas_result \<times> plan_state" where
  "plan_entries hex_encode sha256 encode io p [] dir n st = (Inr (sort_directory dir, n), st)"
| "plan_entries hex_encode sha256 encode io p ((name, FLink target) # es) dir n st =
     (case read_link_target io (p @ ''/'' @ name) target of
        Inl e \<Rightarrow> (Inl e, st)
      | Inr t \<Rightarrow>
          plan_entries hex_encode sha256 encode io p es
            (dir\<lparr>dir_symlinks := dir_symlinks dir @ [\<lparr>sl_name = name, sl_target = t\<rparr>]\<rparr>) n st)"
| "plan_entries hex_encode sha256 encode io p ((name, FFile data x) # es) dir n st =
     (case hash_file hex_encode sha256 io (p @ ''/'' @ name) data of
        Inl e \<Rightarrow> (Inl e, st)
      | Inr d \<Rightarrow>
          plan_entries hex_encode sha256 encode io p es
            (dir\<lparr>dir_files := dir_files dir @
               [\<lparr>fm_name = name, fm_digest = Some (proto_of hex_encode d), fm_is_executable = x\<rparr>]\<rparr>)
            (n + 1) (add_blob d (FileSource (p @ ''/'' @ name)) st))"
| "plan_entries hex_encode sha256 encode io p ((name, FDir sub) # es) dir n st =
     (if io (p @ ''/'' @ name) then (Inl Io, st)
      else case plan_entries hex_encode sha256 encode io (p @ ''/'' @ name) sub empty_directory 0 st of
             (Inl e, st1) \<Rightarrow> (Inl e, st1)
           | (Inr (subdir, k), st1) \<Rightarrow>
               (let encoded = encode subdir; d = from_bytes sha256 encoded; st2 = add_blob d (BytesSource encoded) st1
                in plan_entries hex_encode sha256 encode io p es
                     (dir\<lparr>dir_directories := dir_directories dir @ [\<lparr>dm_name = name, dm_digest = Some (proto_of hex_encode d)\<rparr>]\<rparr>)
                     (n + k) (st2\<lparr>ps_children := ps_children st2 @ [subdir]\<rparr>)))"
  by pat_completeness auto
termination
  by (relation "measure (\<lambda>(_, _, _, _, _, es, _). size_list (size_prod (\<lambda>_. 0) size) es)") auto

definition plan_tree ::
  "(bytes \<Rightarrow> string) \<Rightarrow> (bytes \<Rightarrow> bytes) \<Rightarrow> (directory \<Rightarrow> bytes) \<Rightarrow> (tree \<Rightarrow> bytes) \<Rightarrow> (string \<Rightarrow> bool) \<Rightarrow> string \<Rightarrow>
   (string \<times> fnode) list \<Rightarrow> blobs \<Rightarrow> (bytes \<times> nat \<times> digest_info list) cas_result \<times> blobs" where
  "plan_tree hex_encode sha256 encode encode_tree io p es bs =
     (if io p then (Inl Io, bs)
      else case plan_entries hex_encode sha256 encode io p es empty_directory 0 \<lparr>ps_blobs = bs, ps_digests = [], ps_children = []\<rparr> of
             (Inl e, st) \<Rightarrow> (Inl e, ps_blobs st)
           | (Inr (top_dir, n), st) \<Rightarrow>
               (Inr (encode_tree \<lparr>tree_root = Some top_dir, tree_children = ps_children st\<rparr>, n, ps_digests st), ps_blobs st))"

definition plan_output ::
  "(bytes \<Rightarrow> string) \<Rightarrow> (bytes \<Rightarrow> bytes) \<Rightarrow> (directory \<Rightarrow> bytes) \<Rightarrow> (tree \<Rightarrow> bytes) \<Rightarrow> (string \<Rightarrow> bool) \<Rightarrow> (string \<Rightarrow> fnode option) \<Rightarrow>
   string \<times> bool \<Rightarrow> blobs \<Rightarrow> planned_output option cas_result \<times> blobs" where
  "plan_output hex_encode sha256 encode encode_tree io node_at declared bs =
     (case declared of (p, declared_directory) \<Rightarrow>
        if io p then (Inl Io, bs)
        else case node_at p of
               None \<Rightarrow> (Inr None, bs)
             | Some (FLink target) \<Rightarrow>
                 (case read_link_target io p target of
                    Inl e \<Rightarrow> (Inl e, bs)
                  | Inr t \<Rightarrow> (Inr (Some \<lparr>po_kind = PlannedSymlink \<lparr>us_path = p, us_target = t\<rparr>, po_digests = []\<rparr>), bs))
             | Some (FDir es) \<Rightarrow>
                 (case plan_tree hex_encode sha256 encode encode_tree io p es bs of
                    (Inl e, bs1) \<Rightarrow> (Inl e, bs1)
                  | (Inr (data, n, ds), bs1) \<Rightarrow>
                      (let d = from_bytes sha256 data
                       in (Inr (Some \<lparr>po_kind = PlannedDirectory \<lparr>ud_path = p, ud_tree_digest = d, ud_file_count = n\<rparr>,
                                     po_digests = ds @ [d]\<rparr>), blobs_add d (BytesSource data) bs1)))
             | Some (FFile data x) \<Rightarrow>
                 if declared_directory then (Inl (InvalidData ''declared as an output directory but is a file''), bs)
                 else (case hash_file hex_encode sha256 io p data of
                         Inl e \<Rightarrow> (Inl e, bs)
                       | Inr d \<Rightarrow>
                           (Inr (Some \<lparr>po_kind = PlannedFile \<lparr>uf_path = p, uf_digest = d, uf_size = i64_wrap (int (length data)), uf_is_executable = x\<rparr>,
                                      po_digests = [d]\<rparr>), blobs_add d (FileSource p) bs)))"

fun plan_outputs ::
  "(bytes \<Rightarrow> string) \<Rightarrow> (bytes \<Rightarrow> bytes) \<Rightarrow> (directory \<Rightarrow> bytes) \<Rightarrow> (tree \<Rightarrow> bytes) \<Rightarrow> (string \<Rightarrow> bool) \<Rightarrow> (string \<Rightarrow> fnode option) \<Rightarrow>
   (string \<times> bool) list \<Rightarrow> blobs \<Rightarrow> planned_output list \<times> (string \<times> string) list \<times> blobs" where
  "plan_outputs hex_encode sha256 encode encode_tree io node_at [] bs = ([], [], bs)"
| "plan_outputs hex_encode sha256 encode encode_tree io node_at (decl # decls) bs =
     (case plan_output hex_encode sha256 encode encode_tree io node_at decl bs of (r, bs1) \<Rightarrow>
      case plan_outputs hex_encode sha256 encode encode_tree io node_at decls bs1 of (planned, errs, bs2) \<Rightarrow>
        (case r of
           Inl e \<Rightarrow> (planned, (fst decl, cas_error_text e) # errs, bs2)
         | Inr None \<Rightarrow> (planned, errs, bs2)
         | Inr (Some q) \<Rightarrow> (q # planned, errs, bs2)))"

section \<open>Sending\<close>

fun batches_loop :: "int \<Rightarrow> digest_info list \<Rightarrow> digest_info list \<Rightarrow> int \<Rightarrow> digest_info list list" where
  "batches_loop limit [] batch n = (if batch = [] then [] else [batch])"
| "batches_loop limit (d # ds) batch n =
     (if batch \<noteq> [] \<and> n + dsize d > limit then batch # batches_loop limit ds [d] (dsize d)
      else batches_loop limit ds (batch @ [d]) (n + dsize d))"

definition batches_of :: "digest_info list \<Rightarrow> int \<Rightarrow> digest_info list list" where
  "batches_of ds limit = batches_loop limit ds [] 0"

datatype send_job = Streamed digest_info | Batched "digest_info list"

text \<open>\<open>find_missing\<close> answers with digests it was asked for, so a blob that is sent has its source.\<close>

definition source_of :: "blobs \<Rightarrow> digest_info \<Rightarrow> blob_source" where
  "source_of bs d = the (map_of bs d)"

definition send_streamed ::
  "(string \<Rightarrow> bytes option) \<Rightarrow> 's cas_ops \<Rightarrow> nat \<Rightarrow> digest_info \<Rightarrow> blob_source \<Rightarrow> 's \<Rightarrow> (digest_info \<times> string) list \<times> 's" where
  "send_streamed rd ops chunk d src s =
     (case (case src of
              FileSource p \<Rightarrow>
                (case rd p of
                   None \<Rightarrow> (Inl Io, s)
                 | Some data \<Rightarrow> cb_write_stream ops d (map Inr (chunks_of chunk data)) s)
            | BytesSource data \<Rightarrow> cb_write ops d data s) of
        (Inr _, s1) \<Rightarrow> ([], s1)
      | (Inl e, s1) \<Rightarrow> ([(d, cas_error_text e)], s1))"

fun batch_items :: "(string \<Rightarrow> bytes option) \<Rightarrow> blobs \<Rightarrow> digest_info list \<Rightarrow> (digest_info \<times> bytes) list \<times> (digest_info \<times> string) list" where
  "batch_items rd bs [] = ([], [])"
| "batch_items rd bs (d # ds) =
     (case batch_items rd bs ds of (pairs, failed) \<Rightarrow>
        (case source_of bs d of
           BytesSource data \<Rightarrow> ((d, data) # pairs, failed)
         | FileSource p \<Rightarrow>
             (case rd p of
                Some data \<Rightarrow> ((d, data) # pairs, failed)
              | None \<Rightarrow> (pairs, (d, cas_error_text Io) # failed))))"

definition send_batch ::
  "(string \<Rightarrow> bytes option) \<Rightarrow> ((digest_info \<times> bytes) list \<Rightarrow> 's \<Rightarrow> (digest_info \<times> unit cas_result) list cas_result \<times> 's) \<Rightarrow>
   digest_info list \<Rightarrow> blobs \<Rightarrow> 's \<Rightarrow> (digest_info \<times> string) list \<times> 's" where
  "send_batch rd batch_write_op batch bs s =
     (case batch_items rd bs batch of (pairs, failed) \<Rightarrow>
        (case batch_write_op pairs s of
           (Inr outcomes, s1) \<Rightarrow>
             (failed @ List.map_filter (\<lambda>(d, q). case q of Inl e \<Rightarrow> Some (d, cas_error_text e) | Inr _ \<Rightarrow> None) outcomes, s1)
         | (Inl e, s1) \<Rightarrow> (failed @ map (\<lambda>(d, _). (d, cas_error_text e)) pairs, s1)))"

fun run_jobs ::
  "(string \<Rightarrow> bytes option) \<Rightarrow> 's cas_ops \<Rightarrow> ((digest_info \<times> bytes) list \<Rightarrow> 's \<Rightarrow> (digest_info \<times> unit cas_result) list cas_result \<times> 's) \<Rightarrow>
   nat \<Rightarrow> blobs \<Rightarrow> send_job list \<Rightarrow> (digest_info \<times> string) list \<Rightarrow> 's \<Rightarrow> (digest_info \<times> string) list \<times> 's" where
  "run_jobs rd ops batch_write_op chunk bs [] failed s = (failed, s)"
| "run_jobs rd ops batch_write_op chunk bs (job # jobs) failed s =
     (case (case job of
              Streamed d \<Rightarrow> send_streamed rd ops chunk d (source_of bs d) s
            | Batched batch \<Rightarrow> send_batch rd batch_write_op batch bs s) of
        (new, s1) \<Rightarrow> run_jobs rd ops batch_write_op chunk bs jobs (failed @ new) s1)"

fun find_chunks ::
  "'s cas_ops \<Rightarrow> digest_info list list \<Rightarrow> 's \<Rightarrow> digest_info list \<times> (digest_info \<times> string) list \<times> 's" where
  "find_chunks ops [] s = ([], [], s)"
| "find_chunks ops (chunk # chunks) s =
     (case cb_find_missing ops chunk s of (r, s1) \<Rightarrow>
      case find_chunks ops chunks s1 of (missing, failed, s2) \<Rightarrow>
        (case r of
           Inr found \<Rightarrow> (found @ missing, failed, s2)
         | Inl e \<Rightarrow> (missing, map (\<lambda>d. (d, ''FindMissingBlobs failed: '' @ cas_error_text e)) chunk @ failed, s2)))"

text \<open>The failures are a list here where the code has a map; the reason that counts is the last one.\<close>

definition send_missing ::
  "(string \<Rightarrow> bytes option) \<Rightarrow> 's cas_ops \<Rightarrow> ((digest_info \<times> bytes) list \<Rightarrow> 's \<Rightarrow> (digest_info \<times> unit cas_result) list cas_result \<times> 's) \<Rightarrow>
   (send_job list \<Rightarrow> send_job list) \<Rightarrow> nat \<Rightarrow> bool \<Rightarrow> int \<Rightarrow> blobs \<Rightarrow> 's \<Rightarrow> (digest_info \<times> string) list \<times> 's" where
  "send_missing rd ops batch_write_op sched chunk skip_existing limit bs s =
     (let (missing, failed, s1) = (if skip_existing then find_chunks ops (chunks_of FIND_MISSING_CHUNK (map fst bs)) s else (map fst bs, [], s));
          large = filter (\<lambda>d. dsize d > limit) missing;
          small = filter (\<lambda>d. \<not> dsize d > limit) missing
      in run_jobs rd ops batch_write_op chunk bs (sched (map Streamed large @ map Batched (batches_of small limit))) failed s1)"

definition reason_of :: "(digest_info \<times> string) list \<Rightarrow> digest_info \<Rightarrow> string option" where
  "reason_of failed d = map_of (rev failed) d"

fun report :: "(digest_info \<times> string) list \<Rightarrow> planned_output list \<Rightarrow> upload_result \<Rightarrow> upload_result" where
  "report failed [] r = r"
| "report failed (q # qs) r =
     report failed qs
       (case List.map_filter (reason_of failed) (po_digests q) of
          e # _ \<Rightarrow> r\<lparr>up_errors := up_errors r @ [(planned_path (po_kind q), e)]\<rparr>
        | [] \<Rightarrow>
            (case po_kind q of
               PlannedFile f \<Rightarrow>
                 (if uf_size f = 0 then r\<lparr>up_cached_files := up_cached_files r + 1, up_files := up_files r @ [f]\<rparr>
                  else r\<lparr>up_bytes_uploaded := up_bytes_uploaded r + nat (uf_size f), up_files := up_files r @ [f]\<rparr>)
             | PlannedDirectory d \<Rightarrow> r\<lparr>up_directories := up_directories r @ [d]\<rparr>
             | PlannedSymlink l \<Rightarrow> r\<lparr>up_symlinks := up_symlinks r @ [l]\<rparr>))"

definition upload_outputs ::
  "(bytes \<Rightarrow> string) \<Rightarrow> (bytes \<Rightarrow> bytes) \<Rightarrow> (directory \<Rightarrow> bytes) \<Rightarrow> (tree \<Rightarrow> bytes) \<Rightarrow> (string \<Rightarrow> bool) \<Rightarrow> (string \<Rightarrow> fnode option) \<Rightarrow>
   (string \<Rightarrow> bytes option) \<Rightarrow> 's cas_ops \<Rightarrow> ((digest_info \<times> bytes) list \<Rightarrow> 's \<Rightarrow> (digest_info \<times> unit cas_result) list cas_result \<times> 's) \<Rightarrow>
   (send_job list \<Rightarrow> send_job list) \<Rightarrow> nat \<Rightarrow> bool \<Rightarrow> int \<Rightarrow> string list \<Rightarrow> string list \<Rightarrow> 's \<Rightarrow> upload_result \<times> 's" where
  "upload_outputs hex_encode sha256 encode encode_tree io node_at rd ops batch_write_op sched chunk skip_existing limit files dirs s =
     (case plan_outputs hex_encode sha256 encode encode_tree io node_at (map (\<lambda>p. (p, False)) files @ map (\<lambda>p. (p, True)) dirs) [] of
        (planned, errs, bs) \<Rightarrow>
          (case send_missing rd ops batch_write_op sched chunk skip_existing limit bs s of (failed, s1) \<Rightarrow>
             (report failed planned
                \<lparr>up_files = [], up_directories = [], up_symlinks = [], up_bytes_uploaded = 0, up_cached_files = 0, up_errors = errs\<rparr>,
              s1)))"

definition upload_file ::
  "(bytes \<Rightarrow> string) \<Rightarrow> (bytes \<Rightarrow> bytes) \<Rightarrow> (string \<Rightarrow> bool) \<Rightarrow> (string \<Rightarrow> bytes option) \<Rightarrow> 's cas_ops \<Rightarrow>
   ((digest_info \<times> bytes) list \<Rightarrow> 's \<Rightarrow> (digest_info \<times> unit cas_result) list cas_result \<times> 's) \<Rightarrow> (send_job list \<Rightarrow> send_job list) \<Rightarrow> nat \<Rightarrow>
   bool \<Rightarrow> int \<Rightarrow> string \<Rightarrow> bytes \<Rightarrow> 's \<Rightarrow> digest_info cas_result \<times> 's" where
  "upload_file hex_encode sha256 io rd ops batch_write_op sched chunk skip_existing limit p data s =
     (case hash_file hex_encode sha256 io p data of
        Inl e \<Rightarrow> (Inl e, s)
      | Inr d \<Rightarrow>
          (case send_missing rd ops batch_write_op sched chunk skip_existing limit (blobs_add d (FileSource p) []) s of (failed, s1) \<Rightarrow>
             (case reason_of failed d of None \<Rightarrow> (Inr d, s1) | Some reason \<Rightarrow> (Inl (Storage reason), s1))))"

section \<open>What a plan holds\<close>

lemma entries_induct [case_names Nil Link File Dir]:
  assumes "P []" "\<And>name t es. P es \<Longrightarrow> P ((name, FLink t) # es)" "\<And>name b x es. P es \<Longrightarrow> P ((name, FFile b x) # es)"
    and "\<And>name sub es. P sub \<Longrightarrow> P es \<Longrightarrow> P ((name, FDir sub) # es)"
  shows "P es"
proof (induction es rule: measure_induct_rule [where f = "size_list (size_prod (\<lambda>_. 0) size)"])
  case (less es)
  show ?case
  proof (cases es)
    case (Cons e rest)
    then show ?thesis using less assms(2-4) by (cases e; cases "snd e") auto
  qed (simp add: assms(1))
qed

definition dir_planned :: "digest_info list \<Rightarrow> directory \<Rightarrow> bool" where
  "dir_planned ds dir \<longleftrightarrow> (\<forall>f \<in> set (dir_files dir). \<exists>d \<in> set ds. fm_digest f = Some (digest_msg d))"

definition plan_ok :: "plan_state \<Rightarrow> bool" where
  "plan_ok st \<longleftrightarrow> (\<forall>d \<in> set (ps_digests st). d \<in> fst ` set (ps_blobs st)) \<and> (\<forall>d \<in> fst ` set (ps_blobs st). digest_wf d) \<and>
     (\<forall>dir \<in> set (ps_children st). dir_planned (ps_digests st) dir)"

lemma blobs_add_keys: "fst ` set (blobs_add d src bs) = insert d (fst ` set bs)"
  by (cases "map_of bs d") (auto simp: blobs_add_def dest: map_of_SomeD intro: rev_image_eqI)

lemma dir_planned_mono: "dir_planned ds dir \<Longrightarrow> set ds \<subseteq> set ds' \<Longrightarrow> dir_planned ds' dir"
  unfolding dir_planned_def by blast

lemma add_blob_ok:
  assumes "plan_ok st" "digest_wf d"
  shows "plan_ok (add_blob d src st)"
  using assms dir_planned_mono [of "ps_digests st" _ "ps_digests st @ [d]"]
  by (auto simp: plan_ok_def add_blob_def blobs_add_keys)

lemma hash_file_Inr:
  assumes "sha256_width sha256" "hash_file lower_hex sha256 io p data = Inr d"
  shows "d = \<lparr>hash = sha256 data, dsize = i64_wrap (int (length data))\<rparr> \<and> digest_wf d"
proof -
  have "length (sha256 data) = 32" using assms(1) by (simp add: sha256_width_def)
  then have "parse_sha256 (lower_hex (sha256 data)) = Inr (sha256 data)" by (rule parse_lower_hex)
  then have d: "d = \<lparr>hash = sha256 data, dsize = i64_wrap (int (length data))\<rparr>"
    using assms(2) by (auto simp: hash_file_def digest_new_def split: if_splits)
  moreover have "- (2 ^ 63) \<le> i64_wrap x \<and> i64_wrap x < 2 ^ 63" for x
    using sint_range_size [of "word_of_int x :: 64 word"] by (simp add: i64_wrap_def word_size)
  ultimately show ?thesis using \<open>length (sha256 data) = 32\<close> by (simp add: digest_wf_def)
qed

lemma proto_of_msg: "proto_of lower_hex d = digest_msg d"
  by (simp add: proto_of_def digest_msg_def hash_to_string_def)

lemma dir_planned_sort [simp]: "dir_planned ds (sort_directory dir) = dir_planned ds dir"
  by (simp add: dir_planned_def sort_directory_def)

definition small_encoder :: "('a \<Rightarrow> bytes) \<Rightarrow> bool" where
  "small_encoder encode \<longleftrightarrow> (\<forall>x. length (encode x) < 2 ^ 63)"

definition plan_grows :: "plan_state \<Rightarrow> plan_state \<Rightarrow> bool" where
  "plan_grows st st' \<longleftrightarrow> plan_ok st' \<and> set (ps_digests st) \<subseteq> set (ps_digests st') \<and> fst ` set (ps_blobs st) \<subseteq> fst ` set (ps_blobs st')"

lemma plan_grows_trans: "plan_grows a b \<Longrightarrow> plan_grows b c \<Longrightarrow> plan_grows a c"
  unfolding plan_grows_def by blast

lemma plan_grows_refl: "plan_ok st \<Longrightarrow> plan_grows st st"
  by (simp add: plan_grows_def)

lemma add_blob_grows: "plan_ok st \<Longrightarrow> digest_wf d \<Longrightarrow> plan_grows st (add_blob d src st)"
  using add_blob_ok [of st d src] by (auto simp: plan_grows_def add_blob_def blobs_add_keys)

lemma plan_entries_ok:
  assumes w: "sha256_width sha256" and e: "small_encoder encode"
  shows "plan_entries lower_hex sha256 encode io p es dir n st = (r, st') \<Longrightarrow> plan_ok st \<Longrightarrow> dir_planned (ps_digests st) dir \<Longrightarrow>
    plan_grows st st' \<and> (\<forall>dir' k. r = Inr (dir', k) \<longrightarrow> dir_planned (ps_digests st') dir')"
proof (induction es arbitrary: p dir n st r st' rule: entries_induct)
  case Nil
  then show ?case by (auto simp: plan_grows_def)
next
  case (Link name t es)
  show ?case
  proof (cases "read_link_target io (p @ ''/'' @ name) t")
    case (Inr u)
    have "dir_planned (ps_digests st) (dir\<lparr>dir_symlinks := l\<rparr>)" for l using Link.prems(3) by (simp add: dir_planned_def)
    then show ?thesis using Link.IH [of p _ n st r st'] Link.prems Inr by simp
  qed (use Link.prems in \<open>auto simp: plan_grows_def\<close>)
next
  case (File name b x es)
  show ?case
  proof (cases "hash_file lower_hex sha256 io (p @ ''/'' @ name) b")
    case (Inr d)
    let ?st = "add_blob d (FileSource (p @ ''/'' @ name)) st"
    have g: "plan_grows st ?st" using add_blob_grows [OF File.prems(2)] hash_file_Inr [OF w Inr] by blast
    have "dir_planned (ps_digests ?st) (dir\<lparr>dir_files := dir_files dir @
        [\<lparr>fm_name = name, fm_digest = Some (proto_of lower_hex d), fm_is_executable = x\<rparr>]\<rparr>)"
      using File.prems(3) by (auto simp: dir_planned_def add_blob_def proto_of_msg)
    from File.IH [OF _ _ this, of p "n + 1" r st'] show ?thesis
      using File.prems(1) Inr g plan_grows_trans [OF g] by (simp add: plan_grows_def)
  qed (use File.prems in \<open>auto simp: plan_grows_def\<close>)
next
  case (Dir name sub es)
  define q where "q = p @ ''/'' @ name"
  note run = Dir.prems(1) [unfolded plan_entries.simps, folded q_def]
  obtain r1 st1 where sub: "plan_entries lower_hex sha256 encode io q sub empty_directory 0 st = (r1, st1)" by fastforce
  have "dir_planned (ps_digests st) empty_directory" by (simp add: dir_planned_def empty_directory_def)
  note s1 = Dir.IH(1) [OF sub Dir.prems(2) this]
  show ?case
  proof (cases "io q \<or> (\<exists>e. r1 = Inl e)")
    case True
    then show ?thesis using run plan_grows_refl [OF Dir.prems(2)] sub s1 by (auto split: if_splits)
  next
    case False
    then obtain subdir k where r1: "r1 = Inr (subdir, k)" by (cases r1) auto
    define d where "d = from_bytes sha256 (encode subdir)"
    define st2 where "st2 = add_blob d (BytesSource (encode subdir)) st1"
    have "digest_wf d" using from_bytes_wf [OF w] e by (simp add: d_def small_encoder_def)
    then have g: "plan_grows st1 st2" using add_blob_grows s1 by (simp add: st2_def plan_grows_def)
    let ?st = "st2\<lparr>ps_children := ps_children st2 @ [subdir]\<rparr>"
    have "dir_planned (ps_digests st2) subdir" using s1 r1 g dir_planned_mono by (auto simp: plan_grows_def)
    then have "plan_grows st2 ?st" using g by (auto simp: plan_grows_def plan_ok_def)
    with s1 g have ok: "plan_grows st ?st" using plan_grows_trans by blast
    let ?dir = "dir\<lparr>dir_directories := dir_directories dir @ [\<lparr>dm_name = name, dm_digest = Some (proto_of lower_hex d)\<rparr>]\<rparr>"
    have "dir_planned (ps_digests ?st) ?dir" using dir_planned_mono [OF Dir.prems(3)] ok by (simp add: dir_planned_def plan_grows_def)
    moreover have "plan_entries lower_hex sha256 encode io p es ?dir (n + k) ?st = (r, st')"
      using run False sub r1 by (simp add: Let_def d_def st2_def)
    moreover have "plan_ok ?st" using ok by (simp add: plan_grows_def)
    ultimately show ?thesis using Dir.IH(2) plan_grows_trans [OF ok] by blast
  qed
qed

definition output_planned :: "(bytes \<Rightarrow> bytes) \<Rightarrow> (tree \<Rightarrow> bytes) \<Rightarrow> blobs \<Rightarrow> planned_output \<Rightarrow> bool" where
  "output_planned sha256 encode_tree bs q \<longleftrightarrow> set (po_digests q) \<subseteq> fst ` set bs \<and>
     (\<forall>f. po_kind q = PlannedFile f \<longrightarrow> uf_digest f \<in> set (po_digests q)) \<and>
     (\<forall>u. po_kind q = PlannedDirectory u \<longrightarrow> ud_tree_digest u \<in> set (po_digests q) \<and>
        (\<exists>t. ud_tree_digest u = from_bytes sha256 (encode_tree t) \<and>
           (\<forall>dir \<in> set (option_list (tree_root t) @ tree_children t). dir_planned (po_digests q) dir)))"

definition blobs_wf :: "blobs \<Rightarrow> bool" where
  "blobs_wf bs \<longleftrightarrow> (\<forall>d \<in> fst ` set bs. digest_wf d)"

definition blobs_grow :: "blobs \<Rightarrow> blobs \<Rightarrow> bool" where
  "blobs_grow bs bs' \<longleftrightarrow> blobs_wf bs' \<and> fst ` set bs \<subseteq> fst ` set bs'"

lemma blobs_grow_trans: "blobs_grow a b \<Longrightarrow> blobs_grow b c \<Longrightarrow> blobs_grow a c"
  unfolding blobs_grow_def by blast

lemma blobs_grow_add: "blobs_wf bs \<Longrightarrow> digest_wf d \<Longrightarrow> blobs_grow bs (blobs_add d src bs)"
  by (auto simp: blobs_grow_def blobs_wf_def blobs_add_keys)

lemma output_planned_mono: "output_planned sha256 encode_tree bs q \<Longrightarrow> fst ` set bs \<subseteq> fst ` set bs' \<Longrightarrow> output_planned sha256 encode_tree bs' q"
  unfolding output_planned_def by blast

lemma plan_tree_ok:
  assumes "sha256_width sha256" "small_encoder encode" "blobs_wf bs"
    and "plan_tree lower_hex sha256 encode encode_tree io p es bs = (r, bs')"
  shows "blobs_grow bs bs' \<and> (\<forall>data n ds. r = Inr (data, n, ds) \<longrightarrow> set ds \<subseteq> fst ` set bs' \<and>
    (\<exists>t. data = encode_tree t \<and> (\<forall>dir \<in> set (option_list (tree_root t) @ tree_children t). dir_planned ds dir)))"
proof -
  let ?st = "\<lparr>ps_blobs = bs, ps_digests = [], ps_children = []\<rparr>"
  obtain q st where q: "plan_entries lower_hex sha256 encode io p es empty_directory 0 ?st = (q, st)" by fastforce
  have "plan_ok ?st" "dir_planned (ps_digests ?st) empty_directory"
    using assms(3) by (simp_all add: plan_ok_def blobs_wf_def dir_planned_def empty_directory_def)
  note ok = plan_entries_ok [OF assms(1,2) q this]
  then have g: "blobs_grow bs (ps_blobs st)" by (simp add: plan_grows_def plan_ok_def blobs_grow_def blobs_wf_def)
  show ?thesis
  proof (cases q)
    case (Inr x)
    obtain dir n where x: "x = (dir, n)" by fastforce
    have "dir_planned (ps_digests st) d" if "d \<in> set (option_list (Some dir) @ ps_children st)" for d
      using ok Inr x that by (auto simp: plan_grows_def plan_ok_def option_list_def)
    moreover have "set (ps_digests st) \<subseteq> fst ` set (ps_blobs st)" using ok by (auto simp: plan_grows_def plan_ok_def)
    ultimately show ?thesis
      using assms(3,4) q Inr x g
      by (auto simp: plan_tree_def blobs_grow_def split: if_splits intro!: exI [of _ "\<lparr>tree_root = Some dir, tree_children = ps_children st\<rparr>"])
  qed (use assms(3,4) q g in \<open>auto simp: plan_tree_def blobs_grow_def split: if_splits\<close>)
qed

lemma plan_output_ok:
  assumes w: "sha256_width sha256" and e: "small_encoder encode" "small_encoder encode_tree" and bs: "blobs_wf bs"
    and run: "plan_output lower_hex sha256 encode encode_tree io node_at decl bs = (r, bs')"
  shows "blobs_grow bs bs' \<and> (\<forall>q. r = Inr (Some q) \<longrightarrow> output_planned sha256 encode_tree bs' q)"
proof -
  obtain p dd where decl: "decl = (p, dd)" by fastforce
  have refl: "blobs_grow bs bs" using bs by (simp add: blobs_grow_def)
  show ?thesis
  proof (cases "io p \<or> node_at p = None")
    case True
    then show ?thesis using run refl by (auto simp: plan_output_def decl split: if_splits)
  next
    case False
    then obtain node where node: "\<not> io p" "node_at p = Some node" by auto
    show ?thesis
    proof (cases node)
      case (FFile data x)
      show ?thesis
      proof (cases "hash_file lower_hex sha256 io p data")
        case (Inr d)
        then have "digest_wf d" using hash_file_Inr [OF w] by blast
        from blobs_grow_add [OF bs this] show ?thesis
          using run node FFile Inr refl by (auto simp: plan_output_def decl output_planned_def blobs_add_keys split: if_splits)
      qed (use run node FFile refl in \<open>auto simp: plan_output_def decl split: if_splits\<close>)
    next
      case (FLink t)
      then show ?thesis using run node refl by (auto simp: plan_output_def decl output_planned_def read_link_target_def)
    next
      case (FDir es)
      obtain q bs1 where q: "plan_tree lower_hex sha256 encode encode_tree io p es bs = (q, bs1)" by fastforce
      note ok = plan_tree_ok [OF w e(1) bs q]
      show ?thesis
      proof (cases q)
        case (Inr y)
        obtain data n ds where y: "y = (data, n, ds)" by (metis prod_cases3)
        obtain t where t: "data = encode_tree t" "\<forall>dir \<in> set (option_list (tree_root t) @ tree_children t). dir_planned ds dir"
          and ds: "set ds \<subseteq> fst ` set bs1" using ok Inr y by blast
        define d where "d = from_bytes sha256 data"
        have "digest_wf d" using from_bytes_wf [OF w] e(2) by (simp add: d_def t(1) small_encoder_def)
        then have g: "blobs_grow bs1 (blobs_add d (BytesSource data) bs1)" using blobs_grow_add ok by (simp add: blobs_grow_def)
        have "dir_planned (ds @ [d]) dir" if "dir \<in> set (option_list (tree_root t) @ tree_children t)" for dir
          using t(2) that dir_planned_mono [of ds dir "ds @ [d]"] by auto
        then have "output_planned sha256 encode_tree (blobs_add d (BytesSource data) bs1)
            \<lparr>po_kind = PlannedDirectory \<lparr>ud_path = p, ud_tree_digest = d, ud_file_count = n\<rparr>, po_digests = ds @ [d]\<rparr>"
          using ds by (auto simp: output_planned_def blobs_add_keys d_def t(1))
        moreover have "blobs_grow bs (blobs_add d (BytesSource data) bs1)" using ok g blobs_grow_trans by blast
        ultimately show ?thesis using run node FDir q Inr y by (auto simp: plan_output_def decl Let_def d_def)
      qed (use run node FDir q ok in \<open>auto simp: plan_output_def decl\<close>)
    qed
  qed
qed

lemma plan_outputs_ok:
  assumes "sha256_width sha256" "small_encoder encode" "small_encoder encode_tree"
  shows "blobs_wf bs \<Longrightarrow> plan_outputs lower_hex sha256 encode encode_tree io node_at decls bs = (planned, errs, bs') \<Longrightarrow>
    blobs_grow bs bs' \<and> (\<forall>q \<in> set planned. output_planned sha256 encode_tree bs' q)"
proof (induction decls arbitrary: bs planned errs bs')
  case Nil
  then show ?case by (simp add: blobs_grow_def)
next
  case (Cons decl decls)
  obtain r bs1 where r: "plan_output lower_hex sha256 encode encode_tree io node_at decl bs = (r, bs1)" by fastforce
  obtain pl er bs2 where rest: "plan_outputs lower_hex sha256 encode encode_tree io node_at decls bs1 = (pl, er, bs2)" by (metis prod_cases3)
  note one = plan_output_ok [OF assms Cons.prems(1) r]
  then have "blobs_wf bs1" by (simp add: blobs_grow_def)
  note tl = Cons.IH [OF this rest]
  have run: "(case r of Inl e \<Rightarrow> (pl, (fst decl, cas_error_text e) # er, bs2) | Inr None \<Rightarrow> (pl, er, bs2)
      | Inr (Some q) \<Rightarrow> (q # pl, er, bs2)) = (planned, errs, bs')"
    using Cons.prems(2) by (simp add: r rest)
  have bs': "bs2 = bs'" and sub: "set planned \<subseteq> set pl \<union> {q. r = Inr (Some q)}"
    using run by (cases r; cases "projr r"; simp; fail | auto split: sum.splits option.splits)+
  have "output_planned sha256 encode_tree bs2 q" if "r = Inr (Some q)" for q
    using one tl output_planned_mono [of sha256 encode_tree bs1 q bs2] that by (simp add: blobs_grow_def)
  moreover have "blobs_grow bs bs2" using one tl blobs_grow_trans by blast
  moreover note sub
  ultimately show ?case using tl bs' by blast
qed

definition small_sources :: "blobs \<Rightarrow> bool" where
  "small_sources bs \<longleftrightarrow> (\<forall>d b. (d, BytesSource b) \<in> set bs \<longrightarrow> length b < 2 ^ 63)"

lemma small_sources_add:
  "small_sources bs \<Longrightarrow> (\<And>b. src = BytesSource b \<Longrightarrow> length b < 2 ^ 63) \<Longrightarrow> small_sources (blobs_add d src bs)"
  by (auto simp: small_sources_def blobs_add_def)

lemma plan_entries_sources:
  assumes e: "small_encoder encode"
  shows "plan_entries lower_hex sha256 encode io p es dir n st = (r, st') \<Longrightarrow> small_sources (ps_blobs st) \<Longrightarrow> small_sources (ps_blobs st')"
proof (induction es arbitrary: p dir n st r st' rule: entries_induct)
  case (Dir name sub es)
  define q where "q = p @ ''/'' @ name"
  note run = Dir.prems(1) [unfolded plan_entries.simps, folded q_def]
  obtain r1 st1 where sub: "plan_entries lower_hex sha256 encode io q sub empty_directory 0 st = (r1, st1)" by fastforce
  note s1 = Dir.IH(1) [OF sub Dir.prems(2)]
  show ?case
  proof (cases "io q \<or> (\<exists>e. r1 = Inl e)")
    case True
    then show ?thesis using run Dir.prems(2) sub s1 by (auto split: if_splits)
  next
    case False
    then obtain subdir k where r1: "r1 = Inr (subdir, k)" by (cases r1) auto
    have "small_sources (ps_blobs (add_blob d (BytesSource (encode subdir)) st1))" for d
      using small_sources_add [OF s1, of "BytesSource (encode subdir)"] e by (simp add: add_blob_def small_encoder_def)
    then show ?thesis using Dir.IH(2) run False sub r1 by (simp add: Let_def)
  qed
next
  case (Link name t es)
  then show ?case by (cases "read_link_target io (p @ ''/'' @ name) t") simp_all
next
  case (File name b x es)
  have "small_sources (ps_blobs (add_blob d (FileSource q) st))" for d q
    using small_sources_add [OF File.prems(2), of "FileSource q"] by (simp add: add_blob_def)
  then show ?case using File by (cases "hash_file lower_hex sha256 io (p @ ''/'' @ name) b") simp_all
qed simp

lemma plan_output_sources:
  assumes "small_encoder encode" "small_encoder encode_tree" "small_sources bs"
    and "plan_output lower_hex sha256 encode encode_tree io node_at decl bs = (r, bs')"
  shows "small_sources bs'"
proof -
  have "small_sources (ps_blobs st)"
    if "plan_entries lower_hex sha256 encode io p es empty_directory 0 \<lparr>ps_blobs = bs, ps_digests = [], ps_children = []\<rparr> = (q, st)" for p es q st
    using plan_entries_sources [OF assms(1) that] assms(3) by simp
  then have tree: "small_sources bs1" if "plan_tree lower_hex sha256 encode encode_tree io p es bs = (q, bs1)" for p es q bs1
    using that assms(3) by (auto simp: plan_tree_def split: if_splits prod.splits sum.splits)
  have bytes: "length data < 2 ^ 63" if "plan_tree lower_hex sha256 encode encode_tree io p es bs = (Inr (data, y), bs1)" for p es data y bs1
    using that assms(2) by (auto simp: plan_tree_def small_encoder_def split: if_splits prod.splits sum.splits)
  show ?thesis
    using assms(3,4) tree bytes
    by (auto simp: plan_output_def Let_def intro!: small_sources_add
        split: if_splits prod.splits sum.splits option.splits fnode.splits)
qed

lemma plan_outputs_sources:
  assumes "small_encoder encode" "small_encoder encode_tree"
  shows "small_sources bs \<Longrightarrow> plan_outputs lower_hex sha256 encode encode_tree io node_at decls bs = (planned, errs, bs') \<Longrightarrow> small_sources bs'"
proof (induction decls arbitrary: bs planned errs bs')
  case (Cons decl decls)
  obtain r bs1 where r: "plan_output lower_hex sha256 encode encode_tree io node_at decl bs = (r, bs1)" by fastforce
  obtain pl er bs2 where rest: "plan_outputs lower_hex sha256 encode encode_tree io node_at decls bs1 = (pl, er, bs2)" by (metis prod_cases3)
  have "small_sources bs2" using Cons.IH [OF _ rest] plan_output_sources [OF assms Cons.prems(1) r] by blast
  moreover have "bs2 = bs'" using Cons.prems(2) r rest by (simp split: sum.splits option.splits)
  ultimately show ?case by simp
qed simp

section \<open>Batches\<close>

lemma batches_loop_concat: "concat (batches_loop limit ds batch n) = batch @ ds"
  by (induction limit ds batch n rule: batches_loop.induct) auto

text \<open>A batch is not empty and the sizes of its blobs add up to at most the limit.\<close>

definition batch_fits :: "int \<Rightarrow> digest_info list \<Rightarrow> bool" where
  "batch_fits limit b \<longleftrightarrow> b \<noteq> [] \<and> sum_list (map dsize b) \<le> limit"

lemma batches_loop_fit:
  "\<forall>d \<in> set ds. dsize d \<le> limit \<Longrightarrow> sum_list (map dsize batch) \<le> limit \<or> batch = [] \<Longrightarrow>
   b \<in> set (batches_loop limit ds batch (sum_list (map dsize batch))) \<Longrightarrow> batch_fits limit b"
proof (induction ds arbitrary: batch)
  case Nil
  then show ?case by (auto simp: batch_fits_def split: if_splits)
next
  case (Cons d ds)
  show ?case
  proof (cases "batch \<noteq> [] \<and> sum_list (map dsize batch) + dsize d > limit")
    case True
    then have "b = batch \<or> b \<in> set (batches_loop limit ds [d] (sum_list (map dsize [d])))" using Cons.prems(3) by simp
    then show ?thesis using Cons.IH [of "[d]"] Cons.prems(1,2) True by (auto simp: batch_fits_def)
  next
    case False
    then have "b \<in> set (batches_loop limit ds (batch @ [d]) (sum_list (map dsize (batch @ [d]))))" using Cons.prems(3) by auto
    moreover have "sum_list (map dsize (batch @ [d])) \<le> limit" using False Cons.prems(1) by (cases "batch = []") auto
    ultimately show ?thesis using Cons.IH [of "batch @ [d]"] Cons.prems(1) by simp
  qed
qed

lemma batches_of_spec:
  assumes "\<forall>d \<in> set ds. dsize d \<le> limit"
  shows "concat (batches_of ds limit) = ds \<and> (\<forall>b \<in> set (batches_of ds limit). batch_fits limit b)"
  using batches_loop_concat [of limit ds "[]" 0] batches_loop_fit [OF assms, of "[]"] by (simp add: batches_of_def)

section \<open>What is sent is stored\<close>

definition job_digests :: "send_job \<Rightarrow> digest_info set" where
  "job_digests job = (case job of Streamed d \<Rightarrow> {d} | Batched batch \<Rightarrow> set batch)"

lemma jobs_cover:
  assumes "\<And>js. mset (sched js) = mset js"
  shows "(\<Union>job \<in> set (sched (map Streamed (filter (\<lambda>d. dsize d > limit) ds) @
      map Batched (batches_of (filter (\<lambda>d. \<not> dsize d > limit) ds) limit))). job_digests job) = set ds"
proof -
  define small where "small = filter (\<lambda>d. \<not> dsize d > limit) ds"
  have batches: "(\<Union>batch \<in> set (batches_of small limit). set batch) = set small"
    using arg_cong [OF batches_loop_concat [of limit small "[]" 0], of set] by (simp add: batches_of_def)
  have sched_set: "set (sched js) = set js" for js using arg_cong [OF assms, of set_mset] by simp
  show ?thesis
    using batches unfolding sched_set small_def [symmetric] by (auto simp: job_digests_def small_def)
qed

context durable_backend
begin

text \<open>A step of a sender: it keeps the blobs of a set in which a hash has one size.\<close>

definition send_step :: "digest_info set \<Rightarrow> 's \<Rightarrow> 's \<Rightarrow> bool" where
  "send_step D s s' \<longleftrightarrow> ok s' \<and> (\<forall>e \<in> D. present holds s e \<longrightarrow> present holds s' e)"

lemma send_step_trans: "send_step D a b \<Longrightarrow> send_step D b c \<Longrightarrow> send_step D a c"
  by (simp add: send_step_def)

lemma send_step_same: "ok s' \<Longrightarrow> holds s' = holds s \<Longrightarrow> send_step D s s'"
  using present_cong [of s' s] by (simp add: send_step_def)

lemma write_step:
  assumes "\<forall>d \<in> D. digest_wf d" "\<forall>d \<in> D. \<forall>e \<in> D. hash d = hash e \<longrightarrow> d = e" "d \<in> D" "length b < 2 ^ 63" "ok s"
    and "cb_write ops d b s = (w, s')"
  shows "send_step D s s' \<and> (w = Inr () \<longrightarrow> present holds s' d)"
proof -
  have wf: "digest_wf d" using assms(1,3) by blast
  have "ok s'" using write_ok [OF assms(5) wf assms(4)] assms(6) by (metis snd_conv)
  moreover have "present holds s' e" if "e \<in> D" "present holds s e" for e
    using write_keeps [OF assms(5) wf _ assms(4) that(2)] assms(1,2,3,6) that(1) by (metis snd_conv)
  ultimately show ?thesis using write_stores [OF assms(5) wf assms(4)] assms(6) by (auto simp: send_step_def)
qed

lemma write_stream_step:
  assumes "\<forall>d \<in> D. digest_wf d" "\<forall>d \<in> D. \<forall>e \<in> D. hash d = hash e \<longrightarrow> d = e" "d \<in> D" "length b < 2 ^ 63" "ok s"
    and "cb_write_stream ops d (map Inr (chunks_of n b)) s = (w, s')"
  shows "send_step D s s' \<and> (w = Inr () \<longrightarrow> present holds s' d)"
proof -
  have wf: "digest_wf d" using assms(1,3) by blast
  have small: "length x < 2 ^ 63" if "stream_data (map Inr (chunks_of n b)) = Some x" for x
    using that assms(4) by (cases "n = 0") (auto simp: stream_data_chunks concat_chunks chunks_of.simps [of 0])
  have "ok s'" using write_stream_ok [OF assms(5) wf small] assms(6) by (metis snd_conv)
  moreover have "present holds s' e" if "e \<in> D" "present holds s e" for e
    using write_stream_keeps [OF assms(5) wf _ small that(2)] assms(1,2,3,6) that(1) by (metis snd_conv)
  ultimately show ?thesis using write_stream_stores [OF assms(5) wf small] assms(6) by (auto simp: send_step_def)
qed

lemma batch_write_step:
  assumes D: "\<forall>d \<in> D. digest_wf d" "\<forall>d \<in> D. \<forall>e \<in> D. hash d = hash e \<longrightarrow> d = e"
  shows "batch_write (cb_write ops) ps s = (rs, s') \<Longrightarrow> ok s \<Longrightarrow> \<forall>(d, b) \<in> set ps. d \<in> D \<and> length b < 2 ^ 63 \<Longrightarrow>
    send_step D s s' \<and> map fst rs = map fst ps \<and> (\<forall>d. (d, Inr ()) \<in> set rs \<longrightarrow> present holds s' d)"
proof (induction ps arbitrary: s rs s')
  case (Cons p ps)
  obtain d b where p: "p = (d, b)" by fastforce
  obtain w s1 where w: "cb_write ops d b s = (w, s1)" by fastforce
  obtain rest s2 where rest: "batch_write (cb_write ops) ps s1 = (rest, s2)" by fastforce
  have d: "d \<in> D" "length b < 2 ^ 63" using Cons.prems(3) p by auto
  note one = write_step [OF D d(1,2) Cons.prems(2) w]
  then have "ok s1" by (simp add: send_step_def)
  from Cons.IH [OF rest this] Cons.prems(3) have tl: "send_step D s1 s2" "map fst rest = map fst ps" "\<And>e. (e, Inr ()) \<in> set rest \<Longrightarrow> present holds s2 e"
    by auto
  have "w = Inr () \<Longrightarrow> present holds s2 d" using one tl(1) d(1) by (simp add: send_step_def)
  then show ?case using Cons.prems(1) p w rest tl send_step_trans one by auto
qed (simp add: send_step_def)

lemma send_streamed_step:
  assumes D: "\<forall>d \<in> D. digest_wf d" "\<forall>d \<in> D. \<forall>e \<in> D. hash d = hash e \<longrightarrow> d = e" and d: "d \<in> D" "ok s"
    and small: "\<And>p b. rd p = Some b \<Longrightarrow> length b < 2 ^ 63" "\<And>b. src = BytesSource b \<Longrightarrow> length b < 2 ^ 63"
    and run: "send_streamed rd ops chunk d src s = (failed, s')"
  shows "send_step D s s' \<and> (present holds s' d \<or> d \<in> fst ` set failed)"
proof -
  obtain w s1 where w: "(case src of FileSource p \<Rightarrow> (case rd p of None \<Rightarrow> (Inl Io, s)
      | Some data \<Rightarrow> cb_write_stream ops d (map Inr (chunks_of chunk data)) s) | BytesSource data \<Rightarrow> cb_write ops d data s) = (w, s1)"
    by fastforce
  have "send_step D s s1 \<and> (w = Inr () \<longrightarrow> present holds s1 d)"
  proof (cases src)
    case (FileSource p)
    show ?thesis
    proof (cases "rd p")
      case None
      then show ?thesis using w FileSource d(2) by (auto simp: send_step_def)
    next
      case (Some b)
      have "cb_write_stream ops d (map Inr (chunks_of chunk b)) s = (w, s1)" using w FileSource Some by simp
      from write_stream_step [OF D d(1) small(1) [OF Some] d(2) this] show ?thesis .
    qed
  next
    case (BytesSource b)
    have "cb_write ops d b s = (w, s1)" using w BytesSource by simp
    from write_step [OF D d(1) small(2) [OF BytesSource] d(2) this] show ?thesis .
  qed
  moreover have "s' = s1" "w \<noteq> Inr () \<Longrightarrow> d \<in> fst ` set failed"
    using run unfolding send_streamed_def w by (auto split: sum.splits)
  ultimately show ?thesis by blast
qed

lemma send_batch_step:
  assumes D: "\<forall>d \<in> D. digest_wf d" "\<forall>d \<in> D. \<forall>e \<in> D. hash d = hash e \<longrightarrow> d = e" and batch: "set batch \<subseteq> D" "ok s"
    and small: "\<And>p b. rd p = Some b \<Longrightarrow> length b < 2 ^ 63" "\<And>d b. d \<in> D \<Longrightarrow> source_of bs d = BytesSource b \<Longrightarrow> length b < 2 ^ 63"
    and run: "send_batch rd (default_batch_write ops) batch bs s = (failed, s')"
  shows "send_step D s s' \<and> (\<forall>d \<in> set batch. present holds s' d \<or> d \<in> fst ` set failed)"
proof -
  obtain pairs unread where i: "batch_items rd bs batch = (pairs, unread)" by fastforce
  have items: "(\<forall>(d, b) \<in> set pairs. d \<in> D \<and> length b < 2 ^ 63) \<and> (\<forall>d \<in> set batch. d \<in> fst ` set pairs \<or> d \<in> fst ` set unread)"
    using batch(1) i
  proof (induction batch arbitrary: pairs unread)
    case (Cons d ds)
    obtain ps us where tl: "batch_items rd bs ds = (ps, us)" by fastforce
    note ih = Cons.IH [OF _ tl]
    show ?case
      using ih Cons.prems tl small by (cases "source_of bs d") (auto split: option.splits)
  qed simp
  obtain rs s1 where w: "batch_write (cb_write ops) pairs s = (rs, s1)" by fastforce
  have sent: "send_step D s s1" "map fst rs = map fst pairs" "\<And>d. (d, Inr ()) \<in> set rs \<Longrightarrow> present holds s1 d"
    using batch_write_step [OF D w batch(2)] items by simp_all
  from arg_cong [OF sent(2), of set] have keys: "fst ` set rs = fst ` set pairs" by simp
  have f: "failed = unread @ List.map_filter (\<lambda>(d, q). case q of Inl e \<Rightarrow> Some (d, cas_error_text e) | Inr _ \<Rightarrow> None) rs" "s' = s1"
    using run by (simp_all add: send_batch_def i default_batch_write_def w)
  have "present holds s1 d \<or> d \<in> fst ` set failed" if "d \<in> fst ` set pairs" for d
  proof -
    from that have "d \<in> fst ` set rs" by (simp add: keys)
    then obtain q where q: "(d, q) \<in> set rs" by auto
    show ?thesis
    proof (cases q)
      case (Inl e)
      have "(d, cas_error_text e) \<in> set failed" using q Inl f(1) by (force simp: List.map_filter_def)
      then show ?thesis by force
    next
      case (Inr u)
      then show ?thesis using q sent(3) by simp
    qed
  qed
  moreover have "fst ` set unread \<subseteq> fst ` set failed" unfolding f(1) by auto
  ultimately show ?thesis using items sent(1) f(2) by blast
qed

lemma run_jobs_step:
  assumes D: "\<forall>d \<in> D. digest_wf d" "\<forall>d \<in> D. \<forall>e \<in> D. hash d = hash e \<longrightarrow> d = e"
    and small: "\<And>p b. rd p = Some b \<Longrightarrow> length b < 2 ^ 63" "\<And>d b. d \<in> D \<Longrightarrow> source_of bs d = BytesSource b \<Longrightarrow> length b < 2 ^ 63"
  shows "run_jobs rd ops (default_batch_write ops) chunk bs jobs failed s = (failed', s') \<Longrightarrow> ok s \<Longrightarrow> \<forall>job \<in> set jobs. job_digests job \<subseteq> D \<Longrightarrow>
    send_step D s s' \<and> fst ` set failed \<subseteq> fst ` set failed' \<and>
    (\<forall>job \<in> set jobs. \<forall>d \<in> job_digests job. present holds s' d \<or> d \<in> fst ` set failed')"
proof (induction jobs arbitrary: failed s)
  case Nil
  then show ?case by (auto simp: send_step_def)
next
  case (Cons job jobs)
  obtain new s1 where one: "(case job of Streamed d \<Rightarrow> send_streamed rd ops chunk d (source_of bs d) s
      | Batched batch \<Rightarrow> send_batch rd (default_batch_write ops) batch bs s) = (new, s1)" by fastforce
  have first: "send_step D s s1 \<and> (\<forall>d \<in> job_digests job. present holds s1 d \<or> d \<in> fst ` set new)"
  proof (cases job)
    case (Streamed d)
    have d: "d \<in> D" using Cons.prems(3) Streamed by (simp add: job_digests_def)
    have "send_streamed rd ops chunk d (source_of bs d) s = (new, s1)" using one Streamed by simp
    from send_streamed_step [OF D d Cons.prems(2) small(1) small(2) [OF d] this] Streamed show ?thesis by (simp add: job_digests_def)
  next
    case (Batched batch)
    have d: "set batch \<subseteq> D" using Cons.prems(3) Batched by (simp add: job_digests_def)
    have "send_batch rd (default_batch_write ops) batch bs s = (new, s1)" using one Batched by simp
    from send_batch_step [OF D d Cons.prems(2) small this] Batched show ?thesis by (simp add: job_digests_def)
  qed
  have run: "run_jobs rd ops (default_batch_write ops) chunk bs jobs (failed @ new) s1 = (failed', s')"
    using Cons.prems(1) unfolding run_jobs.simps one by simp
  have "ok s1" using first by (simp add: send_step_def)
  from Cons.IH [OF run this] have rest: "send_step D s1 s'" "fst ` set (failed @ new) \<subseteq> fst ` set failed'"
    "\<forall>job \<in> set jobs. \<forall>d \<in> job_digests job. present holds s' d \<or> d \<in> fst ` set failed'"
    using Cons.prems(3) by simp_all
  have "present holds s' d \<or> d \<in> fst ` set failed'" if "d \<in> job_digests job" for d
  proof -
    have "d \<in> D" using that Cons.prems(3) by auto
    moreover have "fst ` set new \<subseteq> fst ` set failed'" using rest(2) by (simp add: image_Un)
    ultimately show ?thesis using first rest(1) that unfolding send_step_def by blast
  qed
  moreover have "send_step D s s'" using send_step_trans first rest(1) by blast
  ultimately show ?case using rest(2,3) by (simp add: image_Un)
qed

lemma find_chunks_step:
  "find_chunks ops cs s = (missing, failed, s') \<Longrightarrow> ok s \<Longrightarrow> \<forall>c \<in> set cs. \<forall>d \<in> set c. digest_wf d \<Longrightarrow>
   ok s' \<and> holds s' = holds s \<and> set missing \<subseteq> set (concat cs) \<and>
   (\<forall>d \<in> set (concat cs). d \<in> set missing \<or> present holds s d \<or> d \<in> fst ` set failed)"
proof (induction cs arbitrary: s missing failed s')
  case (Cons c cs)
  obtain r s1 where r: "cb_find_missing ops c s = (r, s1)" by fastforce
  obtain m f s2 where rest: "find_chunks ops cs s1 = (m, f, s2)" by (metis prod_cases3)
  have c: "ok s1" "holds s1 = holds s" "\<And>ms. r = Inr ms \<Longrightarrow> ms = filter (\<lambda>d. \<not> present holds s d) c"
    using missing_law [OF Cons.prems(2) _ r] Cons.prems(3) by auto
  note tl = Cons.IH [OF rest c(1)]
  have p: "present holds s1 = present holds s" using present_cong [OF c(2)] .
  have run: "(case r of Inr found \<Rightarrow> (found @ m, f, s2)
      | Inl e \<Rightarrow> (m, map (\<lambda>d. (d, ''FindMissingBlobs failed: '' @ cas_error_text e)) c @ f, s2)) = (missing, failed, s')"
    using Cons.prems(1) by (simp add: r rest)
  then have s2: "s' = s2" by (auto split: sum.splits)
  show ?case
  proof (cases r)
    case (Inl e)
    have "missing = m" "fst ` set failed = set c \<union> fst ` set f"
      using run unfolding Inl by (auto simp: image_Un image_image)
    then show ?thesis using tl Cons.prems(3) c p s2 by auto
  next
    case (Inr ms)
    have "missing = ms @ m" "failed = f" using run unfolding Inr by auto
    then show ?thesis using tl Cons.prems(3) c(3) [OF Inr] c(2) p s2 by auto
  qed
qed simp

lemma send_missing_step:
  assumes D: "\<forall>d \<in> fst ` set bs. digest_wf d" "\<forall>d \<in> fst ` set bs. \<forall>e \<in> fst ` set bs. hash d = hash e \<longrightarrow> d = e"
    and small: "\<And>p b. rd p = Some b \<Longrightarrow> length b < 2 ^ 63" "\<And>d b. (d, BytesSource b) \<in> set bs \<Longrightarrow> length b < 2 ^ 63"
    and sched: "\<And>js. mset (sched js) = mset js" and ok: "ok s"
    and run: "send_missing rd ops (default_batch_write ops) sched chunk skip_existing limit bs s = (failed, s')"
  shows "send_step (fst ` set bs) s s' \<and> (\<forall>d \<in> fst ` set bs. present holds s' d \<or> d \<in> fst ` set failed)"
proof -
  let ?D = "fst ` set bs"
  obtain missing f0 s1 where find: "(if skip_existing then find_chunks ops (chunks_of FIND_MISSING_CHUNK (map fst bs)) s else (map fst bs, [], s))
      = (missing, f0, s1)" by (metis prod_cases3)
  define large where "large = filter (\<lambda>d. dsize d > limit) missing"
  define rest where "rest = filter (\<lambda>d. \<not> dsize d > limit) missing"
  define jobs where "jobs = sched (map Streamed large @ map Batched (batches_of rest limit))"
  have chunks: "set (concat (chunks_of FIND_MISSING_CHUNK (map fst bs))) = ?D"
    by (simp add: concat_chunks FIND_MISSING_CHUNK_def del: set_concat)
  have "\<forall>c \<in> set (chunks_of FIND_MISSING_CHUNK (map fst bs)). \<forall>d \<in> set c. digest_wf d"
    using D(1) unfolding chunks [symmetric] set_concat by blast
  note wf = this
  have found: "ok s1 \<and> holds s1 = holds s \<and> set missing \<subseteq> ?D \<and> (\<forall>d \<in> ?D. d \<in> set missing \<or> present holds s d \<or> d \<in> fst ` set f0)"
  proof (cases skip_existing)
    case True
    then show ?thesis using find_chunks_step [OF _ ok wf] find unfolding chunks by simp
  next
    case False
    then show ?thesis using find ok by (auto simp: rev_image_eqI)
  qed
  have covered: "(\<Union>job \<in> set jobs. job_digests job) = set missing" unfolding jobs_def large_def rest_def by (rule jobs_cover [OF sched])
  then have "\<forall>job \<in> set jobs. job_digests job \<subseteq> ?D" using found by blast
  moreover have "run_jobs rd ops (default_batch_write ops) chunk bs jobs f0 s1 = (failed, s')"
    using run by (simp add: send_missing_def find jobs_def large_def rest_def)
  moreover have "length b < 2 ^ 63" if "d \<in> ?D" "source_of bs d = BytesSource b" for d b
  proof -
    have "map_of bs d \<noteq> None" using that(1) by (simp add: map_of_eq_None_iff)
    then obtain src where "map_of bs d = Some src" by blast
    then show ?thesis using that(2) small(2) by (auto simp: source_of_def dest: map_of_SomeD)
  qed
  ultimately have sent: "send_step ?D s1 s'" "fst ` set f0 \<subseteq> fst ` set failed"
    "\<forall>job \<in> set jobs. \<forall>d \<in> job_digests job. present holds s' d \<or> d \<in> fst ` set failed"
    using run_jobs_step [OF D, of rd bs chunk jobs f0 s1 failed s'] small(1) found by simp_all
  have "send_step ?D s s1" using found send_step_same by blast
  then have step: "send_step ?D s s'" using send_step_trans sent(1) by blast
  have "present holds s' d \<or> d \<in> fst ` set failed" if d: "d \<in> ?D" for d
  proof -
    consider "d \<in> set missing" | "present holds s d" | "d \<in> fst ` set f0" using found d by blast
    then show ?thesis
    proof cases
      case 1
      then obtain job where "job \<in> set jobs" "d \<in> job_digests job" unfolding covered [symmetric] by blast
      then show ?thesis using sent(3) by blast
    next
      case 2
      then show ?thesis using step d unfolding send_step_def by blast
    next
      case 3
      then show ?thesis using sent(2) by blast
    qed
  qed
  then show ?thesis using step by blast
qed

end

section \<open>What is reported\<close>

lemma reason_of_None: "reason_of failed d = None \<longleftrightarrow> d \<notin> fst ` set failed"
  by (simp add: reason_of_def map_of_eq_None_iff)

definition unfailed :: "(digest_info \<times> string) list \<Rightarrow> planned_output \<Rightarrow> bool" where
  "unfailed failed q \<longleftrightarrow> (\<forall>d \<in> set (po_digests q). d \<notin> fst ` set failed)"

lemma unfailed_reasons: "unfailed failed q \<longleftrightarrow> List.map_filter (reason_of failed) (po_digests q) = []"
  unfolding unfailed_def reason_of_None [symmetric] by (auto simp: List.map_filter_def filter_empty_conv)

lemma report_sound:
  "f \<in> set (up_files (report failed qs r)) \<Longrightarrow> f \<in> set (up_files r) \<or> (\<exists>q \<in> set qs. unfailed failed q \<and> po_kind q = PlannedFile f)"
  "u \<in> set (up_directories (report failed qs r)) \<Longrightarrow>
     u \<in> set (up_directories r) \<or> (\<exists>q \<in> set qs. unfailed failed q \<and> po_kind q = PlannedDirectory u)"
  by (induction failed qs r rule: report.induct)
    (auto simp: unfailed_reasons split: list.splits planned_kind.splits if_splits)

section \<open>Reported outputs are stored\<close>

text \<open>The blobs an upload plans to send; the hypothesis on them is that none of two has the other's hash.\<close>

definition planned_blobs ::
  "(bytes \<Rightarrow> bytes) \<Rightarrow> (directory \<Rightarrow> bytes) \<Rightarrow> (tree \<Rightarrow> bytes) \<Rightarrow> (string \<Rightarrow> bool) \<Rightarrow> (string \<Rightarrow> fnode option) \<Rightarrow> string list \<Rightarrow> string list \<Rightarrow>
   digest_info set" where
  "planned_blobs sha256 encode encode_tree io node_at files dirs =
     fst ` set (snd (snd (plan_outputs lower_hex sha256 encode encode_tree io node_at (map (\<lambda>p. (p, False)) files @ map (\<lambda>p. (p, True)) dirs) [])))"

text \<open>The files a tree names are stored.\<close>

definition tree_files_present :: "('s \<Rightarrow> digest_info \<Rightarrow> bytes option) \<Rightarrow> 's \<Rightarrow> tree \<Rightarrow> bool" where
  "tree_files_present holds s t \<longleftrightarrow>
     (\<forall>dir \<in> set (option_list (tree_root t) @ tree_children t). \<forall>f \<in> set (dir_files dir).
        \<exists>d. fm_digest f = Some (digest_msg d) \<and> present holds s d)"

context durable_backend
begin

lemma upload_outputs_spec:
  assumes w: "sha256_width sha256" and e: "small_encoder encode" "small_encoder encode_tree"
    and rd: "\<And>p b. rd p = Some b \<Longrightarrow> length b < 2 ^ 63" and sched: "\<And>js. mset (sched js) = mset js" and ok: "ok s"
    and uniq: "\<forall>d \<in> planned_blobs sha256 encode encode_tree io node_at files dirs.
      \<forall>e \<in> planned_blobs sha256 encode encode_tree io node_at files dirs. hash d = hash e \<longrightarrow> d = e"
    and run: "upload_outputs lower_hex sha256 encode encode_tree io node_at rd ops (default_batch_write ops) sched chunk skip_existing limit
      files dirs s = (res, s')"
  shows "ok s' \<and> (\<forall>f \<in> set (up_files res). present holds s' (uf_digest f)) \<and>
    (\<forall>u \<in> set (up_directories res). present holds s' (ud_tree_digest u) \<and>
       (\<exists>t. ud_tree_digest u = from_bytes sha256 (encode_tree t) \<and> tree_files_present holds s' t))"
proof -
  let ?decls = "map (\<lambda>p. (p, False)) files @ map (\<lambda>p. (p, True)) dirs"
  obtain planned errs bs where plan: "plan_outputs lower_hex sha256 encode encode_tree io node_at ?decls [] = (planned, errs, bs)"
    by (metis prod_cases3)
  obtain failed s1 where send: "send_missing rd ops (default_batch_write ops) sched chunk skip_existing limit bs s = (failed, s1)" by fastforce
  let ?r = "\<lparr>up_files = [], up_directories = [], up_symlinks = [], up_bytes_uploaded = 0, up_cached_files = 0, up_errors = errs\<rparr>"
  have res: "res = report failed planned ?r" "s' = s1" using run by (simp_all add: upload_outputs_def plan send)
  have "blobs_wf []" "small_sources []" by (simp_all add: blobs_wf_def small_sources_def)
  note planned = plan_outputs_ok [OF w e this(1) plan] and sources = plan_outputs_sources [OF e this(2) plan]
  have bs: "\<forall>d \<in> fst ` set bs. digest_wf d" using planned by (simp add: blobs_grow_def blobs_wf_def)
  have uniq': "\<forall>d \<in> fst ` set bs. \<forall>e \<in> fst ` set bs. hash d = hash e \<longrightarrow> d = e" using uniq unfolding planned_blobs_def plan by simp
  have src: "(d, BytesSource x) \<in> set bs \<Longrightarrow> length x < 2 ^ 63" for d x using sources unfolding small_sources_def by blast
  have sent: "send_step (fst ` set bs) s s' \<and> (\<forall>d \<in> fst ` set bs. present holds s' d \<or> d \<in> fst ` set failed)"
    unfolding res(2) by (rule send_missing_step [OF bs uniq' rd src sched ok send])
  have stored: "present holds s' d" if "q \<in> set planned" "unfailed failed q" "d \<in> set (po_digests q)" for q d
  proof -
    have "set (po_digests q) \<subseteq> fst ` set bs" using planned that(1) by (simp add: output_planned_def)
    then have "d \<in> fst ` set bs" using that(3) by blast
    moreover have "d \<notin> fst ` set failed" using that(2,3) by (simp add: unfailed_def)
    ultimately show ?thesis using sent by blast
  qed
  have "present holds s' (uf_digest f)" if f: "f \<in> set (up_files res)" for f
  proof -
    obtain q where q: "q \<in> set planned" "unfailed failed q" "po_kind q = PlannedFile f"
      using report_sound(1) [OF f [unfolded res(1)]] by auto
    then have "uf_digest f \<in> set (po_digests q)" using planned by (simp add: output_planned_def)
    then show ?thesis using stored [OF q(1,2)] by blast
  qed
  moreover have "present holds s' (ud_tree_digest u) \<and> (\<exists>t. ud_tree_digest u = from_bytes sha256 (encode_tree t) \<and> tree_files_present holds s' t)"
    if u: "u \<in> set (up_directories res)" for u
  proof -
    obtain q where q: "q \<in> set planned" "unfailed failed q" "po_kind q = PlannedDirectory u"
      using report_sound(2) [OF u [unfolded res(1)]] by auto
    have "output_planned sha256 encode_tree bs q" using planned q(1) by blast
    then obtain t where t: "ud_tree_digest u \<in> set (po_digests q)" "ud_tree_digest u = from_bytes sha256 (encode_tree t)"
      "\<forall>dir \<in> set (option_list (tree_root t) @ tree_children t). dir_planned (po_digests q) dir"
      using q(3) unfolding output_planned_def by blast
    then have "tree_files_present holds s' t" using stored [OF q(1,2)] unfolding tree_files_present_def dir_planned_def by blast
    then show ?thesis using stored [OF q(1,2) t(1)] t(2) by blast
  qed
  ultimately show ?thesis using sent by (simp add: send_step_def)
qed

end



end
