(* ===== verification/Auth.thy ===== *)
theory Auth
  imports Output_Handler Rust_Text
begin

text \<open>
  \<open>server/auth.rs\<close>: who may call the server. The clock is one number of milliseconds where the code has a
  monotonic clock and the time of day. \<open>jwt_lib\<close> is what the code uses of \<open>jsonwebtoken\<close> and
  \<open>serde_json\<close>, the answer of the realm to a request for its keys is an argument, and an operation returns the
  requests it sent. The cache of verified tokens may drop any entry at any time.
\<close>

section \<open>Configuration and errors\<close>

record auth_config =
  au_enabled :: bool
  au_grpc_enabled :: bool
  au_keycloak_url :: string
  au_realm :: string
  au_allowed_clients :: "string list"
  au_static_tokens :: "string list"

definition comma_separated :: "string \<Rightarrow> string list" where
  "comma_separated list = filter (\<lambda>entry. entry \<noteq> []) (map trim (split_on (CHR '','') list))"

definition auth_from_env :: "(string \<Rightarrow> string option) \<Rightarrow> auth_config" where
  "auth_from_env env =
     (let flag = (\<lambda>name. case env name of Some v \<Rightarrow> v = ''true'' \<or> v = ''1'' | None \<Rightarrow> False);
          var = (\<lambda>name. case env name of Some v \<Rightarrow> v | None \<Rightarrow> [])
      in \<lparr>au_enabled = flag ''RBE_AUTH_ENABLED'', au_grpc_enabled = flag ''RBE_GRPC_AUTH_ENABLED'',
          au_keycloak_url = var ''RBE_KEYCLOAK_URL'', au_realm = var ''RBE_KEYCLOAK_REALM'',
          au_allowed_clients = comma_separated (var ''RBE_AUTH_ALLOWED_CLIENTS''),
          au_static_tokens = comma_separated (var ''RBE_AUTH_STATIC_TOKENS'')\<rparr>)"

definition issuer :: "auth_config \<Rightarrow> string" where
  "issuer cfg = trim_end_char (CHR ''/'') (au_keycloak_url cfg) @ ''/realms/'' @ au_realm cfg"

definition jwks_url :: "auth_config \<Rightarrow> string" where
  "jwks_url cfg = issuer cfg @ ''/protocol/openid-connect/certs''"

datatype auth_error = MissingToken | InvalidToken string | ClientNotAllowed | UnknownKey | JwksFetch string | JwksFormat string | NoRealm

fun auth_error_text :: "auth_error \<Rightarrow> string" where
  "auth_error_text MissingToken = ''missing bearer token''"
| "auth_error_text (InvalidToken e) = ''invalid token: '' @ e"
| "auth_error_text ClientNotAllowed = ''token client not allowed''"
| "auth_error_text UnknownKey = ''unknown signing key''"
| "auth_error_text (JwksFetch e) = ''failed to fetch JWKS: '' @ e"
| "auth_error_text (JwksFormat e) = ''invalid JWKS: '' @ e"
| "auth_error_text NoRealm = ''no Keycloak realm configured (RBE_KEYCLOAK_URL, RBE_KEYCLOAK_REALM)''"

section \<open>Signing keys\<close>

record jwk =
  jwk_kid :: "string option"
  jwk_kty :: string
  jwk_alg :: "string option"
  jwk_n :: "string option"
  jwk_e :: "string option"

record claims =
  cl_iss :: string
  cl_exp :: nat
  cl_azp :: "string option"
  cl_preferred_username :: "string option"

record 'k jwt_lib =
  jl_header :: "string \<Rightarrow> string + string \<times> string option"
  jl_decode :: "string \<Rightarrow> 'k \<Rightarrow> string \<Rightarrow> nat \<Rightarrow> string + claims"
  jl_rsa :: "string \<Rightarrow> string \<Rightarrow> 'k option"
  jl_jwks :: "string \<Rightarrow> string + jwk list"

record 'k jwks_cache =
  jc_by_kid :: "string \<rightharpoonup> 'k"
  jc_last_fetch :: "nat option"

definition JWKS_MIN_RETRY :: nat where
  "JWKS_MIN_RETRY = 2000"

definition key_lookup :: "nat \<Rightarrow> string \<Rightarrow> 'k jwks_cache \<Rightarrow> auth_error + 'k option" where
  "key_lookup now kid c =
     (case jc_by_kid c kid of
        Some key \<Rightarrow> Inr (Some key)
      | None \<Rightarrow>
          (case jc_last_fetch c of
             Some fetched \<Rightarrow> if now - fetched < JWKS_MIN_RETRY then Inl UnknownKey else Inr None
           | None \<Rightarrow> Inr None))"

definition client_allowed :: "string list \<Rightarrow> string option \<Rightarrow> bool" where
  "client_allowed allowed azp \<longleftrightarrow> allowed = [] \<or> (case azp of Some a \<Rightarrow> a \<in> set allowed | None \<Rightarrow> False)"

fun parse_jwks :: "'k jwt_lib \<Rightarrow> jwk list \<Rightarrow> (string \<rightharpoonup> 'k) \<Rightarrow> string \<rightharpoonup> 'k" where
  "parse_jwks lib [] by_kid = by_kid"
| "parse_jwks lib (k # ks) by_kid =
     parse_jwks lib ks
       (case (jwk_kid k, jwk_n k, jwk_e k) of
          (Some kid, Some n, Some e) \<Rightarrow>
            if jwk_kty k \<noteq> ''RSA'' then by_kid
            else if (case jwk_alg k of Some alg \<Rightarrow> alg \<noteq> ''RS256'' | None \<Rightarrow> False) then by_kid
            else (case jl_rsa lib n e of Some key \<Rightarrow> by_kid(kid \<mapsto> key) | None \<Rightarrow> by_kid)
        | _ \<Rightarrow> by_kid)"

text \<open>\<open>seen\<close> is the cache under the read lock and \<open>c\<close> the one under the write lock.\<close>

definition decoding_key ::
  "'k jwt_lib \<Rightarrow> string \<Rightarrow> nat \<Rightarrow> string + string \<Rightarrow> 'k jwks_cache \<Rightarrow> string \<Rightarrow> 'k jwks_cache \<Rightarrow> (auth_error + 'k) \<times> string list \<times> 'k jwks_cache" where
  "decoding_key lib url now fetched seen kid c =
     (case key_lookup now kid seen of
        Inl e \<Rightarrow> (Inl e, [], c)
      | Inr (Some key) \<Rightarrow> (Inr key, [], c)
      | Inr None \<Rightarrow>
          (case key_lookup now kid c of
             Inl e \<Rightarrow> (Inl e, [], c)
           | Inr (Some key) \<Rightarrow> (Inr key, [], c)
           | Inr None \<Rightarrow>
               (case fetched of
                  Inl e \<Rightarrow> (Inl (JwksFetch e), [url], c)
                | Inr body \<Rightarrow>
                    (case jl_jwks lib body of
                       Inl e \<Rightarrow> (Inl (JwksFormat e), [url], c)
                     | Inr keys \<Rightarrow>
                         (let by_kid = parse_jwks lib keys Map.empty
                          in (case by_kid kid of None \<Rightarrow> Inl UnknownKey | Some key \<Rightarrow> Inr key, [url],
                              \<lparr>jc_by_kid = by_kid, jc_last_fetch = Some now\<rparr>))))))"

section \<open>Tokens\<close>

record 'k auth_state =
  as_config :: auth_config
  as_keys :: "'k jwks_cache"
  as_verified :: "bytes \<rightharpoonup> nat \<times> nat"

definition VERIFIED_TOKEN_TTL :: nat where
  "VERIFIED_TOKEN_TTL = 300000"

definition auth_new :: "auth_config \<Rightarrow> 'k auth_state" where
  "auth_new cfg = \<lparr>as_config = cfg, as_keys = \<lparr>jc_by_kid = Map.empty, jc_last_fetch = None\<rparr>, as_verified = Map.empty\<rparr>"

definition unix_now :: "nat \<Rightarrow> nat" where
  "unix_now now = now div 1000"

definition validate ::
  "'k jwt_lib \<Rightarrow> nat \<Rightarrow> string + string \<Rightarrow> string \<Rightarrow> 'k auth_state \<Rightarrow> (auth_error + claims) \<times> string list \<times> 'k auth_state" where
  "validate lib now fetched token st =
     (let cfg = as_config st in
      if au_keycloak_url cfg = [] \<or> au_realm cfg = [] then (Inl NoRealm, [], st)
      else case jl_header lib token of
             Inl e \<Rightarrow> (Inl (InvalidToken e), [], st)
           | Inr (alg, kid) \<Rightarrow>
               if alg \<noteq> ''RS256'' then (Inl (InvalidToken ''InvalidAlgorithm''), [], st)
               else case kid of
                      None \<Rightarrow> (Inl UnknownKey, [], st)
                    | Some kid \<Rightarrow>
                        (case decoding_key lib (jwks_url cfg) now fetched (as_keys st) kid (as_keys st) of (r, sent, keys) \<Rightarrow>
                           (case r of
                              Inl e \<Rightarrow> Inl e
                            | Inr key \<Rightarrow>
                                (case jl_decode lib token key (issuer cfg) (unix_now now) of
                                   Inl e \<Rightarrow> Inl (InvalidToken e)
                                 | Inr cl \<Rightarrow> if client_allowed (au_allowed_clients cfg) (cl_azp cl) then Inr cl else Inl ClientNotAllowed),
                            sent, st\<lparr>as_keys := keys\<rparr>)))"

definition token_is_static :: "(bytes \<Rightarrow> bytes) \<Rightarrow> string list \<Rightarrow> string \<Rightarrow> bool" where
  "token_is_static sha256 tokens token \<longleftrightarrow>
     tokens \<noteq> [] \<and> (\<exists>configured \<in> set tokens. sha256 (text_bytes configured) = sha256 (text_bytes token))"

text \<open>A verified token with its \<open>exp\<close> and when it was verified, as long as the cache's time to live has not passed.\<close>

definition verified_get :: "nat \<Rightarrow> bytes \<Rightarrow> (bytes \<rightharpoonup> nat \<times> nat) \<Rightarrow> nat option" where
  "verified_get now d v = (case v d of Some (expiry, stored) \<Rightarrow> if now - stored < VERIFIED_TOKEN_TTL then Some expiry else None | None \<Rightarrow> None)"

definition authorize ::
  "'k jwt_lib \<Rightarrow> (bytes \<Rightarrow> bytes) \<Rightarrow> nat \<Rightarrow> string + string \<Rightarrow> string \<Rightarrow> 'k auth_state \<Rightarrow> (auth_error + unit) \<times> string list \<times> 'k auth_state" where
  "authorize lib sha256 now fetched token st =
     (if token_is_static sha256 (au_static_tokens (as_config st)) token then (Inr (), [], st)
      else let d = sha256 (text_bytes token);
               memo = verified_get now d (as_verified st)
           in if (case memo of Some expiry \<Rightarrow> expiry > unix_now now | None \<Rightarrow> False) then (Inr (), [], st)
              else let st1 = (if memo = None then st else st\<lparr>as_verified := (as_verified st)(d := None)\<rparr>)
                   in (case validate lib now fetched token st1 of
                         (Inl e, sent, st2) \<Rightarrow> (Inl e, sent, st2)
                       | (Inr cl, sent, st2) \<Rightarrow> (Inr (), sent, st2\<lparr>as_verified := (as_verified st2)(d \<mapsto> (cl_exp cl, now))\<rparr>)))"

section \<open>The two surfaces\<close>

text \<open>A request: its path, its query, and the text of its authorization header, when it has one that is text.\<close>

record request =
  rq_path :: string
  rq_query :: "string option"
  rq_authorization :: "string option"

definition GRPC_OPEN_PATH_PREFIXES :: "string list" where
  "GRPC_OPEN_PATH_PREFIXES = [''/grpc.health.v1.Health/'', ''/AWS.ALB/'']"

definition authorize_grpc ::
  "'k jwt_lib \<Rightarrow> (bytes \<Rightarrow> bytes) \<Rightarrow> nat \<Rightarrow> string + string \<Rightarrow> request \<Rightarrow> 'k auth_state \<Rightarrow> (auth_error + unit) \<times> string list \<times> 'k auth_state" where
  "authorize_grpc lib sha256 now fetched rq st =
     (if \<not> au_grpc_enabled (as_config st) \<or> (\<exists>prefix \<in> set GRPC_OPEN_PATH_PREFIXES. starts_with prefix (rq_path rq)) then (Inr (), [], st)
      else case Option.bind (rq_authorization rq) (strip_prefix ''Bearer '') of
             None \<Rightarrow> (Inl MissingToken, [], st)
           | Some token \<Rightarrow> authorize lib sha256 now fetched token st)"

definition grpc_call ::
  "'k jwt_lib \<Rightarrow> (bytes \<Rightarrow> bytes) \<Rightarrow> nat \<Rightarrow> string + string \<Rightarrow> (request \<Rightarrow> 'r) \<Rightarrow> request \<Rightarrow> 'k auth_state \<Rightarrow> (status + 'r) \<times> string list \<times> 'k auth_state" where
  "grpc_call lib sha256 now fetched inner rq st =
     (case authorize_grpc lib sha256 now fetched rq st of
        (Inl e, sent, st1) \<Rightarrow> (Inl \<lparr>st_code = CodeUnauthenticated, st_message = auth_error_text e\<rparr>, sent, st1)
      | (Inr _, sent, st1) \<Rightarrow> (Inr (inner rq), sent, st1))"

definition needs_auth :: "string \<Rightarrow> bool" where
  "needs_auth path \<longleftrightarrow> starts_with ''/api/'' path \<or> path = ''/api'' \<or> starts_with ''/mcp'' path"

definition presented_token :: "request \<Rightarrow> auth_error + string" where
  "presented_token rq =
     (case Option.bind (rq_authorization rq) (strip_prefix ''Bearer '') of
        Some token \<Rightarrow> Inr token
      | None \<Rightarrow>
          (case rq_query rq of
             None \<Rightarrow> Inl MissingToken
           | Some query \<Rightarrow>
               (case List.map_filter (strip_prefix ''token='') (split_on (CHR ''&'') query) of
                  [] \<Rightarrow> Inl MissingToken
                | token # _ \<Rightarrow> Inr token)))"

record refusal =
  rf_status :: nat
  rf_challenge :: string
  rf_body :: string

definition unauthorized :: "auth_error \<Rightarrow> refusal" where
  "unauthorized e = \<lparr>rf_status = 401, rf_challenge = ''Bearer realm='' @ [CHR 0x22] @ ''ferris-rbe'' @ [CHR 0x22], rf_body = auth_error_text e\<rparr>"

definition auth_middleware ::
  "'k jwt_lib \<Rightarrow> (bytes \<Rightarrow> bytes) \<Rightarrow> nat \<Rightarrow> string + string \<Rightarrow> (request \<Rightarrow> 'r) \<Rightarrow> request \<Rightarrow> 'k auth_state \<Rightarrow> (refusal + 'r) \<times> string list \<times> 'k auth_state" where
  "auth_middleware lib sha256 now fetched run_next rq st =
     (if \<not> au_enabled (as_config st) \<or> \<not> needs_auth (rq_path rq) then (Inr (run_next rq), [], st)
      else case presented_token rq of
             Inl e \<Rightarrow> (Inl (unauthorized e), [], st)
           | Inr token \<Rightarrow>
               if token_is_static sha256 (au_static_tokens (as_config st)) token then (Inr (run_next rq), [], st)
               else (case validate lib now fetched token st of
                       (Inr _, sent, st1) \<Rightarrow> (Inr (run_next rq), sent, st1)
                     | (Inl e, sent, st1) \<Rightarrow> (Inl (unauthorized e), sent, st1)))"

section \<open>Tokens the realm vouches for\<close>

text \<open>What the code relies on: a token that decodes is of the issuer asked for and expired at most a minute ago.\<close>

definition jwt_ok :: "'k jwt_lib \<Rightarrow> bool" where
  "jwt_ok lib \<longleftrightarrow> (\<forall>token key iss now cl. jl_decode lib token key iss now = Inr cl \<longrightarrow> cl_iss cl = iss \<and> now \<le> cl_exp cl + 60)"

text \<open>A key of one of the documents the realm sent: an RSA key for RS256 with this id.\<close>

definition published :: "'k jwt_lib \<Rightarrow> string set \<Rightarrow> string \<Rightarrow> 'k \<Rightarrow> bool" where
  "published lib bodies kid key \<longleftrightarrow> (\<exists>body \<in> bodies. \<exists>keys k n e. jl_jwks lib body = Inr keys \<and> k \<in> set keys \<and> jwk_kid k = Some kid \<and>
     jwk_kty k = ''RSA'' \<and> jwk_alg k \<in> {None, Some ''RS256''} \<and> jwk_n k = Some n \<and> jwk_e k = Some e \<and> jl_rsa lib n e = Some key)"

text \<open>A token that a key of the realm signed, checked at a time, of a client that may call the server.\<close>

definition genuine :: "'k jwt_lib \<Rightarrow> auth_config \<Rightarrow> string set \<Rightarrow> nat \<Rightarrow> string \<Rightarrow> claims \<Rightarrow> bool" where
  "genuine lib cfg bodies t token cl \<longleftrightarrow> au_keycloak_url cfg \<noteq> [] \<and> au_realm cfg \<noteq> [] \<and>
     (\<exists>kid key. jl_header lib token = Inr (''RS256'', Some kid) \<and> published lib bodies kid key \<and>
        jl_decode lib token key (issuer cfg) (unix_now t) = Inr cl) \<and> client_allowed (au_allowed_clients cfg) (cl_azp cl)"

definition keys_published :: "'k jwt_lib \<Rightarrow> string set \<Rightarrow> 'k jwks_cache \<Rightarrow> bool" where
  "keys_published lib bodies c \<longleftrightarrow> (\<forall>kid key. jc_by_kid c kid = Some key \<longrightarrow> published lib bodies kid key)"

definition answer :: "string + string \<Rightarrow> string set" where
  "answer fetched = (case fetched of Inl e \<Rightarrow> {} | Inr body \<Rightarrow> {body})"

lemma published_mono: "published lib B kid key \<Longrightarrow> B \<subseteq> C \<Longrightarrow> published lib C kid key"
  unfolding published_def by blast

lemma genuine_mono: "genuine lib cfg B t token cl \<Longrightarrow> B \<subseteq> C \<Longrightarrow> genuine lib cfg C t token cl"
  unfolding genuine_def by (meson published_mono)

lemma keys_published_mono: "keys_published lib B c \<Longrightarrow> B \<subseteq> C \<Longrightarrow> keys_published lib C c"
  unfolding keys_published_def by (meson published_mono)

lemma parse_jwks_published:
  assumes "body \<in> B" "jl_jwks lib body = Inr keys"
  shows "set ks \<subseteq> set keys \<Longrightarrow> \<forall>kid key. m kid = Some key \<longrightarrow> published lib B kid key \<Longrightarrow>
    parse_jwks lib ks m kid = Some key \<Longrightarrow> published lib B kid key"
proof (induction ks arbitrary: m)
  case (Cons k ks)
  define m' where "m' = (case (jwk_kid k, jwk_n k, jwk_e k) of
      (Some kid, Some n, Some e) \<Rightarrow>
        if jwk_kty k \<noteq> ''RSA'' then m
        else if (case jwk_alg k of Some alg \<Rightarrow> alg \<noteq> ''RS256'' | None \<Rightarrow> False) then m
        else (case jl_rsa lib n e of Some key \<Rightarrow> m(kid \<mapsto> key) | None \<Rightarrow> m)
    | _ \<Rightarrow> m)"
  have "published lib B kid' key'" if put: "m' kid' = Some key'" for kid' key'
  proof (cases "m kid' = Some key'")
    case False
    then obtain n e where "jwk_kid k = Some kid'" "jwk_n k = Some n" "jwk_e k = Some e" "jwk_kty k = ''RSA''"
      "jwk_alg k \<in> {None, Some ''RS256''}" "jl_rsa lib n e = Some key'"
      using put unfolding m'_def by (auto split: option.splits if_splits)
    moreover have "k \<in> set keys" using Cons.prems(1) by simp
    ultimately show ?thesis using assms unfolding published_def by blast
  qed (use Cons.prems(2) in blast)
  then show ?case using Cons.IH [of m'] Cons.prems by (simp add: m'_def)
qed simp

lemma decoding_key_published:
  assumes "keys_published lib B c" "keys_published lib B seen" and run: "decoding_key lib url now fetched seen kid c = (r, sent, c')"
  shows "keys_published lib (B \<union> answer fetched) c' \<and> (\<forall>key. r = Inr key \<longrightarrow> published lib (B \<union> answer fetched) kid key)"
proof -
  have old: "keys_published lib (B \<union> answer fetched) c" "keys_published lib (B \<union> answer fetched) seen"
    using assms(1,2) keys_published_mono by blast+
  have new: "keys_published lib (B \<union> answer fetched) \<lparr>jc_by_kid = parse_jwks lib keys Map.empty, jc_last_fetch = l\<rparr>"
    if "fetched = Inr body" "jl_jwks lib body = Inr keys" for body keys l
    using parse_jwks_published [OF _ that(2), of "B \<union> answer fetched" keys Map.empty] that(1)
    by (simp add: keys_published_def answer_def)
  show ?thesis
    using run old new unfolding decoding_key_def key_lookup_def Let_def keys_published_def
    by (fastforce split: sum.splits option.splits if_splits)
qed

definition auth_inv :: "'k jwt_lib \<Rightarrow> (bytes \<Rightarrow> bytes) \<Rightarrow> auth_config \<Rightarrow> string set \<Rightarrow> nat \<Rightarrow> 'k auth_state \<Rightarrow> bool" where
  "auth_inv lib sha256 cfg B t st \<longleftrightarrow> as_config st = cfg \<and> keys_published lib B (as_keys st) \<and>
     (\<forall>d expiry stored. as_verified st d = Some (expiry, stored) \<longrightarrow> stored \<le> t \<and>
        (\<exists>token cl. sha256 (text_bytes token) = d \<and> genuine lib cfg B stored token cl \<and> cl_exp cl = expiry))"

text \<open>
  A token that grants access at a time: one with the hash of a static token, or with the hash of a token that was
  genuine now, or less than five minutes ago and has not expired since.
\<close>

definition trusted :: "'k jwt_lib \<Rightarrow> (bytes \<Rightarrow> bytes) \<Rightarrow> auth_config \<Rightarrow> string set \<Rightarrow> nat \<Rightarrow> string \<Rightarrow> bool" where
  "trusted lib sha256 cfg B now token \<longleftrightarrow> token_is_static sha256 (au_static_tokens cfg) token \<or>
     (\<exists>token' cl t. sha256 (text_bytes token') = sha256 (text_bytes token) \<and> genuine lib cfg B t token' cl \<and>
        (t = now \<or> t \<le> now \<and> now - t < VERIFIED_TOKEN_TTL \<and> unix_now now < cl_exp cl))"

lemma auth_inv_mono:
  assumes "auth_inv lib sha256 cfg B t st" "B \<subseteq> C" "t \<le> now"
  shows "auth_inv lib sha256 cfg C now st"
  unfolding auth_inv_def
proof (intro conjI allI impI)
  show "as_config st = cfg" using assms(1) by (simp add: auth_inv_def)
  show "keys_published lib C (as_keys st)" using assms keys_published_mono by (auto simp: auth_inv_def)
  fix d expiry stored
  assume "as_verified st d = Some (expiry, stored)"
  then obtain token cl where v: "stored \<le> t" "sha256 (text_bytes token) = d" "genuine lib cfg B stored token cl" "cl_exp cl = expiry"
    using assms(1) unfolding auth_inv_def by blast
  show "stored \<le> now" using v(1) assms(3) by simp
  show "\<exists>token cl. sha256 (text_bytes token) = d \<and> genuine lib cfg C stored token cl \<and> cl_exp cl = expiry"
    using v(2,4) genuine_mono [OF v(3) assms(2)] by blast
qed

lemma validate_spec:
  assumes inv: "auth_inv lib sha256 cfg B t st" and t: "t \<le> now" and run: "validate lib now fetched token st = (r, sent, st')"
  shows "auth_inv lib sha256 cfg (B \<union> answer fetched) now st' \<and> (\<forall>cl. r = Inr cl \<longrightarrow> genuine lib cfg (B \<union> answer fetched) now token cl)"
proof -
  have cfg: "as_config st = cfg" using inv by (simp add: auth_inv_def)
  have st: "auth_inv lib sha256 cfg (B \<union> answer fetched) now st" using auth_inv_mono [OF inv _ t] by blast
  show ?thesis
  proof (cases "au_keycloak_url cfg = [] \<or> au_realm cfg = [] \<or> (\<nexists>kid. jl_header lib token = Inr (''RS256'', Some kid))")
    case True
    then have "st' = st \<and> (\<exists>e. r = Inl e)"
      using run by (auto simp: validate_def Let_def cfg split: if_splits sum.splits option.splits)
    then show ?thesis using st by auto
  next
    case False
    then obtain kid where realm: "au_keycloak_url cfg \<noteq> []" "au_realm cfg \<noteq> []" and kid: "jl_header lib token = Inr (''RS256'', Some kid)" by blast
    obtain q sent' keys where key: "decoding_key lib (jwks_url cfg) now fetched (as_keys st) kid (as_keys st) = (q, sent', keys)" by (metis prod_cases3)
    have pub: "keys_published lib B (as_keys st)" using inv by (simp add: auth_inv_def)
    note ok = decoding_key_published [OF pub pub key]
    have r: "st' = st\<lparr>as_keys := keys\<rparr>" "r = (case q of Inl e \<Rightarrow> Inl e | Inr key \<Rightarrow>
        (case jl_decode lib token key (issuer cfg) (unix_now now) of Inl e \<Rightarrow> Inl (InvalidToken e)
         | Inr cl \<Rightarrow> if client_allowed (au_allowed_clients cfg) (cl_azp cl) then Inr cl else Inl ClientNotAllowed))"
      using run realm by (simp_all add: validate_def cfg kid key)
    have "auth_inv lib sha256 cfg (B \<union> answer fetched) now st'" using st ok r(1) by (simp add: auth_inv_def)
    moreover have "genuine lib cfg (B \<union> answer fetched) now token cl" if "r = Inr cl" for cl
      using r(2) that realm kid ok by (auto simp: genuine_def split: sum.splits if_splits)
    ultimately show ?thesis by blast
  qed
qed

lemma auth_inv_drop: "auth_inv lib sha256 cfg B t st \<Longrightarrow> auth_inv lib sha256 cfg B t (st\<lparr>as_verified := (as_verified st)(d := None)\<rparr>)"
  by (simp add: auth_inv_def)

lemma auth_inv_remember:
  "auth_inv lib sha256 cfg B t st \<Longrightarrow> genuine lib cfg B t token cl \<Longrightarrow>
   auth_inv lib sha256 cfg B t (st\<lparr>as_verified := (as_verified st)(sha256 (text_bytes token) \<mapsto> (cl_exp cl, t))\<rparr>)"
  by (auto simp: auth_inv_def)

lemma authorize_spec:
  assumes inv: "auth_inv lib sha256 cfg B t st" and t: "t \<le> now" and run: "authorize lib sha256 now fetched token st = (r, sent, st')"
  shows "auth_inv lib sha256 cfg (B \<union> answer fetched) now st' \<and> (r = Inr () \<longrightarrow> trusted lib sha256 cfg (B \<union> answer fetched) now token)"
proof -
  let ?C = "B \<union> answer fetched" and ?d = "sha256 (text_bytes token)"
  have cfg: "as_config st = cfg" using inv by (simp add: auth_inv_def)
  have st: "auth_inv lib sha256 cfg ?C now st" using auth_inv_mono [OF inv _ t] by blast
  show ?thesis
  proof (cases "token_is_static sha256 (au_static_tokens cfg) token")
    case True
    then show ?thesis using run st by (auto simp: authorize_def cfg trusted_def)
  next
    case static: False
    define memo where "memo = verified_get now ?d (as_verified st)"
    show ?thesis
    proof (cases "case memo of Some expiry \<Rightarrow> expiry > unix_now now | None \<Rightarrow> False")
      case True
      then obtain expiry stored where v: "as_verified st ?d = Some (expiry, stored)" "now - stored < VERIFIED_TOKEN_TTL" "expiry > unix_now now"
        by (auto simp: memo_def verified_get_def split: option.splits if_splits)
      then obtain token' cl where "stored \<le> now" "sha256 (text_bytes token') = ?d" "genuine lib cfg ?C stored token' cl" "cl_exp cl = expiry"
        using st unfolding auth_inv_def by blast
      then have "trusted lib sha256 cfg ?C now token" using v(2,3) unfolding trusted_def by blast
      moreover have "st' = st" using run static True by (simp add: authorize_def cfg memo_def [symmetric])
      ultimately show ?thesis using st by blast
    next
      case False
      define st1 where "st1 = (if memo = None then st else st\<lparr>as_verified := (as_verified st)(?d := None)\<rparr>)"
      obtain q sent' st2 where val: "validate lib now fetched token st1 = (q, sent', st2)" by (metis prod_cases3)
      have "auth_inv lib sha256 cfg B t st1" using inv auth_inv_drop by (auto simp: st1_def)
      note ok = validate_spec [OF this t val]
      have run': "(case q of Inl e \<Rightarrow> (Inl e, sent', st2)
          | Inr cl \<Rightarrow> (Inr (), sent', st2\<lparr>as_verified := (as_verified st2)(?d \<mapsto> (cl_exp cl, now))\<rparr>)) = (r, sent, st')"
        using run static False val by (simp add: authorize_def cfg memo_def [symmetric] st1_def [symmetric] split: sum.splits)
      show ?thesis
      proof (cases q)
        case (Inr cl)
        then have g: "genuine lib cfg ?C now token cl" using ok by blast
        then have "trusted lib sha256 cfg ?C now token" unfolding trusted_def by blast
        then show ?thesis using run' Inr auth_inv_remember [OF _ g] ok by auto
      qed (use run' ok in auto)
    qed
  qed
qed

section \<open>Access\<close>

text \<open>A server after some calls on either surface; the cache of verified tokens may drop entries in between.\<close>

inductive auth_reach :: "'k jwt_lib \<Rightarrow> (bytes \<Rightarrow> bytes) \<Rightarrow> auth_config \<Rightarrow> string set \<Rightarrow> nat \<Rightarrow> 'k auth_state \<Rightarrow> bool"
  for lib sha256 cfg where
  auth_start: "auth_reach lib sha256 cfg {} 0 (auth_new cfg)"
| auth_grpc: "auth_reach lib sha256 cfg B t st \<Longrightarrow> t \<le> now \<Longrightarrow> authorize_grpc lib sha256 now fetched rq st = (r, sent, st') \<Longrightarrow>
    auth_reach lib sha256 cfg (B \<union> answer fetched) now st'"
| auth_http: "auth_reach lib sha256 cfg B t st \<Longrightarrow> t \<le> now \<Longrightarrow> auth_middleware lib sha256 now fetched (\<lambda>_. ()) rq st = (r, sent, st') \<Longrightarrow>
    auth_reach lib sha256 cfg (B \<union> answer fetched) now st'"
| auth_drop: "auth_reach lib sha256 cfg B t st \<Longrightarrow> auth_reach lib sha256 cfg B t (st\<lparr>as_verified := (as_verified st)(d := None)\<rparr>)"

lemma authorize_grpc_inv:
  assumes "auth_inv lib sha256 cfg B t st" "t \<le> now" "authorize_grpc lib sha256 now fetched rq st = (r, sent, st')"
  shows "auth_inv lib sha256 cfg (B \<union> answer fetched) now st'"
  using assms(3) auth_inv_mono [OF assms(1) _ assms(2), of "B \<union> answer fetched"] authorize_spec [OF assms(1,2), of fetched _ r sent st']
  by (auto simp: authorize_grpc_def split: if_splits option.splits)

lemma auth_middleware_inv:
  assumes "auth_inv lib sha256 cfg B t st" "t \<le> now" "auth_middleware lib sha256 now fetched run_next rq st = (r, sent, st')"
  shows "auth_inv lib sha256 cfg (B \<union> answer fetched) now st'"
proof -
  have "auth_inv lib sha256 cfg (B \<union> answer fetched) now st" using auth_inv_mono [OF assms(1) _ assms(2)] by blast
  moreover have "st' = st \<or> (\<exists>q token sent. validate lib now fetched token st = (q, sent, st'))"
    using assms(3) by (auto simp: auth_middleware_def split: if_splits sum.splits prod.splits)
  ultimately show ?thesis using validate_spec [OF assms(1,2)] by blast
qed

lemma auth_reach_inv: "auth_reach lib sha256 cfg B t st \<Longrightarrow> auth_inv lib sha256 cfg B t st"
proof (induction rule: auth_reach.induct)
  case auth_start
  then show ?case by (simp add: auth_inv_def auth_new_def keys_published_def)
qed (auto intro: authorize_grpc_inv auth_middleware_inv auth_inv_drop)

lemma genuine_claims: "jwt_ok lib \<Longrightarrow> genuine lib cfg B t token cl \<Longrightarrow> cl_iss cl = issuer cfg \<and> unix_now t \<le> cl_exp cl + 60"
  unfolding jwt_ok_def genuine_def by blast

lemma trusted_claims:
  assumes "jwt_ok lib" "trusted lib sha256 cfg B now token"
  shows "token_is_static sha256 (au_static_tokens cfg) token \<or>
    (\<exists>token' cl t. sha256 (text_bytes token') = sha256 (text_bytes token) \<and> genuine lib cfg B t token' cl \<and>
       t \<le> now \<and> now - t < VERIFIED_TOKEN_TTL \<and> cl_iss cl = issuer cfg \<and> unix_now now \<le> cl_exp cl + 60)"
proof (cases "token_is_static sha256 (au_static_tokens cfg) token")
  case False
  then obtain token' cl t where t: "sha256 (text_bytes token') = sha256 (text_bytes token)" "genuine lib cfg B t token' cl"
    "t = now \<or> t \<le> now \<and> now - t < VERIFIED_TOKEN_TTL \<and> unix_now now < cl_exp cl"
    using assms(2) unfolding trusted_def by blast
  have "t \<le> now \<and> now - t < VERIFIED_TOKEN_TTL \<and> cl_iss cl = issuer cfg \<and> unix_now now \<le> cl_exp cl + 60"
    using genuine_claims [OF assms(1) t(2)] t(3) by (auto simp: VERIFIED_TOKEN_TTL_def)
  then show ?thesis using t(1,2) by blast
qed simp

text \<open>A realm with one key whose tokens expire at second 100.\<close>

definition demo_jwt :: "string jwt_lib" where
  "demo_jwt =
     \<lparr>jl_header = (\<lambda>_. Inr (''RS256'', Some ''k'')),
      jl_decode = (\<lambda>_ _ iss now. if now \<le> 100 then Inr \<lparr>cl_iss = iss, cl_exp = 100, cl_azp = None, cl_preferred_username = None\<rparr>
                              else Inl ''ExpiredSignature''),
      jl_rsa = (\<lambda>n _. Some n),
      jl_jwks = (\<lambda>_. Inr [\<lparr>jwk_kid = Some ''k'', jwk_kty = ''RSA'', jwk_alg = None, jwk_n = Some ''n'', jwk_e = Some ''e''\<rparr>])\<rparr>"

definition demo_auth :: auth_config where
  "demo_auth = \<lparr>au_enabled = True, au_grpc_enabled = True, au_keycloak_url = ''http://k'', au_realm = ''r'', au_allowed_clients = [], au_static_tokens = []\<rparr>"

definition demo_request :: request where
  "demo_request = \<lparr>rq_path = ''/mcp'', rq_query = None, rq_authorization = Some ''Bearer t''\<rparr>"

lemma demo_jwt_ok: "jwt_ok demo_jwt"
  by (simp add: jwt_ok_def demo_jwt_def)

text \<open>
  C14: a protected gRPC call reaches a service only with a credential. After any calls on either surface, a call that
  passes carries a bearer token that has the hash of a static token, or of a token of an allowed client that a key the
  realm published signed for this issuer; that was checked less than five minutes ago, and at no time is a token
  accepted that expired more than a minute before.
\<close>

theorem grpc_access_vouched:
  assumes "jwt_ok lib" "auth_reach lib sha256 cfg B t st" "t \<le> now" "au_grpc_enabled cfg"
    and "\<not> (\<exists>prefix \<in> set GRPC_OPEN_PATH_PREFIXES. starts_with prefix (rq_path rq))"
    and "grpc_call lib sha256 now fetched inner rq st = (Inr x, sent, st')"
  shows "\<exists>token. rq_authorization rq = Some (''Bearer '' @ token) \<and>
    (token_is_static sha256 (au_static_tokens cfg) token \<or>
     (\<exists>token' cl t0. sha256 (text_bytes token') = sha256 (text_bytes token) \<and> genuine lib cfg (B \<union> answer fetched) t0 token' cl \<and>
        t0 \<le> now \<and> now - t0 < VERIFIED_TOKEN_TTL \<and> cl_iss cl = issuer cfg \<and> unix_now now \<le> cl_exp cl + 60))"
proof -
  note inv = auth_reach_inv [OF assms(2)]
  have cfg: "as_config st = cfg" using inv by (simp add: auth_inv_def)
  obtain token where token: "Option.bind (rq_authorization rq) (strip_prefix ''Bearer '') = Some token"
    and a: "authorize lib sha256 now fetched token st = (Inr (), sent, st')"
    using assms(4-6) by (auto simp: grpc_call_def authorize_grpc_def cfg split: sum.splits option.splits prod.splits)
  have "rq_authorization rq = Some (''Bearer '' @ token)" using token by (cases "rq_authorization rq") (simp_all add: strip_prefix_Some)
  moreover have "trusted lib sha256 cfg (B \<union> answer fetched) now token" using authorize_spec [OF inv assms(3) a] by blast
  ultimately show ?thesis using trusted_claims [OF assms(1)] by blast
qed

theorem grpc_access_vouched_witness:
  "\<exists>st sent st'. grpc_call demo_jwt (\<lambda>x. x) 9000 (Inl ''down'') (\<lambda>_. ()) demo_request st = (Inr (), sent, st') \<and>
     rq_authorization demo_request = Some ''Bearer t'' \<and>
     (\<exists>token' cl t0. genuine demo_jwt demo_auth {[]} t0 token' cl \<and> t0 \<le> 9000 \<and> unix_now 9000 \<le> cl_exp cl + 60)"
proof -
  let ?sha = "\<lambda>x :: bytes. x" and ?closed = "\<not> (\<exists>prefix \<in> set GRPC_OPEN_PATH_PREFIXES. starts_with prefix (rq_path demo_request))"
  have closed: ?closed by (simp add: GRPC_OPEN_PATH_PREFIXES_def starts_with_def demo_request_def)
  obtain sent st where first: "authorize_grpc demo_jwt ?sha 5000 (Inr []) demo_request (auth_new demo_auth) = (Inr (), sent, st)"
    and verified: "as_verified st (text_bytes ''t'') = Some (100, 5000)" "as_config st = demo_auth"
    using closed
    by (simp add: authorize_grpc_def authorize_def validate_def decoding_key_def key_lookup_def token_is_static_def verified_get_def
        auth_new_def client_allowed_def demo_jwt_def demo_auth_def demo_request_def strip_prefix_def unix_now_def Let_def)
  have reach: "auth_reach demo_jwt ?sha demo_auth ({} \<union> answer (Inr [])) 5000 st"
    by (rule auth_grpc [OF auth_start _ first]) simp
  obtain sent' st' where call: "grpc_call demo_jwt ?sha 9000 (Inl ''down'') (\<lambda>_. ()) demo_request st = (Inr (), sent', st')"
    using closed verified
    by (simp add: grpc_call_def authorize_grpc_def authorize_def token_is_static_def verified_get_def demo_auth_def demo_request_def
        strip_prefix_def unix_now_def VERIFIED_TOKEN_TTL_def Let_def)
  obtain token' cl t0 where "genuine demo_jwt demo_auth {[]} t0 token' cl" "t0 \<le> 9000" "unix_now 9000 \<le> cl_exp cl + 60"
    using grpc_access_vouched [OF demo_jwt_ok reach _ _ closed call] by (auto simp: demo_auth_def answer_def token_is_static_def)
  then show ?thesis using call by (auto simp: demo_request_def)
qed

text \<open>
  C15: a protected HTTP request is served only with a static token or a token that is genuine at that moment.
\<close>

theorem http_access_vouched:
  assumes "jwt_ok lib" "auth_reach lib sha256 cfg B t st" "t \<le> now" "au_enabled cfg" "needs_auth (rq_path rq)"
    and "auth_middleware lib sha256 now fetched run_next rq st = (Inr x, sent, st')"
  shows "\<exists>token. presented_token rq = Inr token \<and>
    (token_is_static sha256 (au_static_tokens cfg) token \<or>
     (\<exists>cl. genuine lib cfg (B \<union> answer fetched) now token cl \<and> cl_iss cl = issuer cfg \<and> unix_now now \<le> cl_exp cl + 60))"
proof -
  note inv = auth_reach_inv [OF assms(2)]
  have cfg: "as_config st = cfg" using inv by (simp add: auth_inv_def)
  obtain token where token: "presented_token rq = Inr token"
    "token_is_static sha256 (au_static_tokens cfg) token \<or> (\<exists>cl. validate lib now fetched token st = (Inr cl, sent, st'))"
    using assms(4-6) by (auto simp: auth_middleware_def cfg split: sum.splits if_splits prod.splits)
  then show ?thesis using validate_spec [OF inv assms(3)] genuine_claims [OF assms(1)] by blast
qed

theorem http_access_vouched_witness:
  "\<exists>sent st'. auth_middleware demo_jwt (\<lambda>x. x) 5000 (Inr []) (\<lambda>_. ()) demo_request (auth_new demo_auth) = (Inr (), sent, st') \<and>
     (\<exists>cl. genuine demo_jwt demo_auth {[]} 5000 ''t'' cl \<and> cl_iss cl = ''http://k/realms/r'')"
proof -
  have path: "needs_auth (rq_path demo_request)" by (simp add: needs_auth_def starts_with_def demo_request_def)
  have token: "presented_token demo_request = Inr ''t''" by (simp add: presented_token_def demo_request_def strip_prefix_def)
  obtain sent st' where call: "auth_middleware demo_jwt (\<lambda>x. x) 5000 (Inr []) (\<lambda>_. ()) demo_request (auth_new demo_auth) = (Inr (), sent, st')"
    using path token
    by (simp add: auth_middleware_def validate_def decoding_key_def key_lookup_def token_is_static_def auth_new_def client_allowed_def
        demo_jwt_def demo_auth_def unix_now_def Let_def)
  have "issuer demo_auth = ''http://k/realms/r''" by (simp add: issuer_def demo_auth_def trim_end_char_def)
  moreover obtain cl where "genuine demo_jwt demo_auth {[]} 5000 ''t'' cl" "cl_iss cl = issuer demo_auth"
    using http_access_vouched [OF demo_jwt_ok auth_start _ _ path call] token by (auto simp: demo_auth_def answer_def token_is_static_def)
  ultimately show ?thesis using call by auto
qed

section \<open>Requests for keys\<close>

text \<open>When a series of lookups sends requests to the realm; each lookup has seen some cache before it takes the write lock.\<close>

fun key_requests ::
  "'k jwt_lib \<Rightarrow> string \<Rightarrow> (nat \<times> 'k jwks_cache \<times> (string + string) \<times> string) list \<Rightarrow> 'k jwks_cache \<Rightarrow> nat list" where
  "key_requests lib url [] c = []"
| "key_requests lib url ((now, seen, fetched, kid) # calls) c =
     (case decoding_key lib url now fetched seen kid c of (_, sent, c') \<Rightarrow> map (\<lambda>_. now) sent @ key_requests lib url calls c')"

definition key_set :: "'k jwt_lib \<Rightarrow> string + string \<Rightarrow> bool" where
  "key_set lib fetched \<longleftrightarrow> (\<exists>body keys. fetched = Inr body \<and> jl_jwks lib body = Inr keys)"

lemma decoding_key_request:
  assumes "decoding_key lib url now fetched seen kid c = (r, sent, c')" "key_set lib fetched"
  shows "sent = [] \<and> c' = c \<or> sent = [url] \<and> jc_last_fetch c' = Some now \<and> (\<forall>t. jc_last_fetch c = Some t \<longrightarrow> t + JWKS_MIN_RETRY \<le> now)"
  using assms by (auto simp: decoding_key_def key_set_def key_lookup_def JWKS_MIN_RETRY_def Let_def split: sum.splits option.splits if_splits)

lemma key_requests_spec:
  "\<forall>(now, seen, fetched, kid) \<in> set calls. key_set lib fetched \<Longrightarrow>
   sorted_wrt (\<lambda>a b. a + JWKS_MIN_RETRY \<le> b) (key_requests lib url calls c) \<and>
   (\<forall>t x. jc_last_fetch c = Some t \<longrightarrow> x \<in> set (key_requests lib url calls c) \<longrightarrow> t + JWKS_MIN_RETRY \<le> x)"
proof (induction calls arbitrary: c)
  case (Cons call calls)
  obtain now seen fetched kid where call: "call = (now, seen, fetched, kid)" by (metis prod_cases4)
  obtain r sent c' where run: "decoding_key lib url now fetched seen kid c = (r, sent, c')" by (metis prod_cases3)
  have "key_set lib fetched" using Cons.prems call by simp
  note one = decoding_key_request [OF run this]
  have rest: "sorted_wrt (\<lambda>a b. a + JWKS_MIN_RETRY \<le> b) (key_requests lib url calls c')"
    "\<And>t x. jc_last_fetch c' = Some t \<Longrightarrow> x \<in> set (key_requests lib url calls c') \<Longrightarrow> t + JWKS_MIN_RETRY \<le> x"
    using Cons.IH [of c'] Cons.prems by auto
  show ?case
  proof (cases "sent = []")
    case True
    then show ?thesis using one rest by (auto simp: call run)
  next
    case False
    then have "sent = [url]" "jc_last_fetch c' = Some now" "\<And>t. jc_last_fetch c = Some t \<Longrightarrow> t + JWKS_MIN_RETRY \<le> now" using one by auto
    moreover from this(2) have "\<And>x. x \<in> set (key_requests lib url calls c') \<Longrightarrow> now + JWKS_MIN_RETRY \<le> x" using rest(2) by blast
    ultimately show ?thesis using rest(1) by (fastforce simp: call run)
  qed
qed simp

text \<open>
  C16: as long as the realm answers with a key set, the server asks it for its keys at most once in two seconds,
  whatever key ids the tokens name and however many calls look for a key at the same time.
\<close>

theorem key_requests_spaced:
  assumes "\<forall>(now, seen, fetched, kid) \<in> set calls. key_set lib fetched"
  shows "sorted_wrt (\<lambda>a b. a + JWKS_MIN_RETRY \<le> b) (key_requests lib url calls c)"
  using key_requests_spec [OF assms] by blast

theorem key_requests_spaced_witness:
  "let c = as_keys (auth_new demo_auth); calls = [(0, c, Inr [], ''x''), (0, c, Inr [], ''y''), (1999, c, Inr [], ''x''), (2000, c, Inr [], ''x'')]
   in key_requests demo_jwt [] calls c = [0, 2000] \<and> sorted_wrt (\<lambda>a b. a + JWKS_MIN_RETRY \<le> b) (key_requests demo_jwt [] calls c)"
  using key_requests_spaced [of "[(0, as_keys (auth_new demo_auth), Inr [], ''x''), (0, as_keys (auth_new demo_auth), Inr [], ''y''),
      (1999, as_keys (auth_new demo_auth), Inr [], ''x''), (2000, as_keys (auth_new demo_auth), Inr [], ''x'')]" demo_jwt "[]" "as_keys (auth_new demo_auth)"]
  by (simp add: Let_def key_set_def decoding_key_def key_lookup_def auth_new_def demo_jwt_def JWKS_MIN_RETRY_def)

text \<open>
  An answer that is not a key set is not remembered. While the realm cannot be reached, every call with an
  unknown key id sends a request of its own, however close they are.
\<close>

theorem failed_key_requests_repeat:
  assumes "jc_by_kid c kid = None" "jc_last_fetch c = None" "\<not> key_set lib fetched"
  shows "key_requests lib url (replicate n (now, c, fetched, kid)) c = replicate n now"
  using assms
  by (induction n) (auto simp: decoding_key_def key_lookup_def key_set_def Let_def split: sum.splits)

theorem failed_key_requests_repeat_witness:
  "key_requests demo_jwt [] (replicate 1000 (0, as_keys (auth_new demo_auth), Inl ''down'', ''x'')) (as_keys (auth_new demo_auth)) = replicate 1000 0"
  by (rule failed_key_requests_repeat) (simp_all add: auth_new_def key_set_def)

end
