(* ===== verification/Spec2Isabelle.thy ===== *)
theory Spec2Isabelle
  imports Engine_Run Tiered_Cas Tiered_Action_Cache Grpc_Cas Execution_Service Output_Uploader Auth
begin

text \<open>
  A verification library for FerrisRBE, a remote build execution server. All paths below are relative to
  \<open>src/src\<close>.

  \<^bold>\<open>The program.\<close> A build client stores inputs in a content-addressed store (CAS) and asks the server to
  execute an action. The execution service looks the action up in the action cache; on a miss it makes
  an executable action and hands it to the engine. The engine queues it in a scheduler that is fair between builds,
  assigns it to a worker of the registry, and moves a state machine per operation. The worker uploads the outputs
  to the CAS and reports a result; the engine finishes the operation and the result is recorded in the action cache.
  CAS and action cache have an in-memory, a disk and an object-store tier. Every call passes authentication first.

  \<^bold>\<open>Conventions.\<close> State is a record that operations take and return. Time is a number of milliseconds given to
  an operation. Hash maps are association lists where their order or keys matter and partial maps elsewhere; strings are
  their bytes. Failures are values of \<open>rbe_error\<close>, \<open>cas_error\<close>, \<open>status\<close> or \<open>auth_error\<close>.
  Calls to the file system fail where the argument \<open>io\<close> says so, so theorems without an assumption on it hold for
  every pattern of failures. Counters and offsets that wrap are words or reduced explicitly (\<open>i64_wrap\<close>,
  \<open>signed64\<close>). Code of other packages is an argument: SHA-256 (\<open>sha256_width\<close>), the object store
  (\<open>object_store_ok\<close>, \<open>object_path_ok\<close>), the protobuf codec (\<open>proto_codec\<close>,
  \<open>small_encoder\<close>), JWT decoding (\<open>jwt_ok\<close>); the names in parentheses are what the theorems assume of it, and
  witnesses show concrete functions that satisfy it. Hexadecimal is \<open>lower_hex\<close>.

  \<^bold>\<open>Foundations.\<close>
  \<^item> \<open>Prelude\<close>: lists, association lists, numbers as text. \<open>Rust_Text\<close>: the string operations of the standard library.
  \<^item> \<open>Digest\<close> (\<open>types.rs\<close>): digests, their text and its parsing; errors.
  \<^item> \<open>Reapi\<close> (the protocol files and \<open>cas/error.rs\<close>): messages with the fields the program reads; statuses.

  \<^bold>\<open>Execution.\<close>
  \<^item> \<open>Execution_State\<close> (\<open>execution/state_machine.rs\<close>): stages, transitions, history, watchers, the table of machines.
    Every reachable machine has a bounded history that ends in its stage, and terminal stages are final.
  \<^item> \<open>Worker_Registry\<close> (\<open>worker/k8s.rs\<close>): workers, slots, heartbeats, platform requirements, selection. No worker runs
    more than its capacity, and a selection is a best one.
  \<^item> \<open>Fair_Queue\<close>, \<open>Scheduler\<close> (\<open>execution/scheduler.rs\<close>): an invocation's actions leave in order; one action
    per digest; running counts are exact. The score of an invocation is a real number where the code has an \<open>f64\<close>.
  \<^item> \<open>Engine\<close>, \<open>Engine_Run\<close> (\<open>execution/engine.rs\<close>, \<open>execution/results.rs\<close>): one definition per handler
    and \<open>engine_reachable\<close> as their interleavings. Every operation in progress is in one place, is handed out a
    bounded number of times, the first result wins, and a dispatch pass leaves no idle worker that could serve a waiting action.
  \<^item> \<open>Output_Handler\<close> (\<open>execution/output_handler.rs\<close>), \<open>Critical_Actions\<close> (\<open>server/critical_actions.rs\<close>):
    where standard output goes, and which actions get extra properties.
  \<^item> \<open>Execution_Service\<close> (\<open>server/execution_service.rs\<close>): \<open>Execute\<close>, \<open>WaitExecution\<close> and the recorder over
    engine, cache and CAS. Every action made from a request is well formed, the engine's invariant is kept, a recorded success
    is served without executing again, and waiting ends with the response executing would have given.

  \<^bold>\<open>Content-addressed store.\<close>
  \<^item> \<open>Lru_State\<close> (\<open>cache/lru.rs\<close>), \<open>Sharded_Layout\<close> (\<open>cache/sharded_layout.rs\<close>): the recency order with its
    three indices; paths, staging files, scan and restored recency.
  \<^item> \<open>Disk_Cas\<close>, \<open>Disk_Accounting\<close> (\<open>cas/backends/disk.rs\<close>): what is served is intact, a failed write leaves
    nothing behind, and without failures the counters are those of the files and a write ends within the budget.
  \<^item> \<open>Cas_Backend\<close> (\<open>cas/mod.rs\<close>): the backend trait as the record \<open>cas_ops\<close> with its laws as the locales
    \<open>cas_lookup\<close>, \<open>cas_backend\<close> and \<open>durable_backend\<close>, which extend each other. The services and the clients
    below are proved once inside them.
  \<^item> \<open>Object_Cas\<close> (\<open>cas/backends/object.rs\<close>): a durable backend over any store that keeps its contract.
  \<^item> \<open>Tiered_Cas\<close> (\<open>cas/backends/tiered.rs\<close>): disk before object store; a written blob survives the loss of the disk.
  \<^item> \<open>Cas_Service\<close> (\<open>server/cas_service.rs\<close>), \<open>Byte_Stream\<close> (\<open>server/byte_stream.rs\<close>): the RPCs. A tree
    request always returns, and exactly the reachable directories; missing blobs are exact; reads deliver the asked window.
  \<^item> \<open>Grpc_Cas\<close> (\<open>cas/backends/grpc.rs\<close>): the client, composed with this server: finished uploads are stored and
    lookups are sound.
  \<^item> \<open>Output_Uploader\<close> (\<open>worker/output_uploader.rs\<close>): planning, batching, sending, reporting. What is reported is
    stored, with every file of every reported tree; batches partition the small blobs and fit their limit.

  \<^bold>\<open>Action cache.\<close>
  \<^item> \<open>Action_Cache\<close> (\<open>cache/action_cache.rs\<close>): refines a map with expiry.
  \<^item> \<open>Disk_Action_Cache\<close> (\<open>cache/disk_action_cache.rs\<close>): serves only what was stored, for a bounded time.
  \<^item> \<open>Tiered_Action_Cache\<close> (\<open>cache/object_action_cache.rs\<close>, \<open>cache/tiered_action_cache.rs\<close>): results are shared
    through the object store; uploads in the background are explicit steps.
  \<^item> \<open>Action_Cache_Log\<close> (\<open>cache/action_cache_log.rs\<close>): lookups per target and which worker made an output.
  \<^item> \<open>Action_Cache_Service\<close> (\<open>server/action_cache_service.rs\<close>): a hit is served only when all its blobs are stored.

  \<^bold>\<open>Access.\<close>
  \<^item> \<open>Auth\<close> (\<open>server/auth.rs\<close>): configuration, signing keys, tokens and the two surfaces. \<open>auth_reach\<close> is a
    server after any calls; a call that passes carries a static token or one the realm vouches for, and requests for
    keys are spaced while the realm answers. While it does not, they are not, which the code's comment does not say.

  \<^bold>\<open>Bounds.\<close> No definition runs on fuel. The walk over a tree in \<open>Cas_Service\<close> is a \<open>partial_function\<close> and is proved to
    return; every other loop is structural or has a measure. Sizes of single blobs are assumed below \<open>2 ^ 63\<close> where a size
    is an \<open>i64\<close>, and SHA-256 is never assumed injective: where a write must not disturb another blob, the digests at
    hand are assumed not to share a hash with different sizes.

  \<^bold>\<open>Not modelled.\<close>
  \<^item> Tasks, locks and channels: handlers are atomic and their interleavings are sequences of steps. In \<open>Auth\<close> the cache of
    keys may change between the read and the write lock, in \<open>Byte_Stream\<close> the number of chunks a backend takes is free.
  \<^item> \<open>server/worker_service.rs\<close>: the stream to a worker; its effects are steps of the registry and the engine.
  \<^item> \<open>worker/materializer.rs\<close>, \<open>worker/process.rs\<close>, \<open>worker/pool.rs\<close>, \<open>worker/multiplex.rs\<close>, \<open>bin/\<close>: reflinks,
    child processes, namespaces, sockets and timers of the operating system.
  \<^item> \<open>bes/\<close>, \<open>mcp/\<close>, \<open>metrics.rs\<close>, \<open>readiness.rs\<close> and the web interface: views that decide nothing about what is executed
    or cached.
  \<^item> \<open>proxy/\<close>, \<open>server/remote_asset_service.rs\<close>: a cache for downloads over HTTP beside remote execution.
  \<^item> \<open>cli/\<close>, \<open>grpc_credentials.rs\<close>, \<open>server/mod.rs\<close>, \<open>main.rs\<close>: login, configuration and start-up.
\<close>

end
